(* ===== verification/Prelude.thy ===== *)
theory Prelude
  imports Main "HOL-Library.Char_ord" "HOL-Library.List_Lexorder"
    "HOL-Library.Product_Lexorder" "HOL-Library.Word"
begin

text \<open>
  Shared vocabulary of the development: the ways a C++ operation can fail to return, the
  result type that carries them, \<open>size_t\<close> arithmetic with its wrap-around, accesses to
  a byte store, the standard algorithms the sources call (\<open>std::search\<close>,
  \<open>std::find\<close>, \<open>memchr\<close>), and decimal printing for \<open>snprintf\<close>.
\<close>

named_theorems res_simps \<open>equations that evaluate the result type\<close>
named_theorems size_simps \<open>size_t arithmetic that does not wrap\<close>

section \<open>Faults and results\<close>

text \<open>
  One constructor per way in which a C++ call does not return normally: a failed
  \<open>assert\<close> (the build files never define \<open>NDEBUG\<close>, so \<open>assert\<close> aborts), an
  access outside an array, \<open>std::length_error\<close> from \<open>vector::resize\<close>, a signed
  overflow, a call of an empty \<open>std::function\<close>, the end of a value-returning function
  reached without a \<open>return\<close>, \<open>delete\<close> of an address that was never allocated, a
  loop that runs for ever, and a call of \<open>exit\<close>.
\<close>

datatype fault =
    AssertFailed
  | OutOfBounds
  | LengthError
  | SignedOverflow
  | BadFunctionCall
  | MissingReturn
  | InvalidDelete
  | NeverReturns
  | ExitCalled

type_synonym 'a res = "fault + 'a"

definition bind_res :: "'a res \<Rightarrow> ('a \<Rightarrow> 'b res) \<Rightarrow> 'b res" where
  "bind_res m f = (case m of Inl e \<Rightarrow> Inl e | Inr x \<Rightarrow> f x)"

abbreviation cpp_assert :: "bool \<Rightarrow> 'a res \<Rightarrow> 'a res" where
  "cpp_assert c k \<equiv> (if c then k else Inl AssertFailed)"

lemma bind_res_Inl [simp, res_simps]: "bind_res (Inl e) f = Inl e"
  by (simp add: bind_res_def)

lemma bind_res_Inr [simp, res_simps]: "bind_res (Inr x) f = f x"
  by (simp add: bind_res_def)

lemma bind_res_eq_Inr: "bind_res m f = Inr y \<longleftrightarrow> (\<exists>x. m = Inr x \<and> f x = Inr y)"
  by (cases m) auto

lemma bind_res_eq_Inl: "bind_res m f = Inl e \<longleftrightarrow> m = Inl e \<or> (\<exists>x. m = Inr x \<and> f x = Inl e)"
  by (cases m) auto

lemma bind_res_assoc: "bind_res (bind_res m f) g = bind_res m (\<lambda>x. bind_res (f x) g)"
  by (cases m) auto

lemma bind_resE:
  assumes "bind_res m f = Inr y"
  obtains x where "m = Inr x" and "f x = Inr y"
  using assms by (auto simp: bind_res_eq_Inr)

text \<open>Total correctness: the operation returns and its result satisfies \<open>P\<close>.\<close>

definition returns :: "'a res \<Rightarrow> ('a \<Rightarrow> bool) \<Rightarrow> bool" where
  "returns m P = (case m of Inl e \<Rightarrow> False | Inr x \<Rightarrow> P x)"

lemma returns_Inr [simp, res_simps]: "returns (Inr x) P = P x"
  by (simp add: returns_def)

lemma returns_Inl [simp, res_simps]: "\<not> returns (Inl e) P"
  by (simp add: returns_def)

lemma returns_iff: "returns m P \<longleftrightarrow> (\<exists>x. m = Inr x \<and> P x)"
  by (cases m) auto

lemma returns_mono: "returns m P \<Longrightarrow> (\<And>x. P x \<Longrightarrow> Q x) \<Longrightarrow> returns m Q"
  by (cases m) auto

lemma returnsE:
  assumes "returns m P"
  obtains x where "m = Inr x" and "P x"
  using assms by (auto simp: returns_iff)

lemma returns_bind: "returns m P \<Longrightarrow> (\<And>x. P x \<Longrightarrow> returns (f x) Q) \<Longrightarrow> returns (bind_res m f) Q"
  by (cases m) auto

lemma returns_conj: "returns m P \<Longrightarrow> returns m Q \<Longrightarrow> returns m (\<lambda>x. P x \<and> Q x)"
  by (cases m) auto

text \<open>Partial correctness, for facts that hold of whatever an operation returns.\<close>

definition res_all :: "'a res \<Rightarrow> ('a \<Rightarrow> bool) \<Rightarrow> bool" where
  "res_all m P \<longleftrightarrow> (\<forall>x. m = Inr x \<longrightarrow> P x)"

lemma res_allI: "(\<And>x. m = Inr x \<Longrightarrow> P x) \<Longrightarrow> res_all m P"
  by (simp add: res_all_def)

lemma res_allD: "res_all m P \<Longrightarrow> m = Inr x \<Longrightarrow> P x"
  by (simp add: res_all_def)

lemma res_all_simps [simp, res_simps]:
  "res_all (Inl e) P" "res_all (Inr x) P = P x"
  "res_all (bind_res m f) P = res_all m (\<lambda>x. res_all (f x) P)"
  by (auto simp: res_all_def bind_res_eq_Inr)

text \<open>
  Running a list of operations one after the other, stopping at the first fault, and the rule
  that carries an invariant through such a run.
\<close>

primrec fold_res :: "('o \<Rightarrow> 's \<Rightarrow> 's res) \<Rightarrow> 'o list \<Rightarrow> 's \<Rightarrow> 's res" where
  "fold_res f [] s = Inr s"
| "fold_res f (x # xs) s = bind_res (f x s) (fold_res f xs)"

lemma fold_res_append: "fold_res f (xs @ ys) s = bind_res (fold_res f xs s) (fold_res f ys)"
  by (induction xs arbitrary: s) (auto simp: bind_res_def split: sum.splits)

lemma fold_res_invariant:
  assumes "P s" and "\<And>x s. x \<in> set xs \<Longrightarrow> P s \<Longrightarrow> returns (f x s) P"
  shows "returns (fold_res f xs s) P"
  using assms
proof (induction xs arbitrary: s)
  case Nil
  then show ?case by simp
next
  case (Cons x xs)
  have "returns (f x s) P" using Cons.prems by simp
  moreover have "returns (fold_res f xs s') P" if "P s'" for s'
    using that Cons.prems(2) by (intro Cons.IH) auto
  ultimately show ?case by (auto intro: returns_bind)
qed

lemma fold_res_pure: "fold_res (\<lambda>x s. Inr (f x s)) xs s = Inr (fold f xs s)"
  by (induction xs arbitrary: s) auto

section \<open>size_t\<close>

text \<open>
  A \<open>size_t\<close> is a natural number below \<open>2 ^ 64\<close>; the sums and differences the
  code computes are taken modulo \<open>2 ^ 64\<close>. \<open>vec_max\<close> is
  \<open>std::vector<char>::max_size()\<close> on a 64-bit system (\<open>PTRDIFF_MAX\<close>): a larger
  \<open>resize\<close> throws \<open>std::length_error\<close>.
\<close>

definition size_mod :: nat where
  "size_mod = 2 ^ 64"

definition vec_max :: nat where
  "vec_max = 2 ^ 63 - 1"

definition sz_add :: "nat \<Rightarrow> nat \<Rightarrow> nat" where
  "sz_add a b = (a + b) mod size_mod"

definition sz_sub :: "nat \<Rightarrow> nat \<Rightarrow> nat" where
  "sz_sub a b = (a + size_mod - b) mod size_mod"

lemma sz_add_exact [size_simps]: "a + b < size_mod \<Longrightarrow> sz_add a b = a + b"
  by (simp add: sz_add_def)

lemma sz_sub_exact [size_simps]:
  assumes "b \<le> a" and "a < size_mod"
  shows "sz_sub a b = a - b"
proof -
  from assms have "a + size_mod - b = (a - b) + size_mod" by simp
  then have "sz_sub a b = (a - b) mod size_mod" by (simp add: sz_sub_def)
  with assms show ?thesis by simp
qed

lemma vec_max_less [simp]: "n \<le> vec_max \<Longrightarrow> n < size_mod"
  by (simp add: vec_max_def size_mod_def)

lemma vec_max_less2: "m \<le> vec_max \<Longrightarrow> n \<le> vec_max \<Longrightarrow> m + n < size_mod"
  by (simp add: vec_max_def size_mod_def)

text \<open>A signed 64-bit result: overflow is undefined behaviour.\<close>

definition int64_res :: "int \<Rightarrow> int res" where
  "int64_res x = (if - (2 ^ 63) \<le> x \<and> x < 2 ^ 63 then Inr x else Inl SignedOverflow)"

text \<open>A signed 32-bit result.\<close>

definition int32_res :: "int \<Rightarrow> int res" where
  "int32_res x = (if - (2 ^ 31) \<le> x \<and> x < 2 ^ 31 then Inr x else Inl SignedOverflow)"

section \<open>Byte stores\<close>

definition mem_read :: "'a list \<Rightarrow> nat \<Rightarrow> nat \<Rightarrow> 'a list res" where
  "mem_read xs i n = (if i + n \<le> length xs then Inr (take n (drop i xs)) else Inl OutOfBounds)"

definition mem_write :: "'a list \<Rightarrow> nat \<Rightarrow> 'a list \<Rightarrow> 'a list res" where
  "mem_write xs i ys =
     (if i + length ys \<le> length xs
      then Inr (take i xs @ ys @ drop (i + length ys) xs) else Inl OutOfBounds)"

lemma mem_write_ok [simp]:
  "i + length ys \<le> length xs \<Longrightarrow>
   mem_write xs i ys = Inr (take i xs @ ys @ drop (i + length ys) xs)"
  by (simp add: mem_write_def)

lemma mem_read_ok [simp]:
  "i + n \<le> length xs \<Longrightarrow> mem_read xs i n = Inr (take n (drop i xs))"
  by (simp add: mem_read_def)

text \<open>\<open>vector::resize\<close>: truncate, or pad with value-initialised elements.\<close>

definition vec_resize :: "'a \<Rightarrow> 'a list \<Rightarrow> nat \<Rightarrow> 'a list res" where
  "vec_resize z xs n =
     (if n \<le> vec_max then Inr (take n xs @ replicate (n - length xs) z) else Inl LengthError)"

lemma vec_resize_grow: "n \<le> vec_max \<Longrightarrow> length xs \<le> n \<Longrightarrow>
    vec_resize z xs n = Inr (xs @ replicate (n - length xs) z)"
  by (simp add: vec_resize_def)

lemma take_drop_append_replicate:
  "i + n \<le> length xs \<Longrightarrow> take n (drop i (xs @ ys)) = take n (drop i xs)"
  by simp

section \<open>Standard algorithms on ranges\<close>

text \<open>
  \<open>search_in xs pat\<close> is the offset of the first occurrence of \<open>pat\<close> in the range
  \<open>xs\<close>, or the end of the range; \<open>std::find\<close> likewise for one element.
\<close>

fun search_in :: "'a list \<Rightarrow> 'a list \<Rightarrow> nat" where
  "search_in [] pat = 0"
| "search_in (x # xs) pat =
     (if take (length pat) (x # xs) = pat then 0 else Suc (search_in xs pat))"

definition find_in :: "'a list \<Rightarrow> 'a \<Rightarrow> nat" where
  "find_in xs c = length (takeWhile (\<lambda>x. x \<noteq> c) xs)"

lemma search_in_le [simp]: "search_in xs pat \<le> length xs"
  by (induction xs) auto

lemma search_in_found:
  "search_in xs pat < length xs \<Longrightarrow> take (length pat) (drop (search_in xs pat) xs) = pat"
  by (induction xs) auto

lemma search_in_first:
  "j < search_in xs pat \<Longrightarrow> take (length pat) (drop j xs) \<noteq> pat"
proof (induction xs arbitrary: j)
  case Nil
  then show ?case by simp
next
  case (Cons x xs)
  then show ?case by (cases j) (auto split: if_splits)
qed

lemma search_in_found_fits:
  assumes "search_in xs pat < length xs"
  shows "search_in xs pat + length pat \<le> length xs"
proof -
  have "length (take (length pat) (drop (search_in xs pat) xs)) = length pat"
    using search_in_found [OF assms] by simp
  with assms show ?thesis by simp
qed

lemma take_append_short: "n \<le> length xs \<Longrightarrow> take n (xs @ ys) = take n xs"
  by simp

lemma search_in_append_stable:
  assumes "search_in xs pat < length xs"
  shows "search_in (xs @ ys) pat = search_in xs pat"
  using assms
proof (induction xs)
  case Nil
  then show ?case by simp
next
  case (Cons x xs)
  show ?case
  proof (cases "take (length pat) (x # xs) = pat")
    case True
    then have "length pat \<le> length (x # xs)"
      by (metis length_take min.cobounded1 min.commute)
    then have "take (length pat) ((x # xs) @ ys) = take (length pat) (x # xs)"
      by (intro take_append_short) simp
    with True show ?thesis by simp
  next
    case False
    with Cons.prems have lt: "search_in xs pat < length xs" by simp
    then have "search_in xs pat + length pat \<le> length xs" by (rule search_in_found_fits)
    then have "take (length pat) ((x # xs) @ ys) = take (length pat) (x # xs)"
      by (intro take_append_short) simp
    with False Cons.IH [OF lt] show ?thesis by simp
  qed
qed

lemma find_in_le [simp]: "find_in xs c \<le> length xs"
  by (simp add: find_in_def length_takeWhile_le)

lemma find_in_append: "c \<notin> set xs \<Longrightarrow> find_in (xs @ c # ys) c = length xs"
  by (induction xs) (auto simp: find_in_def)

lemma find_in_notin: "c \<notin> set xs \<Longrightarrow> find_in xs c = length xs"
  by (induction xs) (auto simp: find_in_def)

lemma find_in_less: "find_in xs c < length xs \<longleftrightarrow> c \<in> set xs"
  by (induction xs) (auto simp: find_in_def)

section \<open>Decimal printing\<close>

text \<open>The digits \<open>snprintf\<close> prints for a non-negative \<open>%d\<close>, \<open>%u\<close> or \<open>%zd\<close>.\<close>

definition digit_char :: "nat \<Rightarrow> char" where
  "digit_char d = char_of (48 + d)"

fun dec :: "nat \<Rightarrow> string" where
  "dec n = (if n < 10 then [digit_char n] else dec (n div 10) @ [digit_char (n mod 10)])"

declare dec.simps [simp del]

definition digit_val :: "char \<Rightarrow> nat" where
  "digit_val c = of_char c - 48"

definition undec :: "string \<Rightarrow> nat" where
  "undec cs = foldl (\<lambda>a c. a * 10 + digit_val c) 0 cs"

lemma digit_val_char [simp]: "d < 10 \<Longrightarrow> digit_val (digit_char d) = d"
  by (simp add: digit_val_def digit_char_def)

lemma undec_dec [simp]: "undec (dec n) = n"
proof (induction n rule: dec.induct)
  case (1 n)
  show ?case
  proof (cases "n < 10")
    case True
    then show ?thesis by (simp add: dec.simps [of n] undec_def)
  next
    case False
    with 1 have "undec (dec (n div 10)) = n div 10" by simp
    with False show ?thesis by (simp add: dec.simps [of n] undec_def)
  qed
qed

lemma dec_inject: "dec m = dec n \<longleftrightarrow> m = n"
  by (metis undec_dec)

lemma dec_nonempty [simp]: "dec n \<noteq> []"
  by (subst dec.simps) simp

lemma length_dec_le: "n < 10 ^ k \<Longrightarrow> 0 < k \<Longrightarrow> length (dec n) \<le> k"
proof (induction k arbitrary: n)
  case 0
  then show ?case by simp
next
  case (Suc k)
  show ?case
  proof (cases "n < 10")
    case True
    then show ?thesis by (simp add: dec.simps [of n])
  next
    case False
    have "0 < k" using False Suc.prems by (cases k) auto
    moreover have "n div 10 < 10 ^ k" using Suc.prems by auto
    ultimately have "length (dec (n div 10)) \<le> k" by (rule Suc.IH [rotated])
    with False show ?thesis by (simp add: dec.simps [of n])
  qed
qed

text \<open>\<open>snprintf(buf, cap, ...)\<close> keeps at most \<open>cap - 1\<close> characters.\<close>

definition snprintf :: "nat \<Rightarrow> string \<Rightarrow> string" where
  "snprintf cap s = take (cap - 1) s"

lemma snprintf_fits: "length s < cap \<Longrightarrow> snprintf cap s = s"
  by (simp add: snprintf_def)

abbreviation CRLF :: string where
  "CRLF \<equiv> [CHR 0x0D, CHR 0x0A]"

end
