(* ===== verification/Channel.thy ===== *)
theory Channel
  imports Prelude
begin

text \<open>
  \<open>net/Channel.h\<close> and \<open>net/Channel.cpp\<close>: the dispatcher of one file descriptor. The
  event masks keep their bits; a callback is an optional identifier, run by a parameter; the
  object a channel is tied to is its address, and \<open>alive\<close> says whether the weak pointer
  can still be locked. The operations that reach the poller are in the theory of the poller.
\<close>

unbundle bit_operations_syntax

section \<open>Event bits\<close>

definition EPOLLIN :: "32 word" where "EPOLLIN = 0x001"
definition EPOLLPRI :: "32 word" where "EPOLLPRI = 0x002"
definition EPOLLOUT :: "32 word" where "EPOLLOUT = 0x004"
definition EPOLLERR :: "32 word" where "EPOLLERR = 0x008"
definition EPOLLHUP :: "32 word" where "EPOLLHUP = 0x010"
definition EPOLLRDHUP :: "32 word" where "EPOLLRDHUP = 0x2000"

definition kNoneEvent :: "32 word" where
  "kNoneEvent = 0"

definition kReadEvent :: "32 word" where
  "kReadEvent = EPOLLIN OR EPOLLPRI"

definition kWriteEvent :: "32 word" where
  "kWriteEvent = EPOLLOUT"

lemmas epoll_bits = EPOLLIN_def EPOLLPRI_def EPOLLOUT_def EPOLLERR_def EPOLLHUP_def EPOLLRDHUP_def
lemmas event_masks = kNoneEvent_def kReadEvent_def kWriteEvent_def epoll_bits

text \<open>\<open>event & mask\<close> as a condition.\<close>

definition has_bits :: "32 word \<Rightarrow> 32 word \<Rightarrow> bool" where
  "has_bits ev m \<longleftrightarrow> ev AND m \<noteq> 0"

section \<open>State\<close>

record 'cb channel_t =
  ch_loop :: nat
  ch_fd :: int
  ch_events :: "32 word"
  ch_revents :: "32 word"
  ch_statusInEpoll :: int
  ch_eventHandling :: bool
  ch_addedToLoop :: bool
  ch_tied :: bool
  ch_tie :: "nat option"
  ch_readCallback :: "'cb option"
  ch_writeCallback :: "'cb option"
  ch_closeCallback :: "'cb option"
  ch_errorCallback :: "'cb option"

definition Channel_new :: "nat \<Rightarrow> int \<Rightarrow> 'cb channel_t" where
  "Channel_new loop fdArg = \<lparr>ch_loop = loop, ch_fd = fdArg, ch_events = 0, ch_revents = 0, ch_statusInEpoll = -1,
     ch_eventHandling = False, ch_addedToLoop = False, ch_tied = False, ch_tie = None,
     ch_readCallback = None, ch_writeCallback = None, ch_closeCallback = None,
     ch_errorCallback = None\<rparr>"

text \<open>The destructor: its two assertions.\<close>

definition Channel_delete :: "'cb channel_t \<Rightarrow> unit res" where
  "Channel_delete ch =
     cpp_assert (\<not> ch_eventHandling ch) (cpp_assert (\<not> ch_addedToLoop ch) (Inr ()))"

definition Channel_tie :: "nat \<Rightarrow> 'cb channel_t \<Rightarrow> 'cb channel_t" where
  "Channel_tie obj ch = ch\<lparr>ch_tie := Some obj, ch_tied := True\<rparr>"

definition Channel_setReadCallback :: "'cb option \<Rightarrow> 'cb channel_t \<Rightarrow> 'cb channel_t" where
  "Channel_setReadCallback cb ch = ch\<lparr>ch_readCallback := cb\<rparr>"

definition Channel_setWriteCallback :: "'cb option \<Rightarrow> 'cb channel_t \<Rightarrow> 'cb channel_t" where
  "Channel_setWriteCallback cb ch = ch\<lparr>ch_writeCallback := cb\<rparr>"

definition Channel_setCloseCallback :: "'cb option \<Rightarrow> 'cb channel_t \<Rightarrow> 'cb channel_t" where
  "Channel_setCloseCallback cb ch = ch\<lparr>ch_closeCallback := cb\<rparr>"

definition Channel_setErrorCallback :: "'cb option \<Rightarrow> 'cb channel_t \<Rightarrow> 'cb channel_t" where
  "Channel_setErrorCallback cb ch = ch\<lparr>ch_errorCallback := cb\<rparr>"

definition Channel_setRevents :: "32 word \<Rightarrow> 'cb channel_t \<Rightarrow> 'cb channel_t" where
  "Channel_setRevents revt ch = ch\<lparr>ch_revents := revt\<rparr>"

definition Channel_setStatusInEpoll :: "int \<Rightarrow> 'cb channel_t \<Rightarrow> 'cb channel_t" where
  "Channel_setStatusInEpoll st ch = ch\<lparr>ch_statusInEpoll := st\<rparr>"

definition Channel_isNoneEvent :: "'cb channel_t \<Rightarrow> bool" where
  "Channel_isNoneEvent ch \<longleftrightarrow> ch_revents ch = kNoneEvent"

definition Channel_isWriting :: "'cb channel_t \<Rightarrow> bool" where
  "Channel_isWriting ch \<longleftrightarrow> has_bits (ch_events ch) kWriteEvent"

section \<open>Dispatch\<close>

text \<open>
  The state of a dispatch is the channel and the rest of the program, which a callback may
  change; \<open>call cb t s\<close> runs the callback \<open>cb\<close> at the receive time \<open>t\<close>.
\<close>

definition call_if :: "('cb \<Rightarrow> int \<Rightarrow> 's \<Rightarrow> 's res) \<Rightarrow> 'cb option \<Rightarrow> int \<Rightarrow> 's \<Rightarrow> 's res" where
  "call_if call cb t s = (case cb of None \<Rightarrow> Inr s | Some c \<Rightarrow> call c t s)"

definition Channel_handleEventWithGuard ::
  "('cb \<Rightarrow> int \<Rightarrow> 'cb channel_t \<times> 'w \<Rightarrow> ('cb channel_t \<times> 'w) res) \<Rightarrow> int
     \<Rightarrow> 'cb channel_t \<times> 'w \<Rightarrow> ('cb channel_t \<times> 'w) res" where
  "Channel_handleEventWithGuard call receiveTime s0 =
     (let s1 = ((fst s0)\<lparr>ch_eventHandling := True\<rparr>, snd s0) in
      bind_res
        (if has_bits (ch_revents (fst s1)) EPOLLHUP \<and> \<not> has_bits (ch_revents (fst s1)) EPOLLIN
         then call_if call (ch_closeCallback (fst s1)) receiveTime s1 else Inr s1) (\<lambda>s2.
      bind_res
        (if has_bits (ch_revents (fst s2)) EPOLLERR
         then call_if call (ch_errorCallback (fst s2)) receiveTime s2 else Inr s2) (\<lambda>s3.
      bind_res
        (if has_bits (ch_revents (fst s3)) (EPOLLIN OR EPOLLPRI OR EPOLLRDHUP)
         then call_if call (ch_readCallback (fst s3)) receiveTime s3 else Inr s3) (\<lambda>s4.
      bind_res
        (if has_bits (ch_revents (fst s4)) EPOLLOUT
         then call_if call (ch_writeCallback (fst s4)) receiveTime s4 else Inr s4) (\<lambda>s5.
      Inr ((fst s5)\<lparr>ch_eventHandling := False\<rparr>, snd s5))))))"

definition Channel_handleEvent ::
  "(nat \<Rightarrow> bool) \<Rightarrow> ('cb \<Rightarrow> int \<Rightarrow> 'cb channel_t \<times> 'w \<Rightarrow> ('cb channel_t \<times> 'w) res) \<Rightarrow> int
     \<Rightarrow> 'cb channel_t \<times> 'w \<Rightarrow> ('cb channel_t \<times> 'w) res" where
  "Channel_handleEvent alive call receiveTime s =
     (if ch_tied (fst s)
      then (case ch_tie (fst s) of
              None \<Rightarrow> Inr s
            | Some obj \<Rightarrow>
                if alive obj then Channel_handleEventWithGuard call receiveTime s else Inr s)
      else Channel_handleEventWithGuard call receiveTime s)"

section \<open>Printing\<close>

text \<open>\<open>int\<close> printed by a stream.\<close>

definition show_int :: "int \<Rightarrow> string" where
  "show_int i = (if i < 0 then CHR ''-'' # dec (nat (- i)) else dec (nat i))"

definition Channel_eventsToString_of :: "int \<Rightarrow> 32 word \<Rightarrow> string" where
  "Channel_eventsToString_of fd ev =
     show_int fd @ '': ''
       @ (if has_bits ev EPOLLIN then ''IN '' else [])
       @ (if has_bits ev EPOLLPRI then ''PRI '' else [])
       @ (if has_bits ev EPOLLOUT then ''OUT '' else [])
       @ (if has_bits ev EPOLLHUP then ''HUP '' else [])
       @ (if has_bits ev EPOLLRDHUP then ''RDHUP '' else [])
       @ (if has_bits ev EPOLLERR then ''ERR '' else [])"

definition Channel_reventsToString :: "'cb channel_t \<Rightarrow> string" where
  "Channel_reventsToString ch = Channel_eventsToString_of (ch_fd ch) (ch_revents ch)"

definition Channel_eventsToString :: "'cb channel_t \<Rightarrow> string" where
  "Channel_eventsToString ch = Channel_eventsToString_of (ch_fd ch) (ch_events ch)"

section \<open>Bits\<close>

lemma has_bits_or: "has_bits ev (a OR b) \<longleftrightarrow> has_bits ev a \<or> has_bits ev b"
  by (auto simp: has_bits_def bit.conj_disj_distrib bit_eq_iff bit_and_iff bit_or_iff)

lemma has_bits_or_left: "has_bits (ev OR ev') m \<longleftrightarrow> has_bits ev m \<or> has_bits ev' m"
  by (auto simp: has_bits_def bit_eq_iff bit_and_iff bit_or_iff)

lemma has_bits_0 [simp]: "\<not> has_bits 0 m"
  by (simp add: has_bits_def)

lemma has_bits_cleared: "\<not> has_bits (ev AND NOT m) m"
  by (auto simp: has_bits_def bit_eq_iff bit_and_iff bit_not_iff)

lemma read_or_write_nonzero:
  "ev OR kReadEvent \<noteq> 0" "ev OR kWriteEvent \<noteq> 0"
proof -
  have "has_bits (ev OR kReadEvent) kReadEvent" "has_bits (ev OR kWriteEvent) kWriteEvent"
    by (simp_all only: has_bits_or_left) (simp_all add: has_bits_def event_masks)
  then show "ev OR kReadEvent \<noteq> 0" "ev OR kWriteEvent \<noteq> 0" by auto
qed

section \<open>The callbacks a dispatch runs\<close>

text \<open>
  The handlers of a set of ready events, in the order in which they are called: the close
  handler when the peer hung up and nothing is left to read, then the error, read and write
  handlers.
\<close>

definition opt_list :: "'a option \<Rightarrow> 'a list" where
  "opt_list x = (case x of None \<Rightarrow> [] | Some y \<Rightarrow> [y])"

definition event_handlers :: "'cb channel_t \<Rightarrow> 'cb list" where
  "event_handlers ch =
     (let ev = ch_revents ch in
       (if has_bits ev EPOLLHUP \<and> \<not> has_bits ev EPOLLIN then opt_list (ch_closeCallback ch) else [])
     @ (if has_bits ev EPOLLERR then opt_list (ch_errorCallback ch) else [])
     @ (if has_bits ev EPOLLIN \<or> has_bits ev EPOLLPRI \<or> has_bits ev EPOLLRDHUP
        then opt_list (ch_readCallback ch) else [])
     @ (if has_bits ev EPOLLOUT then opt_list (ch_writeCallback ch) else []))"

text \<open>What a callback may not do while its channel is dispatched: change the ready events or
  the registered callbacks.\<close>

definition same_wiring :: "'cb channel_t \<Rightarrow> 'cb channel_t \<Rightarrow> bool" where
  "same_wiring ch ch' \<longleftrightarrow> ch_revents ch' = ch_revents ch \<and> ch_fd ch' = ch_fd ch
     \<and> ch_readCallback ch' = ch_readCallback ch \<and> ch_writeCallback ch' = ch_writeCallback ch
     \<and> ch_closeCallback ch' = ch_closeCallback ch \<and> ch_errorCallback ch' = ch_errorCallback ch"

lemma same_wiring_refl [simp]: "same_wiring ch ch"
  by (simp add: same_wiring_def)

lemma same_wiring_trans: "same_wiring a b \<Longrightarrow> same_wiring b c \<Longrightarrow> same_wiring a c"
  by (simp add: same_wiring_def)

lemma same_wiring_handling [simp]: "same_wiring ch (ch\<lparr>ch_eventHandling := b\<rparr>)"
  by (simp add: same_wiring_def)

lemma call_if_fold: "call_if call cb t s = fold_res (\<lambda>c. call c t) (opt_list cb) s"
  by (cases cb; cases "call (the cb) t s") (auto simp: call_if_def opt_list_def)

lemma bind_if_fold:
  "bind_res (if b then fold_res f xs s else Inr s) k = bind_res (fold_res f (if b then xs else []) s) k"
  by simp

lemma bind_fold_append:
  "bind_res (fold_res f (xs @ ys) s) k = bind_res (fold_res f xs s) (\<lambda>s. bind_res (fold_res f ys s) k)"
  by (simp add: fold_res_append bind_res_assoc)

lemma bind_same_wiring:
  assumes frame: "\<And>c t s s'. call c t s = Inr s' \<Longrightarrow> same_wiring (fst s) (fst s')"
    and "same_wiring ch (fst s)" and "cs = cs'"
    and eq: "\<And>s'. same_wiring ch (fst s') \<Longrightarrow> k s' = k' s'"
  shows "bind_res (fold_res (\<lambda>c. call c t) cs s) k = bind_res (fold_res (\<lambda>c. call c t) cs' s) k'"
proof -
  have "same_wiring ch (fst s')" if "fold_res (\<lambda>c. call c t) cs s = Inr s'" for s'
    using that assms(2)
  proof (induction cs arbitrary: s)
    case Nil
    then show ?case by simp
  next
    case (Cons c cs)
    then obtain u where "call c t s = Inr u" "fold_res (\<lambda>c. call c t) cs u = Inr s'"
      by (auto elim: bind_resE)
    then show ?case using Cons.IH [of u] Cons.prems frame same_wiring_trans by blast
  qed
  with \<open>cs = cs'\<close> show ?thesis using eq by (cases "fold_res (\<lambda>c. call c t) cs s") auto
qed

text \<open>
  C29. Handling an event runs exactly the handlers of the ready events, each at most once, in
  the order close, error, read, write, between setting and clearing the handling mark; a tied
  channel whose object is gone runs none. (The callbacks may change anything but the ready
  events and the registered callbacks of the channel.)
\<close>

theorem handleEvent_dispatch:
  assumes frame: "\<And>c t s s'. call c t s = Inr s' \<Longrightarrow> same_wiring (fst s) (fst s')"
  shows "Channel_handleEvent alive call t (ch, w) =
    (if ch_tied ch \<and> \<not> (\<exists>obj. ch_tie ch = Some obj \<and> alive obj) then Inr (ch, w)
     else bind_res (fold_res (\<lambda>c. call c t) (event_handlers ch) (ch\<lparr>ch_eventHandling := True\<rparr>, w))
       (\<lambda>s. Inr ((fst s)\<lparr>ch_eventHandling := False\<rparr>, snd s)))"
proof -
  have "Channel_handleEventWithGuard call t (ch, w) =
      bind_res (fold_res (\<lambda>c. call c t) (event_handlers ch) (ch\<lparr>ch_eventHandling := True\<rparr>, w))
       (\<lambda>s. Inr ((fst s)\<lparr>ch_eventHandling := False\<rparr>, snd s))"
    unfolding Channel_handleEventWithGuard_def Let_def call_if_fold bind_if_fold
      event_handlers_def bind_fold_append has_bits_or fst_conv snd_conv
    by (intro bind_same_wiring [where ch = ch and call = call and t = t] frame)
      (simp_all add: same_wiring_def)
  then show ?thesis by (auto simp: Channel_handleEvent_def split: option.split)
qed

theorem handleEvent_dispatch_witness:
  "Channel_handleEvent (\<lambda>_. True) (\<lambda>c t s. Inr (fst s, snd s @ [c])) 5
     ((Channel_new 1 3)\<lparr>ch_revents := EPOLLIN OR EPOLLOUT OR EPOLLERR, ch_readCallback := Some ''read'',
        ch_writeCallback := Some ''write'', ch_closeCallback := Some ''close'',
        ch_errorCallback := Some ''error''\<rparr>, []) =
   Inr ((Channel_new 1 3)\<lparr>ch_revents := EPOLLIN OR EPOLLOUT OR EPOLLERR, ch_readCallback := Some ''read'',
        ch_writeCallback := Some ''write'', ch_closeCallback := Some ''close'',
        ch_errorCallback := Some ''error''\<rparr>, [''error'', ''read'', ''write''])"
  by (subst handleEvent_dispatch)
    (auto simp: Channel_new_def event_handlers_def has_bits_def epoll_bits opt_list_def)

end
