(* ===== verification/Std_Containers.thy ===== *)
theory Std_Containers
  imports Prelude
begin

text \<open>
  The two ordered containers of the standard library the sources use. A \<open>std::map\<close> is an
  association list whose keys increase strictly (iteration visits them in that order, which
  the printed response headers show); a \<open>std::set\<close> is a strictly increasing list, so that
  \<open>begin()\<close> is its head. Each comes with the laws its clients rely on, as a locale
  interpreted on the model.
\<close>

section \<open>std::map\<close>

fun smap_put :: "'k::linorder \<Rightarrow> 'v \<Rightarrow> ('k \<times> 'v) list \<Rightarrow> ('k \<times> 'v) list" where
  "smap_put k v [] = [(k, v)]"
| "smap_put k v ((k', v') # m) =
     (if k < k' then (k, v) # (k', v') # m
      else if k = k' then (k, v) # m
      else (k', v') # smap_put k v m)"

definition smap_get :: "('k::linorder \<times> 'v) list \<Rightarrow> 'k \<Rightarrow> 'v option" where
  "smap_get m k = map_of m k"

definition smap_erase :: "'k::linorder \<Rightarrow> ('k \<times> 'v) list \<Rightarrow> ('k \<times> 'v) list" where
  "smap_erase k m = filter (\<lambda>(k', v'). k' \<noteq> k) m"

definition smap_inv :: "('k::linorder \<times> 'v) list \<Rightarrow> bool" where
  "smap_inv m \<longleftrightarrow> sorted_wrt (<) (map fst m)"

locale keyed_store =
  fixes inv :: "'m \<Rightarrow> bool"
    and look :: "'m \<Rightarrow> 'k \<Rightarrow> 'v option"
    and put :: "'k \<Rightarrow> 'v \<Rightarrow> 'm \<Rightarrow> 'm"
    and erase :: "'k \<Rightarrow> 'm \<Rightarrow> 'm"
  assumes look_put: "inv m \<Longrightarrow> look (put k v m) = (look m)(k \<mapsto> v)"
    and look_erase: "inv m \<Longrightarrow> look (erase k m) = (look m)(k := None)"
    and inv_put: "inv m \<Longrightarrow> inv (put k v m)"
    and inv_erase: "inv m \<Longrightarrow> inv (erase k m)"
begin

lemma inv_puts: "inv m \<Longrightarrow> inv (fold (\<lambda>(k, v). put k v) kvs m)"
  by (induction kvs arbitrary: m) (auto intro: inv_put)

text \<open>Storing a list of bindings one after the other: the last one for a key wins.\<close>

lemma look_puts:
  "inv m \<Longrightarrow> look (fold (\<lambda>(k, v). put k v) kvs m) = look m ++ map_of (rev kvs)"
proof (induction kvs arbitrary: m)
  case Nil
  then show ?case by simp
next
  case (Cons kv kvs)
  obtain k v where "kv = (k, v)" by (cases kv)
  with Cons show ?case by (simp add: inv_put look_put map_add_def fun_eq_iff split: option.splits)
qed

lemma erase_put_other: "inv m \<Longrightarrow> k \<noteq> k' \<Longrightarrow> look (erase k (put k' v m)) k' = Some v"
  by (simp add: look_erase look_put inv_put)

end

lemma smap_put_keys: "fst ` set (smap_put k v m) = insert k (fst ` set m)"
  by (induction k v m rule: smap_put.induct) (simp_all add: insert_commute)

lemma smap_inv_Cons: "smap_inv ((k, v) # m) \<longleftrightarrow> (\<forall>k'\<in>fst ` set m. k < k') \<and> smap_inv m"
  by (auto simp: smap_inv_def)

lemma smap_inv_Nil [simp]: "smap_inv []"
  by (simp add: smap_inv_def)

lemma smap_get_Nil [simp]: "smap_get [] = Map.empty"
  by (simp add: smap_get_def fun_eq_iff)

lemma list_all_smap_put: "P (k, v) \<Longrightarrow> list_all P m \<Longrightarrow> list_all P (smap_put k v m)"
  by (induction k v m rule: smap_put.induct) auto

lemma smap_inv_put: "smap_inv m \<Longrightarrow> smap_inv (smap_put k v m)"
proof (induction m)
  case Nil
  then show ?case by (simp add: smap_inv_def)
next
  case (Cons x m)
  then show ?case
    by (cases x) (auto simp: smap_inv_Cons smap_put_keys dest: order.strict_trans)
qed

lemma smap_get_put: "smap_inv m \<Longrightarrow> smap_get (smap_put k v m) = (smap_get m)(k \<mapsto> v)"
proof (induction m)
  case Nil
  then show ?case by (simp add: smap_get_def)
next
  case (Cons x m)
  then show ?case
    by (cases x) (auto simp: smap_inv_Cons smap_get_def fun_eq_iff)
qed

lemma smap_get_erase: "smap_get (smap_erase k m) = (smap_get m)(k := None)"
  by (induction m) (auto simp: smap_erase_def smap_get_def fun_eq_iff)

lemma smap_inv_erase: "smap_inv m \<Longrightarrow> smap_inv (smap_erase k m)"
proof (induction m)
  case Nil
  then show ?case by (simp add: smap_erase_def)
next
  case (Cons x m)
  then show ?case by (cases x) (auto simp: smap_inv_Cons smap_erase_def)
qed

interpretation smap: keyed_store smap_inv smap_get smap_put smap_erase
  by unfold_locales (simp_all add: smap_get_put smap_get_erase smap_inv_put smap_inv_erase)

lemma smap_put_new_length: "smap_get m k = None \<Longrightarrow> length (smap_put k v m) = Suc (length m)"
  by (induction k v m rule: smap_put.induct) (auto simp: smap_get_def split: if_splits)

lemma smap_erase_absent: "smap_get m k = None \<Longrightarrow> smap_erase k m = m"
  by (induction m) (auto simp: smap_erase_def smap_get_def split: if_splits)

lemma smap_erase_present_length:
  "smap_inv m \<Longrightarrow> smap_get m k \<noteq> None \<Longrightarrow> Suc (length (smap_erase k m)) = length m"
proof (induction m)
  case Nil
  then show ?case by simp
next
  case (Cons x m)
  obtain k' v' where x: "x = (k', v')" by (cases x)
  show ?case
  proof (cases "k' = k")
    case True
    then have "smap_get m k = None"
      using Cons.prems(1) x by (force simp: smap_inv_Cons smap_get_def map_of_eq_None_iff)
    with True x smap_erase_absent [OF this] show ?thesis by (simp add: smap_erase_def)
  next
    case False
    with Cons x show ?thesis by (simp add: smap_inv_Cons smap_erase_def smap_get_def)
  qed
qed

text \<open>\<open>m.erase(k)\<close> returns the number of elements removed.\<close>

definition smap_count :: "('k::linorder \<times> 'v) list \<Rightarrow> 'k \<Rightarrow> nat" where
  "smap_count m k = (if smap_get m k = None then 0 else 1)"

section \<open>std::set\<close>

fun sset_insert :: "'a::linorder \<Rightarrow> 'a list \<Rightarrow> 'a list" where
  "sset_insert x [] = [x]"
| "sset_insert x (y # ys) =
     (if x < y then x # y # ys else if x = y then y # ys else y # sset_insert x ys)"

definition sset_erase :: "'a::linorder \<Rightarrow> 'a list \<Rightarrow> 'a list" where
  "sset_erase x s = filter (\<lambda>y. y \<noteq> x) s"

definition sset_member :: "'a::linorder list \<Rightarrow> 'a \<Rightarrow> bool" where
  "sset_member s x \<longleftrightarrow> x \<in> set s"

definition sset_inv :: "'a::linorder list \<Rightarrow> bool" where
  "sset_inv s \<longleftrightarrow> sorted_wrt (<) s"

locale ordered_set =
  fixes inv :: "'s \<Rightarrow> bool"
    and elems :: "'s \<Rightarrow> 'a set"
    and ins :: "'a \<Rightarrow> 's \<Rightarrow> 's"
    and del :: "'a \<Rightarrow> 's \<Rightarrow> 's"
    and sz :: "'s \<Rightarrow> nat"
  assumes elems_ins: "inv s \<Longrightarrow> elems (ins x s) = insert x (elems s)"
    and elems_del: "inv s \<Longrightarrow> elems (del x s) = elems s - {x}"
    and inv_ins: "inv s \<Longrightarrow> inv (ins x s)"
    and inv_del: "inv s \<Longrightarrow> inv (del x s)"
    and size_card: "inv s \<Longrightarrow> sz s = card (elems s)"
    and finite_elems: "finite (elems s)"
begin

lemma size_ins_new: "inv s \<Longrightarrow> x \<notin> elems s \<Longrightarrow> sz (ins x s) = Suc (sz s)"
  by (simp add: size_card inv_ins elems_ins finite_elems)

lemma size_del_old: "inv s \<Longrightarrow> x \<in> elems s \<Longrightarrow> Suc (sz (del x s)) = sz s"
  by (simp only: size_card inv_del elems_del card_Suc_Diff1 finite_elems)

end

lemma set_sset_insert [simp]: "set (sset_insert x s) = insert x (set s)"
  by (induction s) auto

lemma set_sset_erase [simp]: "set (sset_erase x s) = set s - {x}"
  by (auto simp: sset_erase_def)

lemma sset_inv_Nil [simp]: "sset_inv []"
  by (simp add: sset_inv_def)

lemma sset_inv_Cons: "sset_inv (x # s) \<longleftrightarrow> (\<forall>y\<in>set s. x < y) \<and> sset_inv s"
  by (simp add: sset_inv_def)

lemma sset_inv_insert [simp]: "sset_inv s \<Longrightarrow> sset_inv (sset_insert x s)"
  by (induction s) (auto simp: sset_inv_Cons dest: order.strict_trans)

lemma sset_inv_erase [simp]: "sset_inv s \<Longrightarrow> sset_inv (sset_erase x s)"
  by (simp add: sset_inv_def sset_erase_def sorted_wrt_filter)

lemma sset_inv_distinct: "sset_inv s \<Longrightarrow> distinct s"
  by (simp add: sset_inv_def strict_sorted_iff)

interpretation sset: ordered_set sset_inv set sset_insert sset_erase length
  by unfold_locales (auto simp: distinct_card sset_inv_distinct)

lemma sset_inv_append:
  "sset_inv (xs @ ys) \<longleftrightarrow> sset_inv xs \<and> sset_inv ys \<and> (\<forall>x\<in>set xs. \<forall>y\<in>set ys. x < y)"
  by (auto simp: sset_inv_def sorted_wrt_append)

text \<open>The first element of a set is its least one.\<close>

lemma sset_hd_least: "sset_inv s \<Longrightarrow> x \<in> set s \<Longrightarrow> hd s \<le> x"
  by (cases s) (auto simp: sset_inv_Cons less_imp_le)

lemma sset_insert_hd:
  "sset_inv s \<Longrightarrow> s = [] \<or> x < hd s \<Longrightarrow> sset_insert x s = x # s"
  by (cases s) auto

end
