(* ===== verification/Epoll.thy ===== *)
theory Epoll
  imports Channel Std_Containers
begin

text \<open>
  \<open>net/Epoll.h\<close>, \<open>net/Epoll.cpp\<close> and the channel operations that reach the poller. A
  \<open>Channel*\<close> is an address; \<open>ep_ctl\<close> is the list of \<open>epoll_ctl\<close> calls made so far, in
  order, and the answers of \<open>epoll_wait\<close> are parameters. \<open>interest\<close> and \<open>legal_ctl\<close>
  read the calls the way epoll_ctl(2) documents them: which descriptors are watched after
  them, and whether one of them would be answered by EEXIST or ENOENT.
\<close>

unbundle bit_operations_syntax

section \<open>State\<close>

datatype ctl_op = EPOLL_CTL_ADD | EPOLL_CTL_DEL | EPOLL_CTL_MOD

type_synonym ctl = "ctl_op \<times> int \<times> 32 word \<times> nat"

record epoll_t =
  ep_eventsSize :: nat
  ep_channels :: "(int \<times> nat) list"
  ep_ctl :: "ctl list"

definition kNew :: int where "kNew = -1"
definition kAdded :: int where "kAdded = 1"
definition kDeleted :: int where "kDeleted = 2"

definition kInitEventListSize :: nat where
  "kInitEventListSize = 16"

definition Epoll_new :: epoll_t where
  "Epoll_new = \<lparr>ep_eventsSize = kInitEventListSize, ep_channels = [], ep_ctl = []\<rparr>"

section \<open>Registering channels\<close>

definition Epoll_update :: "ctl_op \<Rightarrow> nat \<Rightarrow> 'cb channel_t \<Rightarrow> epoll_t \<Rightarrow> epoll_t" where
  "Epoll_update operation this ch ep =
     ep\<lparr>ep_ctl := ep_ctl ep @ [(operation, ch_fd ch, ch_events ch, this)]\<rparr>"

definition Epoll_operationToString :: "ctl_op \<Rightarrow> string" where
  "Epoll_operationToString operation =
     (case operation of
        EPOLL_CTL_ADD \<Rightarrow> ''epoll add''
      | EPOLL_CTL_DEL \<Rightarrow> ''epoll delete''
      | EPOLL_CTL_MOD \<Rightarrow> ''epoll modify'')"

definition Epoll_updateChannel ::
  "nat \<Rightarrow> 'cb channel_t \<times> epoll_t \<Rightarrow> ('cb channel_t \<times> epoll_t) res" where
  "Epoll_updateChannel this s =
     (let ch = fst s; ep = snd s; status = ch_statusInEpoll ch; fd = ch_fd ch in
      if status = kNew \<or> status = kDeleted
      then bind_res
        (if status = kNew
         then cpp_assert (smap_get (ep_channels ep) fd = None)
                (Inr (ep\<lparr>ep_channels := smap_put fd this (ep_channels ep)\<rparr>))
         else cpp_assert (smap_get (ep_channels ep) fd \<noteq> None)
                (cpp_assert (smap_get (ep_channels ep) fd = Some this) (Inr ep)))
        (\<lambda>ep'. let ch' = Channel_setStatusInEpoll kAdded ch in
               Inr (ch', Epoll_update EPOLL_CTL_ADD this ch' ep'))
      else cpp_assert (smap_get (ep_channels ep) fd \<noteq> None)
        (cpp_assert (smap_get (ep_channels ep) fd = Some this)
          (cpp_assert (status = kAdded)
            (if Channel_isNoneEvent ch
             then Inr (Channel_setStatusInEpoll kDeleted ch, Epoll_update EPOLL_CTL_DEL this ch ep)
             else Inr (ch, Epoll_update EPOLL_CTL_MOD this ch ep)))))"

definition Epoll_removeChannel ::
  "nat \<Rightarrow> 'cb channel_t \<times> epoll_t \<Rightarrow> ('cb channel_t \<times> epoll_t) res" where
  "Epoll_removeChannel this s =
     (let ch = fst s; ep = snd s; fd = ch_fd ch;
          ep1 = ep\<lparr>ep_channels := smap_erase fd (ep_channels ep)\<rparr>;
          ep2 = (if ch_statusInEpoll ch = kAdded then Epoll_update EPOLL_CTL_DEL this ch ep1 else ep1)
      in Inr (Channel_setStatusInEpoll kNew ch, ep2))"

definition Epoll_hasChannel :: "nat \<Rightarrow> 'cb channel_t \<times> epoll_t \<Rightarrow> bool" where
  "Epoll_hasChannel this s \<longleftrightarrow> smap_get (ep_channels (snd s)) (ch_fd (fst s)) = Some this"

text \<open>The forwarding members of the event loop at address \<open>loop\<close>.\<close>

definition EventLoop_updateChannel ::
  "nat \<Rightarrow> nat \<Rightarrow> 'cb channel_t \<times> epoll_t \<Rightarrow> ('cb channel_t \<times> epoll_t) res" where
  "EventLoop_updateChannel loop this s =
     cpp_assert (ch_loop (fst s) = loop) (Epoll_updateChannel this s)"

definition EventLoop_removeChannel ::
  "nat \<Rightarrow> nat \<Rightarrow> 'cb channel_t \<times> epoll_t \<Rightarrow> ('cb channel_t \<times> epoll_t) res" where
  "EventLoop_removeChannel loop this s =
     cpp_assert (ch_loop (fst s) = loop) (Epoll_removeChannel this s)"

definition EventLoop_hasChannel :: "nat \<Rightarrow> nat \<Rightarrow> 'cb channel_t \<times> epoll_t \<Rightarrow> bool res" where
  "EventLoop_hasChannel loop this s =
     cpp_assert (ch_loop (fst s) = loop) (Inr (Epoll_hasChannel this s))"

definition Channel_update ::
  "nat \<Rightarrow> 'cb channel_t \<times> epoll_t \<Rightarrow> ('cb channel_t \<times> epoll_t) res" where
  "Channel_update this s =
     EventLoop_updateChannel (ch_loop (fst s)) this ((fst s)\<lparr>ch_addedToLoop := True\<rparr>, snd s)"

definition Channel_enableReading ::
  "nat \<Rightarrow> 'cb channel_t \<times> epoll_t \<Rightarrow> ('cb channel_t \<times> epoll_t) res" where
  "Channel_enableReading this s =
     Channel_update this ((fst s)\<lparr>ch_events := ch_events (fst s) OR kReadEvent\<rparr>, snd s)"

definition Channel_enableWriting ::
  "nat \<Rightarrow> 'cb channel_t \<times> epoll_t \<Rightarrow> ('cb channel_t \<times> epoll_t) res" where
  "Channel_enableWriting this s =
     Channel_update this ((fst s)\<lparr>ch_events := ch_events (fst s) OR kWriteEvent\<rparr>, snd s)"

definition Channel_disableWriting ::
  "nat \<Rightarrow> 'cb channel_t \<times> epoll_t \<Rightarrow> ('cb channel_t \<times> epoll_t) res" where
  "Channel_disableWriting this s =
     Channel_update this ((fst s)\<lparr>ch_events := ch_events (fst s) AND NOT kWriteEvent\<rparr>, snd s)"

definition Channel_disableAll ::
  "nat \<Rightarrow> 'cb channel_t \<times> epoll_t \<Rightarrow> ('cb channel_t \<times> epoll_t) res" where
  "Channel_disableAll this s = Channel_update this ((fst s)\<lparr>ch_events := kNoneEvent\<rparr>, snd s)"

definition Channel_remove ::
  "nat \<Rightarrow> 'cb channel_t \<times> epoll_t \<Rightarrow> ('cb channel_t \<times> epoll_t) res" where
  "Channel_remove this s =
     cpp_assert (Channel_isNoneEvent (fst s))
       (EventLoop_removeChannel (ch_loop (fst s)) this
          ((fst s)\<lparr>ch_addedToLoop := False\<rparr>, snd s))"

section \<open>Polling\<close>

text \<open>
  The channels a poller may reach, by address. A dangling pointer in an event is a fault.
  \<open>epoll_wait\<close> answers with the ready events, or with an error.
\<close>

type_synonym 'cb chan_heap = "nat \<Rightarrow> 'cb channel_t option"

primrec fill_loop ::
  "(32 word \<times> nat) list \<Rightarrow> 'cb chan_heap \<Rightarrow> nat list \<Rightarrow> ('cb chan_heap \<times> nat list) res" where
  "fill_loop [] h active = Inr (h, active)"
| "fill_loop (e # es) h active =
     (case h (snd e) of
        None \<Rightarrow> Inl OutOfBounds
      | Some ch \<Rightarrow>
          fill_loop es (h(snd e \<mapsto> Channel_setRevents (fst e) ch)) (active @ [snd e]))"

definition Epoll_fillActiveChannels ::
  "(32 word \<times> nat) list \<Rightarrow> epoll_t \<Rightarrow> 'cb chan_heap \<Rightarrow> nat list \<Rightarrow> ('cb chan_heap \<times> nat list) res" where
  "Epoll_fillActiveChannels events ep h active =
     cpp_assert (length events \<le> ep_eventsSize ep) (fill_loop events h active)"

text \<open>\<open>vector<epoll_event>::max_size()\<close> for the packed 12-byte structure.\<close>

definition event_vec_max :: nat where
  "event_vec_max = (2 ^ 63 - 1) div 12"

definition Epoll_poll ::
  "(32 word \<times> nat) list option \<Rightarrow> epoll_t \<times> 'cb chan_heap \<Rightarrow> nat list
     \<Rightarrow> ((epoll_t \<times> 'cb chan_heap) \<times> nat list) res" where
  "Epoll_poll answer s active =
     (case answer of
        None \<Rightarrow> Inr (s, active)
      | Some events \<Rightarrow>
          (if 0 < length events
           then bind_res (Epoll_fillActiveChannels events (fst s) (snd s) active) (\<lambda>r.
             if length events = ep_eventsSize (fst s)
             then if ep_eventsSize (fst s) * 2 \<le> event_vec_max
                  then Inr (((fst s)\<lparr>ep_eventsSize := ep_eventsSize (fst s) * 2\<rparr>, fst r), snd r)
                  else Inl LengthError
             else Inr ((fst s, fst r), snd r))
           else Inr (s, active)))"

section \<open>What the calls of epoll_ctl amount to\<close>

definition ctl_effect :: "(int \<Rightarrow> (32 word \<times> nat) option) \<Rightarrow> ctl \<Rightarrow> int \<Rightarrow> (32 word \<times> nat) option" where
  "ctl_effect m c = (case c of (operation, fd, ev, p) \<Rightarrow>
     (if operation = EPOLL_CTL_DEL then m(fd := None) else m(fd \<mapsto> (ev, p))))"

definition ctl_ok :: "(int \<Rightarrow> (32 word \<times> nat) option) \<Rightarrow> ctl \<Rightarrow> bool" where
  "ctl_ok m c = (case c of (operation, fd, ev, p) \<Rightarrow>
     (if operation = EPOLL_CTL_ADD then m fd = None else m fd \<noteq> None))"

definition interest :: "ctl list \<Rightarrow> int \<Rightarrow> (32 word \<times> nat) option" where
  "interest cs = foldl ctl_effect (\<lambda>_. None) cs"

fun legal_from :: "(int \<Rightarrow> (32 word \<times> nat) option) \<Rightarrow> ctl list \<Rightarrow> bool" where
  "legal_from m [] \<longleftrightarrow> True"
| "legal_from m (c # cs) \<longleftrightarrow> ctl_ok m c \<and> legal_from (ctl_effect m c) cs"

definition legal_ctl :: "ctl list \<Rightarrow> bool" where
  "legal_ctl cs \<longleftrightarrow> legal_from (\<lambda>_. None) cs"

lemma interest_Nil [simp]: "interest [] = (\<lambda>_. None)"
  by (simp add: interest_def)

lemma interest_snoc [simp]: "interest (cs @ [c]) = ctl_effect (interest cs) c"
  by (simp add: interest_def)

lemma legal_from_snoc:
  "legal_from m (cs @ [c]) \<longleftrightarrow> legal_from m cs \<and> ctl_ok (foldl ctl_effect m cs) c"
  by (induction cs arbitrary: m) auto

lemma legal_ctl_snoc [simp]: "legal_ctl (cs @ [c]) \<longleftrightarrow> legal_ctl cs \<and> ctl_ok (interest cs) c"
  by (simp add: legal_ctl_def interest_def legal_from_snoc)

section \<open>Agreement of the three records of a registration\<close>

text \<open>
  A channel's status, the poller's map and the kernel's interest list say the same thing about
  it: \<open>kNew\<close> is in neither, \<open>kAdded\<close> in both, \<open>kDeleted\<close> in the map only.
\<close>

definition registered_as ::
  "int \<Rightarrow> nat \<Rightarrow> nat option \<Rightarrow> (32 word \<times> nat) option \<Rightarrow> bool" where
  "registered_as status this entry watch \<longleftrightarrow>
     (status = kNew \<and> entry = None \<and> watch = None)
   \<or> (status = kAdded \<and> entry = Some this \<and> (\<exists>ev. watch = Some (ev, this)))
   \<or> (status = kDeleted \<and> entry = Some this \<and> watch = None)"

definition Epoll_inv :: "epoll_t \<Rightarrow> bool" where
  "Epoll_inv ep \<longleftrightarrow> smap_inv (ep_channels ep) \<and> legal_ctl (ep_ctl ep)"

definition poller_entry :: "epoll_t \<Rightarrow> int \<Rightarrow> nat option \<times> (32 word \<times> nat) option" where
  "poller_entry ep fd = (smap_get (ep_channels ep) fd, interest (ep_ctl ep) fd)"

definition chan_synced :: "nat \<Rightarrow> 'cb channel_t \<Rightarrow> epoll_t \<Rightarrow> bool" where
  "chan_synced this ch ep \<longleftrightarrow> Epoll_inv ep
     \<and> registered_as (ch_statusInEpoll ch) this
          (fst (poller_entry ep (ch_fd ch))) (snd (poller_entry ep (ch_fd ch)))"

lemmas status_defs = kNew_def kAdded_def kDeleted_def
lemmas synced_defs = chan_synced_def registered_as_def Epoll_inv_def poller_entry_def

lemma Epoll_new_inv: "Epoll_inv Epoll_new"
  by (simp add: Epoll_inv_def Epoll_new_def smap_inv_def legal_ctl_def)

lemma Channel_new_synced:
  "Epoll_inv ep \<Longrightarrow> poller_entry ep fd = (None, None) \<Longrightarrow> chan_synced this (Channel_new loop fd) ep"
  by (simp add: chan_synced_def registered_as_def Channel_new_def status_defs)

text \<open>The outcome of an update, in every status the channel may have.\<close>

definition update_result :: "nat \<Rightarrow> 'cb channel_t \<Rightarrow> epoll_t \<Rightarrow> 'cb channel_t \<times> epoll_t" where
  "update_result this ch ep =
     (let status = ch_statusInEpoll ch in
      if status = kAdded
      then if Channel_isNoneEvent ch
           then (ch\<lparr>ch_statusInEpoll := kDeleted\<rparr>, Epoll_update EPOLL_CTL_DEL this ch ep)
           else (ch, Epoll_update EPOLL_CTL_MOD this ch ep)
      else (ch\<lparr>ch_statusInEpoll := kAdded\<rparr>,
            Epoll_update EPOLL_CTL_ADD this ch
              (if status = kNew then ep\<lparr>ep_channels := smap_put (ch_fd ch) this (ep_channels ep)\<rparr>
               else ep)))"

lemma Epoll_updateChannel_eq:
  "chan_synced this ch ep \<Longrightarrow> Epoll_updateChannel this (ch, ep) = Inr (update_result this ch ep)"
  by (auto simp: Epoll_updateChannel_def update_result_def synced_defs Let_def status_defs
      Channel_setStatusInEpoll_def Epoll_update_def)

lemma chan_synced_fields [simp]:
  "chan_synced this (ch\<lparr>ch_addedToLoop := a\<rparr>) ep = chan_synced this ch ep"
  "chan_synced this (ch\<lparr>ch_events := ev\<rparr>) ep = chan_synced this ch ep"
  "chan_synced this (ch\<lparr>ch_revents := ev\<rparr>) ep = chan_synced this ch ep"
  "chan_synced this (ch\<lparr>ch_eventHandling := b\<rparr>) ep = chan_synced this ch ep"
  by (simp_all add: chan_synced_def)

lemma Channel_update_eq:
  "chan_synced this ch ep \<Longrightarrow>
   Channel_update this (ch, ep) = Inr (update_result this (ch\<lparr>ch_addedToLoop := True\<rparr>) ep)"
  by (simp add: Channel_update_def EventLoop_updateChannel_def Epoll_updateChannel_eq)

lemma update_result_synced:
  assumes "chan_synced this ch ep"
  shows "chan_synced this (fst (update_result this ch ep)) (snd (update_result this ch ep))"
proof -
  have inv: "smap_inv (ep_channels ep)" using assms by (simp add: synced_defs)
  note put = smap.inv_put [OF inv] smap.look_put [OF inv]
  from assms show ?thesis
    by (auto simp: update_result_def synced_defs Let_def status_defs Epoll_update_def ctl_effect_def
        ctl_ok_def put split: if_splits)
qed

lemma update_result_frame:
  assumes "Epoll_inv ep" and "fd \<noteq> ch_fd ch"
  shows "poller_entry (snd (update_result this ch ep)) fd = poller_entry ep fd"
proof -
  have inv: "smap_inv (ep_channels ep)" using assms by (simp add: synced_defs)
  from assms(2) show ?thesis
    by (auto simp: update_result_def poller_entry_def Let_def Epoll_update_def ctl_effect_def
        smap.look_put [OF inv])
qed

lemma update_result_fields [simp]:
  "ch_fd (fst (update_result this ch ep)) = ch_fd ch"
  "ch_events (fst (update_result this ch ep)) = ch_events ch"
  "ch_revents (fst (update_result this ch ep)) = ch_revents ch"
  "ch_loop (fst (update_result this ch ep)) = ch_loop ch"
  by (simp_all add: update_result_def Let_def)

lemma removeChannel_synced:
  assumes "chan_synced this ch ep"
  shows "returns (Epoll_removeChannel this (ch, ep)) (\<lambda>s. chan_synced this (fst s) (snd s)
    \<and> ch_fd (fst s) = ch_fd ch \<and> ch_loop (fst s) = ch_loop ch
    \<and> (\<forall>fd. poller_entry (snd s) fd = (if fd = ch_fd ch then (None, None) else poller_entry ep fd)))"
proof -
  have inv: "smap_inv (ep_channels ep)" using assms by (simp add: synced_defs)
  from assms show ?thesis
    by (auto simp: Epoll_removeChannel_def synced_defs Let_def status_defs Epoll_update_def ctl_effect_def
        ctl_ok_def Channel_setStatusInEpoll_def smap.inv_erase [OF inv] smap_get_erase)
qed

section \<open>Many channels in one poller\<close>

text \<open>
  A registry serves the operations on one client at a time, keeps what it promises to that
  client and does not disturb the clients under other keys.
\<close>

locale channel_registry =
  fixes good :: "nat \<Rightarrow> 'c \<Rightarrow> 'p \<Rightarrow> bool"
    and key :: "'c \<Rightarrow> 'k"
    and serve :: "'o \<Rightarrow> nat \<Rightarrow> 'c \<times> 'p \<Rightarrow> ('c \<times> 'p) res"
  assumes serve_ok: "good a c p \<Longrightarrow>
      returns (serve r a (c, p)) (\<lambda>s. good a (fst s) (snd s) \<and> key (fst s) = key c)"
    and serve_frame: "good a c p \<Longrightarrow> serve r a (c, p) = Inr s \<Longrightarrow> good b d p \<Longrightarrow> key d \<noteq> key c
      \<Longrightarrow> good b d (snd s)"

definition heap_serve ::
  "('o \<Rightarrow> nat \<Rightarrow> 'c \<times> 'p \<Rightarrow> ('c \<times> 'p) res) \<Rightarrow> nat \<times> 'o \<Rightarrow> (nat \<Rightarrow> 'c option) \<times> 'p
     \<Rightarrow> ((nat \<Rightarrow> 'c option) \<times> 'p) res" where
  "heap_serve srv r s =
     (case fst s (fst r) of
        None \<Rightarrow> Inl OutOfBounds
      | Some c \<Rightarrow> bind_res (srv (snd r) (fst r) (c, snd s)) (\<lambda>t. Inr ((fst s)(fst r \<mapsto> fst t), snd t)))"

definition heap_good ::
  "(nat \<Rightarrow> 'c \<Rightarrow> 'p \<Rightarrow> bool) \<Rightarrow> ('c \<Rightarrow> 'k) \<Rightarrow> (nat \<Rightarrow> 'c option) \<times> 'p \<Rightarrow> bool" where
  "heap_good good key s \<longleftrightarrow> (\<forall>a c. fst s a = Some c \<longrightarrow> good a c (snd s))
     \<and> (\<forall>a b c d. fst s a = Some c \<longrightarrow> fst s b = Some d \<longrightarrow> key c = key d \<longrightarrow> a = b)"

context channel_registry
begin

lemma heap_step:
  assumes "heap_good good key s" and "dom (fst s) = D" and "fst r \<in> D"
  shows "returns (heap_serve serve r s) (\<lambda>s'. heap_good good key s' \<and> dom (fst s') = D)"
proof -
  from assms obtain c where c: "fst s (fst r) = Some c" by auto
  with assms have g: "good (fst r) c (snd s)" by (auto simp: heap_good_def)
  from serve_ok [OF g, of "snd r"] obtain t where
    t: "serve (snd r) (fst r) (c, snd s) = Inr t" "good (fst r) (fst t) (snd t)" "key (fst t) = key c"
    by (auto elim: returnsE)
  have "good b d (snd t)" if "fst s b = Some d" "b \<noteq> fst r" for b d
    using that c assms(1) by (intro serve_frame [OF g t(1)]) (auto simp: heap_good_def)
  with t c assms show ?thesis
    by (auto simp: heap_serve_def heap_good_def)
qed

lemma heap_run:
  assumes "heap_good good key s" and "\<And>r. r \<in> set rs \<Longrightarrow> fst r \<in> dom (fst s)"
  shows "returns (fold_res (heap_serve serve) rs s)
           (\<lambda>s'. heap_good good key s' \<and> dom (fst s') = dom (fst s))"
  by (rule fold_res_invariant) (use assms in \<open>auto intro!: heap_step\<close>)

end

text \<open>What the owners of a channel and the poller do to it while it is alive.\<close>

datatype chan_op = EnableReading | EnableWriting | DisableWriting | DisableAll | Ready "32 word"

fun chan_serve ::
  "chan_op \<Rightarrow> nat \<Rightarrow> 'cb channel_t \<times> epoll_t \<Rightarrow> ('cb channel_t \<times> epoll_t) res" where
  "chan_serve EnableReading this s = Channel_enableReading this s"
| "chan_serve EnableWriting this s = Channel_enableWriting this s"
| "chan_serve DisableWriting this s = Channel_disableWriting this s"
| "chan_serve DisableAll this s = Channel_disableAll this s"
| "chan_serve (Ready ev) this s = Inr (Channel_setRevents ev (fst s), snd s)"

lemmas channel_ops = Channel_enableReading_def Channel_enableWriting_def
  Channel_disableWriting_def Channel_disableAll_def

lemma chan_serve_eq:
  assumes "chan_synced this ch ep"
  obtains (update) ev where
      "chan_serve r this (ch, ep) = Inr (update_result this (ch\<lparr>ch_events := ev, ch_addedToLoop := True\<rparr>) ep)"
  | (ready) ev where "chan_serve r this (ch, ep) = Inr (ch\<lparr>ch_revents := ev\<rparr>, ep)"
  using assms by (cases r) (auto simp: channel_ops Channel_update_eq Channel_setRevents_def)

interpretation reg: channel_registry chan_synced ch_fd chan_serve
proof
  fix a :: nat and ch :: "'cb channel_t" and ep r
  assume good: "chan_synced a ch ep"
  then show "returns (chan_serve r a (ch, ep)) (\<lambda>s. chan_synced a (fst s) (snd s) \<and> ch_fd (fst s) = ch_fd ch)"
    by (cases rule: chan_serve_eq [OF good, of r]) (auto intro!: update_result_synced)
  fix b d s
  assume "chan_serve r a (ch, ep) = Inr s" "chan_synced b d ep" "ch_fd d \<noteq> ch_fd ch"
  moreover have "Epoll_inv (snd (update_result a (ch\<lparr>ch_events := ev, ch_addedToLoop := True\<rparr>) ep))" for ev
    using update_result_synced [of a "ch\<lparr>ch_events := ev, ch_addedToLoop := True\<rparr>" ep] good
    by (simp add: chan_synced_def)
  ultimately show "chan_synced b d (snd s)"
    using good
    by (cases rule: chan_serve_eq [OF good, of r]) (auto simp: chan_synced_def update_result_frame)
qed

text \<open>
  C16. However the channels of a loop enable and disable their events and become ready, no call
  fails an assertion, every channel's status, the poller's map and the watched descriptors stay
  in agreement, and no \<open>epoll_ctl\<close> call adds a watched descriptor or modifies or deletes an
  unwatched one.
\<close>

theorem channels_stay_registered:
  assumes "heap_good chan_synced ch_fd (h, ep)" and "legal_ctl (ep_ctl ep)"
    and "\<And>r. r \<in> set rs \<Longrightarrow> fst r \<in> dom h"
  shows "returns (fold_res (heap_serve chan_serve) rs (h, ep))
    (\<lambda>(h', ep'). heap_good chan_synced ch_fd (h', ep') \<and> dom h' = dom h \<and> legal_ctl (ep_ctl ep'))"
proof (cases "dom h = {}")
  case True
  with assms(3) have "rs = []" by (metis all_not_in_conv list.set_intros(1) neq_Nil_conv)
  with assms show ?thesis by simp
next
  case False
  have legal: "legal_ctl (ep_ctl (snd s))" if "heap_good chan_synced ch_fd s" "dom (fst s) = dom h" for s
    using that False by (fastforce simp: heap_good_def synced_defs)
  show ?thesis
    by (rule returns_mono [OF reg.heap_run [where s = "(h, ep)", OF assms(1)]])
      (use assms(3) legal in \<open>auto simp: split_beta\<close>)
qed

lemma new_channels_good:
  "Epoll_inv ep \<Longrightarrow> poller_entry ep fd = (None, None) \<Longrightarrow>
   heap_good chan_synced ch_fd ([p \<mapsto> Channel_new loop fd], ep)"
  by (auto simp: heap_good_def Channel_new_synced)

theorem channels_stay_registered_witness:
  "returns (fold_res (heap_serve chan_serve)
      [(7, EnableReading), (7, Ready 1), (7, EnableWriting), (7, DisableAll), (7, EnableReading)]
      ([7 \<mapsto> Channel_new 1 3 :: nat channel_t], Epoll_new))
    (\<lambda>(h', ep'). heap_good chan_synced ch_fd (h', ep') \<and> dom h' = dom [7 \<mapsto> Channel_new 1 3 :: nat channel_t]
       \<and> legal_ctl (ep_ctl ep'))"
proof (rule channels_stay_registered)
  show "heap_good chan_synced ch_fd ([7 \<mapsto> Channel_new 1 3 :: nat channel_t], Epoll_new)"
    by (rule new_channels_good [OF Epoll_new_inv]) (simp add: poller_entry_def Epoll_new_def smap_get_def)
qed (auto simp: Epoll_new_def legal_ctl_def)

section \<open>Consequences of testing the ready events\<close>

text \<open>
  \<open>isNoneEvent\<close> looks at the ready events and not at the events the owner asked for. A channel
  that is watched and whose ready events are empty is therefore unregistered by any change.
\<close>

lemma watched_status: "chan_synced this ch ep \<Longrightarrow> ch_statusInEpoll ch = kAdded \<Longrightarrow>
    \<exists>ev. interest (ep_ctl ep) (ch_fd ch) = Some (ev, this)"
  by (auto simp: synced_defs status_defs)

text \<open>
  Enabling writing on a watched channel: if the channel has had no event since it was
  created the descriptor is taken out of the poller and its reads are lost as well; otherwise
  it is watched for what was asked.
\<close>

lemma enableWriting_effect:
  assumes "chan_synced this ch ep" and "ch_statusInEpoll ch = kAdded"
  shows "returns (Channel_enableWriting this (ch, ep)) (\<lambda>(ch', ep').
    ch_events ch' = ch_events ch OR kWriteEvent \<and> Channel_isWriting ch'
    \<and> (if ch_revents ch = 0
       then interest (ep_ctl ep') (ch_fd ch) = None \<and> ch_statusInEpoll ch' = kDeleted
       else interest (ep_ctl ep') (ch_fd ch) = Some (ch_events ch', this)
            \<and> ch_statusInEpoll ch' = kAdded))"
  using assms
  by (auto simp: channel_ops Channel_update_eq update_result_def Epoll_update_def ctl_effect_def
      Channel_isNoneEvent_def kNoneEvent_def Channel_isWriting_def has_bits_or_left status_defs
      split: if_splits)
    (simp_all add: has_bits_def event_masks)

text \<open>A channel just registered for reading, before its first event.\<close>

definition fresh_reader :: "nat channel_t \<times> epoll_t" where
  "fresh_reader = update_result 7 ((Channel_new 1 3)\<lparr>ch_events := kReadEvent, ch_addedToLoop := True\<rparr>) Epoll_new"

lemma fresh_reader_ok:
  "chan_synced 7 (fst fresh_reader) (snd fresh_reader)"
  "ch_statusInEpoll (fst fresh_reader) = kAdded"
  "ch_revents (fst fresh_reader) = 0" "ch_fd (fst fresh_reader) = 3"
proof -
  have "chan_synced 7 ((Channel_new 1 3 :: nat channel_t)\<lparr>ch_events := kReadEvent, ch_addedToLoop := True\<rparr>) Epoll_new"
    by (simp, rule Channel_new_synced [OF Epoll_new_inv])
      (simp add: poller_entry_def Epoll_new_def smap_get_def)
  then show "chan_synced 7 (fst fresh_reader) (snd fresh_reader)"
    unfolding fresh_reader_def by (rule update_result_synced)
qed (simp_all add: fresh_reader_def update_result_def Channel_new_def status_defs)

lemma enableWriting_effect_instance:
  "returns (Channel_enableWriting 7 fresh_reader) (\<lambda>(ch', ep').
     Channel_isWriting ch' \<and> interest (ep_ctl ep') 3 = None \<and> ch_statusInEpoll ch' = kDeleted)"
  by (rule returns_mono [OF enableWriting_effect [OF fresh_reader_ok(1,2), unfolded prod.collapse]])
    (auto simp: fresh_reader_ok)

text \<open>
  Disabling and removing a watched channel: after an event the descriptor stays in the
  poller with an empty mask and \<open>remove\<close> aborts on its assertion; only a channel that never
  had an event is unregistered and can be removed and destroyed.
\<close>

lemma disableAll_then_remove:
  assumes "chan_synced this ch ep" and "ch_statusInEpoll ch = kAdded"
  shows "returns (Channel_disableAll this (ch, ep)) (\<lambda>s.
    ch_events (fst s) = 0 \<and>
    (if ch_revents ch = 0
     then interest (ep_ctl (snd s)) (ch_fd ch) = None
        \<and> returns (Channel_remove this s) (\<lambda>(ch2, ep2). chan_synced this ch2 ep2
            \<and> ch_statusInEpoll ch2 = kNew \<and> ep_ctl ep2 = ep_ctl (snd s)
            \<and> (ch_eventHandling ch2 \<or> Channel_delete ch2 = Inr ()))
     else interest (ep_ctl (snd s)) (ch_fd ch) = Some (0, this)
        \<and> Channel_remove this s = Inl AssertFailed))"
proof -
  have inv: "smap_inv (ep_channels ep)" using assms by (simp add: synced_defs)
  note erase = smap.inv_erase [OF inv] smap.look_erase [OF inv]
  from assms show ?thesis
    by (auto simp: channel_ops Channel_update_eq update_result_def Epoll_update_def ctl_effect_def
      Channel_isNoneEvent_def kNoneEvent_def Channel_remove_def EventLoop_removeChannel_def
      Epoll_removeChannel_def Channel_setStatusInEpoll_def Channel_delete_def synced_defs ctl_ok_def
      status_defs erase)
qed

lemma disableAll_then_remove_instance:
  "returns (Channel_disableAll 7 ((fst fresh_reader)\<lparr>ch_revents := EPOLLIN\<rparr>, snd fresh_reader))
     (\<lambda>s. Channel_remove 7 s = Inl AssertFailed)"
  by (rule returns_mono [OF disableAll_then_remove])
    (use fresh_reader_ok in \<open>auto simp: EPOLLIN_def\<close>)

section \<open>Waiting for events\<close>

lemma fill_loop_ok:
  assumes "distinct (map snd es)" and "\<And>e. e \<in> set es \<Longrightarrow> h (snd e) \<noteq> None"
  shows "fill_loop es h active = Inr
    (\<lambda>p. (case map_of (map (\<lambda>e. (snd e, fst e)) es) p of
            None \<Rightarrow> h p | Some ev \<Rightarrow> map_option (Channel_setRevents ev) (h p)), active @ map snd es)"
  using assms
proof (induction es arbitrary: h active)
  case Nil
  then show ?case by simp
next
  case (Cons e es)
  obtain ch where ch: "h (snd e) = Some ch" using Cons.prems(2) [of e] by auto
  let ?h = "h(snd e \<mapsto> Channel_setRevents (fst e) ch)"
  have "fill_loop es ?h (active @ [snd e]) = Inr
    (\<lambda>p. (case map_of (map (\<lambda>e. (snd e, fst e)) es) p of
            None \<Rightarrow> ?h p | Some ev \<Rightarrow> map_option (Channel_setRevents ev) (?h p)),
      (active @ [snd e]) @ map snd es)"
    using Cons.prems by (intro Cons.IH) auto
  moreover have "map_of (map (\<lambda>e. (snd e, fst e)) es) (snd e) = None"
    using Cons.prems(1) by (simp add: map_of_eq_None_iff image_image)
  ultimately show ?case
    using ch by (auto simp: fun_eq_iff split: option.split)
qed

text \<open>
  One wait: when the kernel reports at most as many events as the list holds, each for a
  distinct live channel, the active channels are the reported ones in order, each with exactly
  its reported events, nothing else about a channel changes, and the list doubles exactly when
  it was filled.
\<close>

lemma poll_fills_active:
  assumes "length es \<le> ep_eventsSize ep" and "ep_eventsSize ep * 2 \<le> event_vec_max"
    and "distinct (map snd es)" and "\<forall>e\<in>set es. h (snd e) \<noteq> None"
  shows "returns (Epoll_poll (Some es) (ep, h) []) (\<lambda>((ep', h'), active).
      active = map snd es
    \<and> (\<forall>p. h' p = (case map_of (map (\<lambda>e. (snd e, fst e)) es) p of
            None \<Rightarrow> h p | Some ev \<Rightarrow> map_option (\<lambda>ch. ch\<lparr>ch_revents := ev\<rparr>) (h p)))
    \<and> ep_eventsSize ep' = (if es \<noteq> [] \<and> length es = ep_eventsSize ep then 2 else 1) * ep_eventsSize ep
    \<and> ep_channels ep' = ep_channels ep \<and> ep_ctl ep' = ep_ctl ep)"
  using assms fill_loop_ok [of es h "[]"]
  by (cases "es = []")
    (auto simp: Epoll_poll_def Epoll_fillActiveChannels_def Channel_setRevents_def [abs_def]
      split: option.split)

lemma poll_fills_active_instance:
  "returns (Epoll_poll (Some [(4, 7)]) (Epoll_new, [7 \<mapsto> Channel_new 1 3 :: nat channel_t]) [])
     (\<lambda>((ep', h'), active). active = [7] \<and> ep_eventsSize ep' = 16
        \<and> h' 7 = Some ((Channel_new 1 3)\<lparr>ch_revents := 4\<rparr>))"
  by (rule returns_mono [OF poll_fills_active])
    (auto simp: Epoll_new_def kInitEventListSize_def event_vec_max_def)

end
