(* ===== verification/Socket.thy ===== *)
theory Socket
  imports Epoll "HOL-Library.Multiset"
begin

text \<open>
  \<open>net/InternetAddress.cpp\<close> and \<open>net/Socket.cpp\<close>. System calls with
  no result the code uses are recorded in order; answers of the kernel are parameters. The host
  is little-endian, so a 16-bit integer in network order is the integer with its bytes swapped,
  and the address octets \<open>a.b.c.d\<close> are the bytes of \<open>s_addr\<close> from the lowest up.
\<close>

unbundle bit_operations_syntax

section \<open>InternetAddress\<close>

record sockaddr_in =
  sin_family :: nat
  sin_port :: "16 word"
  s_addr :: "32 word"

definition AF_INET :: nat where
  "AF_INET = 2"

definition zero_address :: sockaddr_in where
  "zero_address = \<lparr>sin_family = 0, sin_port = 0, s_addr = 0\<rparr>"

definition htobe16 :: "16 word \<Rightarrow> 16 word" where
  "htobe16 x = push_bit 8 x OR drop_bit 8 x"

definition be16toh :: "16 word \<Rightarrow> 16 word" where
  "be16toh x = htobe16 x"

definition InternetAddress_of_port :: "16 word \<Rightarrow> sockaddr_in" where
  "InternetAddress_of_port port =
     zero_address\<lparr>sin_family := AF_INET, s_addr := 0, sin_port := htobe16 port\<rparr>"

text \<open>\<open>pton\<close> is \<open>inet_pton\<close>: the address of a well-formed dotted quad.\<close>

definition InternetAddress_of_ip ::
  "(string \<Rightarrow> 32 word option) \<Rightarrow> string \<Rightarrow> 16 word \<Rightarrow> sockaddr_in" where
  "InternetAddress_of_ip pton ip port =
     (let a = zero_address\<lparr>sin_family := AF_INET, sin_port := htobe16 port\<rparr> in
      case pton ip of None \<Rightarrow> a | Some ad \<Rightarrow> a\<lparr>s_addr := ad\<rparr>)"

definition InternetAddress_of_sockaddr :: "sockaddr_in \<Rightarrow> sockaddr_in" where
  "InternetAddress_of_sockaddr address = address"

definition InternetAddress_getSockAddrInternet :: "sockaddr_in \<Rightarrow> sockaddr_in" where
  "InternetAddress_getSockAddrInternet a = a"

definition InternetAddress_setSockAddrInternet :: "sockaddr_in \<Rightarrow> sockaddr_in \<Rightarrow> sockaddr_in" where
  "InternetAddress_setSockAddrInternet address a = address"

definition InternetAddress_ipNetEnd :: "sockaddr_in \<Rightarrow> 32 word" where
  "InternetAddress_ipNetEnd a = s_addr a"

definition InternetAddress_portNetEnd :: "sockaddr_in \<Rightarrow> 16 word" where
  "InternetAddress_portNetEnd a = sin_port a"

text \<open>\<open>inet_ntop\<close> for AF_INET: the text, or nothing when it does not fit the given size.\<close>

definition dotted_quad :: "32 word \<Rightarrow> string" where
  "dotted_quad a = dec (unat (take_bit 8 a)) @ ''.'' @ dec (unat (take_bit 8 (drop_bit 8 a))) @ ''.''
     @ dec (unat (take_bit 8 (drop_bit 16 a))) @ ''.'' @ dec (unat (take_bit 8 (drop_bit 24 a)))"

definition inet_ntop :: "32 word \<Rightarrow> nat \<Rightarrow> string option" where
  "inet_ntop a cap = (if length (dotted_quad a) + 1 \<le> cap then Some (dotted_quad a) else None)"

text \<open>\<open>buf\<close> is what the uninitialised array holds if \<open>inet_ntop\<close> fails.\<close>

definition InternetAddress_toIP :: "string \<Rightarrow> sockaddr_in \<Rightarrow> string" where
  "InternetAddress_toIP buf a = (case inet_ntop (s_addr a) 32 of None \<Rightarrow> buf | Some s \<Rightarrow> s)"

definition InternetAddress_toIpPort :: "sockaddr_in \<Rightarrow> string" where
  "InternetAddress_toIpPort a =
     (let host0 = ''INVALID'';
          host = (case inet_ntop (s_addr a) (length host0) of None \<Rightarrow> host0 | Some s \<Rightarrow> s);
          port = be16toh (sin_port a) in
      snprintf 32 (host @ '':'' @ dec (unat port)))"

text \<open>\<open>getsockname\<close> and \<open>getpeername\<close> fill a zero structure or fail.\<close>

definition InternetAddress_getLocalAddress :: "sockaddr_in option \<Rightarrow> sockaddr_in" where
  "InternetAddress_getLocalAddress answer = (case answer of None \<Rightarrow> zero_address | Some a \<Rightarrow> a)"

definition InternetAddress_getPeerAddress :: "sockaddr_in option \<Rightarrow> sockaddr_in" where
  "InternetAddress_getPeerAddress answer = (case answer of None \<Rightarrow> zero_address | Some a \<Rightarrow> a)"

lemma htobe16_involution [simp]: "be16toh (htobe16 x) = x"
  unfolding be16toh_def htobe16_def
  by (rule bit_word_eqI)
    (auto simp: bit_or_iff bit_push_bit_iff bit_drop_bit_eq dest: bit_imp_le_length)

lemma octet_less: "unat (take_bit 8 (a :: 32 word)) < 256"
proof -
  have "unat (take_bit 8 a) = take_bit 8 (unat a)" by (rule unsigned_take_bit_eq)
  then show ?thesis by (simp only: take_bit_eq_mod) simp
qed

lemma length_dotted_quad: "7 \<le> length (dotted_quad a)" "length (dotted_quad a) \<le> 15"
proof -
  let ?d = "\<lambda>a :: 32 word. length (dec (unat (take_bit 8 a)))"
  have "1 \<le> ?d a \<and> ?d a \<le> 3" for a
  proof -
    have "?d a \<le> 3" using octet_less [of a] by (intro length_dec_le) auto
    then show ?thesis using dec_nonempty [of "unat (take_bit 8 a)"]
      by (cases "dec (unat (take_bit 8 a))") auto
  qed
  note this [of a] this [of "drop_bit 8 a"] this [of "drop_bit 16 a"] this [of "drop_bit 24 a"]
  then show "7 \<le> length (dotted_quad a)" "length (dotted_quad a) \<le> 15"
    unfolding dotted_quad_def length_append by simp_all
qed

text \<open>
  \<open>toIpPort\<close> never shows the address: the host part is always the word INVALID, because
  \<open>inet_ntop\<close> is told that the array has the length of that word. The port is right, and
  \<open>toIP\<close>, which passes the real size, shows the dotted quad.
\<close>

lemma toIpPort_invalid:
  "InternetAddress_toIpPort a = ''INVALID:'' @ dec (unat (be16toh (sin_port a)))
   \<and> InternetAddress_toIP buf a = dotted_quad (s_addr a)
   \<and> InternetAddress_toIpPort (InternetAddress_of_port p) = ''INVALID:'' @ dec (unat p)"
proof -
  have fail: "inet_ntop x (length ''INVALID'') = None" for x
    using length_dotted_quad(1) [of x] by (simp add: inet_ntop_def)
  have "unat (x :: 16 word) < 10 ^ 5" for x
    using unsigned_less [of x, where 'a = nat] by simp
  then have len: "length (dec (unat (x :: 16 word))) \<le> 5" for x by (intro length_dec_le) auto
  have "InternetAddress_toIpPort b = ''INVALID:'' @ dec (unat (be16toh (sin_port b)))" for b
    unfolding InternetAddress_toIpPort_def Let_def fail option.case
    using len [of "be16toh (sin_port b)"] by (subst snprintf_fits) auto
  moreover have "inet_ntop x 32 = Some (dotted_quad x)" for x
    using length_dotted_quad(2) [of x] by (simp add: inet_ntop_def)
  ultimately show ?thesis
    by (simp add: InternetAddress_toIP_def InternetAddress_of_port_def)
qed

section \<open>Socket\<close>

datatype sys_call =
    SysClose int
  | SysBind int sockaddr_in
  | SysListen int nat
  | SysShutdown int nat
  | SysSetTcpNoDelay int bool
  | SysSetReuseAddr int bool
  | SysSetKeepAlive int bool

definition SHUT_RD :: nat where "SHUT_RD = 0"
definition SHUT_WR :: nat where "SHUT_WR = 1"

record socket_t =
  sockfd :: int

definition Socket_of :: "int \<Rightarrow> socket_t" where
  "Socket_of fd = \<lparr>sockfd = fd\<rparr>"

definition Socket_isValid :: "socket_t \<Rightarrow> bool" where
  "Socket_isValid s \<longleftrightarrow> 0 \<le> sockfd s"

definition Socket_setNoneFd :: "socket_t \<Rightarrow> socket_t" where
  "Socket_setNoneFd s = s\<lparr>sockfd := -1\<rparr>"

text \<open>Destruction; the calls made so far are the second argument.\<close>

definition Socket_delete :: "socket_t \<Rightarrow> sys_call list \<Rightarrow> sys_call list" where
  "Socket_delete s sys = (if Socket_isValid s then sys @ [SysClose (sockfd s)] else sys)"

text \<open>Move construction answers the new socket and the moved-from one; so does assignment.\<close>

definition Socket_move :: "socket_t \<Rightarrow> socket_t \<times> socket_t" where
  "Socket_move s = (Socket_of (sockfd s), Socket_setNoneFd s)"

definition Socket_assign :: "bool \<Rightarrow> socket_t \<Rightarrow> socket_t \<Rightarrow> socket_t \<times> socket_t" where
  "Socket_assign same this rhs =
     (if \<not> same then (this\<lparr>sockfd := sockfd rhs\<rparr>, Socket_setNoneFd rhs) else (this, this))"

definition Socket_bindAddress :: "socket_t \<Rightarrow> sockaddr_in \<Rightarrow> sys_call list \<Rightarrow> sys_call list" where
  "Socket_bindAddress s a sys = sys @ [SysBind (sockfd s) a]"

definition Socket_listen :: "socket_t \<Rightarrow> sys_call list \<Rightarrow> sys_call list" where
  "Socket_listen s sys = sys @ [SysListen (sockfd s) 128]"

text \<open>
  \<open>accept4\<close> answers a descriptor and the peer's address, or a negative number. In the second
  case the function prints and reaches its end without a \<open>return\<close>.
\<close>

definition Socket_accept :: "int \<times> sockaddr_in \<Rightarrow> sockaddr_in \<Rightarrow> (int \<times> sockaddr_in) res" where
  "Socket_accept answer peerAddress =
     (if 0 \<le> fst answer then Inr (fst answer, snd answer) else Inl MissingReturn)"

definition Socket_shutdownWrite :: "socket_t \<Rightarrow> sys_call list \<Rightarrow> sys_call list" where
  "Socket_shutdownWrite s sys = sys @ [SysShutdown (sockfd s) SHUT_RD]"

definition Socket_setTcpNoDelay :: "bool \<Rightarrow> socket_t \<Rightarrow> sys_call list \<Rightarrow> sys_call list" where
  "Socket_setTcpNoDelay on s sys = sys @ [SysSetTcpNoDelay (sockfd s) on]"

definition Socket_setReuseAddr :: "bool \<Rightarrow> socket_t \<Rightarrow> sys_call list \<Rightarrow> sys_call list" where
  "Socket_setReuseAddr on s sys = sys @ [SysSetReuseAddr (sockfd s) on]"

definition Socket_setKeepAlive :: "bool \<Rightarrow> socket_t \<Rightarrow> sys_call list \<Rightarrow> sys_call list" where
  "Socket_setKeepAlive on s sys = sys @ [SysSetKeepAlive (sockfd s) on]"

text \<open>The answer of \<open>getsockopt\<close> is an error number or the pending error of the socket.\<close>

definition Socket_getSocketError :: "int + int \<Rightarrow> int" where
  "Socket_getSocketError answer = (case answer of Inl err \<Rightarrow> err | Inr optval \<Rightarrow> optval)"

section \<open>Ownership of descriptors\<close>

text \<open>
  Socket objects in a table; a destroyed object keeps its slot, without a descriptor.
  \<open>os_closed\<close> lists the closed descriptors, \<open>os_opened\<close> those handed out by the kernel, and
  \<open>os_lost\<close> those that an assignment overwrote.
\<close>

record owner_state =
  os_sockets :: "socket_t list"
  os_sys :: "sys_call list"
  os_opened :: "int list"
  os_lost :: "int list"

datatype owner_op = OpenFd int | MoveFrom nat | AssignFrom nat nat | Destroy nat

fun owner_step :: "owner_op \<Rightarrow> owner_state \<Rightarrow> owner_state res" where
  "owner_step (OpenFd fd) s = Inr (s\<lparr>os_sockets := os_sockets s @ [Socket_of fd],
     os_opened := os_opened s @ [fd]\<rparr>)"
| "owner_step (MoveFrom i) s =
     (if i < length (os_sockets s)
      then let (new, old) = Socket_move (os_sockets s ! i) in
           Inr (s\<lparr>os_sockets := (os_sockets s)[i := old] @ [new]\<rparr>)
      else Inl OutOfBounds)"
| "owner_step (AssignFrom i j) s =
     (if i < length (os_sockets s) \<and> j < length (os_sockets s)
      then let (this, rhs) = Socket_assign (i = j) (os_sockets s ! i) (os_sockets s ! j) in
           Inr (s\<lparr>os_sockets := (os_sockets s)[j := rhs, i := this],
             os_lost := os_lost s @ (if i \<noteq> j \<and> Socket_isValid (os_sockets s ! i)
                                     then [sockfd (os_sockets s ! i)] else [])\<rparr>)
      else Inl OutOfBounds)"
| "owner_step (Destroy i) s =
     (if i < length (os_sockets s)
      then Inr (s\<lparr>os_sys := Socket_delete (os_sockets s ! i) (os_sys s),
                  os_sockets := (os_sockets s)[i := Socket_setNoneFd (os_sockets s ! i)]\<rparr>)
      else Inl OutOfBounds)"

fun closed_fds :: "sys_call list \<Rightarrow> int list" where
  "closed_fds [] = []"
| "closed_fds (SysClose fd # sys) = fd # closed_fds sys"
| "closed_fds (_ # sys) = closed_fds sys"

definition fd_of :: "socket_t \<Rightarrow> int multiset" where
  "fd_of s = (if Socket_isValid s then {#sockfd s#} else {#})"

definition owned_fds :: "socket_t list \<Rightarrow> int multiset" where
  "owned_fds ss = sum_list (map fd_of ss)"

lemma closed_fds_append: "closed_fds (xs @ ys) = closed_fds xs @ closed_fds ys"
  by (induction xs rule: closed_fds.induct) auto

lemma owned_update:
  "i < length ss \<Longrightarrow> owned_fds (ss[i := s]) + fd_of (ss ! i) = owned_fds ss + fd_of s"
  by (induction ss arbitrary: i) (auto simp: owned_fds_def nth_Cons ac_simps split: nat.splits)

lemma invalid_none [simp]: "\<not> Socket_isValid (Socket_setNoneFd s)"
  by (simp add: Socket_isValid_def Socket_setNoneFd_def)

lemma fd_of_none [simp]: "fd_of (Socket_setNoneFd s) = {#}"
  by (simp add: fd_of_def Socket_isValid_def Socket_setNoneFd_def)

lemma fd_of_copy [simp]: "fd_of (t\<lparr>sockfd := sockfd s\<rparr>) = fd_of s" "fd_of (Socket_of (sockfd s)) = fd_of s"
  by (simp_all add: fd_of_def Socket_isValid_def Socket_of_def)

definition owner_inv :: "owner_state \<Rightarrow> bool" where
  "owner_inv s \<longleftrightarrow> mset (os_opened s) =
     owned_fds (os_sockets s) + mset (closed_fds (os_sys s)) + mset (os_lost s)"

fun op_ok :: "owner_op \<Rightarrow> bool" where
  "op_ok (OpenFd fd) = (0 \<le> fd)"
| "op_ok _ = True"

lemma owner_step_inv:
  assumes "owner_inv s" and "op_ok x" and "owner_step x s = Inr s'"
  shows "owner_inv s'"
proof (cases x)
  case (OpenFd fd)
  with assms show ?thesis
    by (auto simp: owner_inv_def owned_fds_def fd_of_def Socket_of_def Socket_isValid_def)
next
  case (MoveFrom i)
  with assms have i: "i < length (os_sockets s)" by (auto split: if_splits)
  with MoveFrom assms owned_update [OF i, of "Socket_setNoneFd (os_sockets s ! i)"] show ?thesis
    by (auto simp: owner_inv_def Socket_move_def owned_fds_def)
next
  case (AssignFrom i j)
  with assms have ij: "i < length (os_sockets s)" "j < length (os_sockets s)" by (auto split: if_splits)
  show ?thesis
  proof (cases "i = j")
    case True
    with AssignFrom assms ij show ?thesis by (auto simp: owner_inv_def Socket_assign_def)
  next
    case False
    let ?this = "(os_sockets s ! i)\<lparr>sockfd := sockfd (os_sockets s ! j)\<rparr>"
    have "owned_fds ((os_sockets s)[j := Socket_setNoneFd (os_sockets s ! j), i := ?this])
        + fd_of (os_sockets s ! i) = owned_fds (os_sockets s)"
      using owned_update [OF ij(2), of "Socket_setNoneFd (os_sockets s ! j)"] False
        owned_update [of i "(os_sockets s)[j := Socket_setNoneFd (os_sockets s ! j)]" ?this] ij(1)
      by simp
    with False AssignFrom assms ij show ?thesis
      by (auto simp: owner_inv_def Socket_assign_def fd_of_def ac_simps)
  qed
next
  case (Destroy i)
  with assms have i: "i < length (os_sockets s)" by (auto split: if_splits)
  from Destroy assms i owned_update [OF i, of "Socket_setNoneFd (os_sockets s ! i)"] show ?thesis
    by (auto simp: owner_inv_def Socket_delete_def closed_fds_append fd_of_def ac_simps)
qed

lemma distinct_from_count: "(\<And>x. count (mset xs) x \<le> 1) \<Longrightarrow> distinct xs"
proof (induction xs)
  case Nil
  then show ?case by simp
next
  case (Cons a xs)
  have "count (mset xs) x \<le> 1" for x
    by (rule order.trans [OF _ Cons.prems [of x]]) simp
  moreover have "count (mset xs) a = 0" using Cons.prems [of a] by simp
  ultimately show ?case using Cons.IH by (simp add: count_mset_0_iff)
qed

lemma distinct_count_le_1: "distinct xs \<Longrightarrow> count (mset xs) x \<le> 1"
  by (simp add: distinct_count_atmost_1)

definition no_sockets :: owner_state where
  "no_sockets = \<lparr>os_sockets = [], os_sys = [], os_opened = [], os_lost = []\<rparr>"

lemma owner_run_inv:
  "owner_inv s \<Longrightarrow> list_all op_ok ops \<Longrightarrow> fold_res owner_step ops s = Inr s' \<Longrightarrow> owner_inv s'"
  by (induction ops arbitrary: s) (auto simp: bind_res_eq_Inr dest: owner_step_inv)

lemma owner_step_lost:
  "owner_step x s = Inr s' \<Longrightarrow> (\<And>i j. x \<noteq> AssignFrom i j) \<Longrightarrow> os_lost s' = os_lost s"
  by (cases x) (auto simp: Let_def split: if_splits prod.splits)

lemma owner_run_lost:
  "fold_res owner_step ops s = Inr s' \<Longrightarrow> (\<And>i j. AssignFrom i j \<notin> set ops) \<Longrightarrow> os_lost s' = os_lost s"
proof (induction ops arbitrary: s)
  case Nil
  then show ?case by simp
next
  case (Cons x ops)
  then obtain s1 where "owner_step x s = Inr s1" "fold_res owner_step ops s1 = Inr s'"
    by (auto elim: bind_resE)
  with Cons owner_step_lost [of x s s1] show ?case by fastforce
qed



end
