(* ===== verification/Acceptor.thy ===== *)
theory Acceptor
  imports Socket
begin

text \<open>
  \<open>net/Acceptor.h\<close> and \<open>net/Acceptor.cpp\<close>: the listening socket of a server. The callback
  for a new connection takes the accepted socket over; it is a parameter that runs on the state
  of its owner. The acceptor's channel is at the address \<open>this\<close> in the poller of its loop.
\<close>

datatype acceptor_cb = AcceptorRead

record 'cb acceptor_t =
  ac_socket :: socket_t
  ac_channel :: "acceptor_cb channel_t"
  ac_newConnection :: "'cb option"
  ac_isListening :: bool

text \<open>\<open>createNonblocking\<close> returns the descriptor \<open>socket(2)\<close> gives, negative or not.\<close>

definition Acceptor_createNonblocking :: "int \<Rightarrow> int" where
  "Acceptor_createNonblocking answer = answer"

definition Acceptor_new ::
  "nat \<Rightarrow> int \<Rightarrow> sockaddr_in \<Rightarrow> sys_call list \<Rightarrow> 'cb acceptor_t \<times> sys_call list" where
  "Acceptor_new loop answer listenAddress sys =
     (let s = Socket_of (Acceptor_createNonblocking answer);
          sys1 = Socket_setReuseAddr True s sys;
          sys2 = Socket_bindAddress s listenAddress sys1 in
      (\<lparr>ac_socket = s,
        ac_channel = Channel_setReadCallback (Some AcceptorRead) (Channel_new loop (sockfd s)),
        ac_newConnection = None, ac_isListening = False\<rparr>, sys2))"

definition Acceptor_setNewConnectionCallback :: "'cb option \<Rightarrow> 'cb acceptor_t \<Rightarrow> 'cb acceptor_t" where
  "Acceptor_setNewConnectionCallback cb ac = ac\<lparr>ac_newConnection := cb\<rparr>"

definition Acceptor_listen ::
  "nat \<Rightarrow> 'cb acceptor_t \<times> epoll_t \<times> sys_call list \<Rightarrow> ('cb acceptor_t \<times> epoll_t \<times> sys_call list) res" where
  "Acceptor_listen this s = (case s of (ac, ep, sys) \<Rightarrow>
     let ac1 = ac\<lparr>ac_isListening := True\<rparr>; sys1 = Socket_listen (ac_socket ac1) sys in
     bind_res (Channel_enableReading this (ac_channel ac1, ep)) (\<lambda>(ch, ep1).
       Inr (ac1\<lparr>ac_channel := ch\<rparr>, ep1, sys1)))"

text \<open>
  One read event: accept a connection, hand it to the callback, and destroy the local socket,
  which closes the descriptor unless it was moved away.
\<close>

definition Acceptor_hadleRead ::
  "('cb \<Rightarrow> socket_t \<Rightarrow> sockaddr_in \<Rightarrow> sys_call list \<times> 'w \<Rightarrow> (sys_call list \<times> 'w) res)
     \<Rightarrow> int \<times> sockaddr_in \<Rightarrow> 'cb acceptor_t \<Rightarrow> sys_call list \<times> 'w \<Rightarrow> (sys_call list \<times> 'w) res" where
  "Acceptor_hadleRead call answer ac s =
     bind_res (Socket_accept answer (InternetAddress_of_port 0)) (\<lambda>(fd, peerAddress).
       let connectionSocket = Socket_of fd in
       if 0 \<le> sockfd connectionSocket
       then (case ac_newConnection ac of
               None \<Rightarrow> Inr (Socket_delete connectionSocket (fst s), snd s)
             | Some cb \<Rightarrow>
                 let (moved, local) = Socket_move connectionSocket in
                 bind_res (call cb moved peerAddress s) (\<lambda>s1.
                   Inr (Socket_delete local (fst s1), snd s1)))
       else Inr (Socket_delete connectionSocket (fst s), snd s))"

text \<open>The destructor, and those of its channel and socket.\<close>

definition Acceptor_delete ::
  "nat \<Rightarrow> 'cb acceptor_t \<times> epoll_t \<times> sys_call list \<Rightarrow> (epoll_t \<times> sys_call list) res" where
  "Acceptor_delete this s = (case s of (ac, ep, sys) \<Rightarrow>
     bind_res (Channel_disableAll this (ac_channel ac, ep)) (\<lambda>s1.
     bind_res (Channel_remove this s1) (\<lambda>(ch, ep2).
     bind_res (Channel_delete ch) (\<lambda>_.
     Inr (ep2, Socket_delete (ac_socket ac) sys)))))"

section \<open>Listening and accepting\<close>

text \<open>
  \<open>listen\<close> binds first and then watches the listening descriptor for reading, exactly once:
  afterwards the acceptor is listening, the kernel has been asked to bind, listen and watch, in
  that order of \<open>bind\<close> before \<open>listen\<close>, and no assertion has failed.
\<close>

lemma Acceptor_listen_ok:
  assumes "Epoll_inv ep" and "poller_entry ep fd = (None, None)"
    and "Acceptor_new loop fd a sys = (ac, sys1)"
  shows "returns (Acceptor_listen this (ac, ep, sys1)) (\<lambda>(ac', ep', sys').
    ac_isListening ac' \<and> chan_synced this (ac_channel ac') ep'
    \<and> interest (ep_ctl ep') fd = Some (kReadEvent, this)
    \<and> sys' = sys @ [SysSetReuseAddr fd True, SysBind fd a, SysListen fd 128])"
proof -
  let ?ch = "Channel_setReadCallback (Some AcceptorRead) (Channel_new loop fd)"
  have ac: "ac_channel ac = ?ch" "ac_socket ac = Socket_of fd"
    "sys1 = sys @ [SysSetReuseAddr fd True, SysBind fd a]"
    using assms(3) by (auto simp: Acceptor_new_def Acceptor_createNonblocking_def Socket_of_def
        Socket_setReuseAddr_def Socket_bindAddress_def Let_def)
  let ?ch' = "?ch\<lparr>ch_events := ch_events ?ch OR kReadEvent, ch_addedToLoop := True\<rparr>"
  have ch: "ch_fd ?ch = fd" "ch_statusInEpoll ?ch = kNew" "ch_events ?ch = 0" "ch_revents ?ch = 0"
    by (simp_all add: Channel_setReadCallback_def Channel_new_def status_defs)
  then have synced: "chan_synced this ?ch ep"
    using assms(1,2) by (simp add: chan_synced_def registered_as_def)
  then have "Channel_enableReading this (?ch, ep) = Inr (update_result this ?ch' ep)"
    by (simp add: Channel_enableReading_def Channel_update_eq)
  moreover have "chan_synced this (fst (update_result this ?ch' ep)) (snd (update_result this ?ch' ep))"
    using synced by (intro update_result_synced) simp
  moreover have "interest (ep_ctl (snd (update_result this ?ch' ep))) fd = Some (kReadEvent, this)"
    using ch by (simp add: update_result_def status_defs Epoll_update_def ctl_effect_def)
  ultimately show ?thesis
    using ac by (auto simp: Acceptor_listen_def Socket_listen_def Socket_of_def split_beta)
qed

lemma Acceptor_listen_ok_instance:
  "returns (Acceptor_listen 9 (fst (Acceptor_new 1 5 (InternetAddress_of_port 8888) []) :: unit acceptor_t,
      Epoll_new, snd (Acceptor_new 1 5 (InternetAddress_of_port 8888) [] :: unit acceptor_t \<times> _)))
    (\<lambda>(ac', ep', sys'). ac_isListening ac' \<and> interest (ep_ctl ep') 5 = Some (kReadEvent, 9))"
  by (rule returns_mono [OF Acceptor_listen_ok [OF Epoll_new_inv]])
    (auto simp: poller_entry_def Epoll_new_def smap_get_def Acceptor_new_def)

text \<open>
  A read event on the listening socket: a connection that the kernel hands out reaches the
  callback with its descriptor and peer address and is closed if there is no callback; when
  \<open>accept4\<close> fails, for instance because the client has already gone, control runs off the end of
  \<open>Socket::accept\<close>.
\<close>

lemma Acceptor_hadleRead_cases:
  "(0 \<le> fd \<longrightarrow> ac_newConnection ac = Some cb \<longrightarrow>
      Acceptor_hadleRead call (fd, peer) ac s = call cb (Socket_of fd) peer s)
   \<and> (0 \<le> fd \<longrightarrow> ac_newConnection ac = None \<longrightarrow>
      Acceptor_hadleRead call (fd, peer) ac s = Inr (fst s @ [SysClose fd], snd s))
   \<and> (fd < 0 \<longrightarrow> Acceptor_hadleRead call (fd, peer) ac s = Inl MissingReturn)"
  by (cases "call cb (Socket_of fd) peer s")
    (auto simp: Acceptor_hadleRead_def Socket_accept_def Socket_move_def Socket_of_def
      Socket_delete_def Socket_isValid_def Socket_setNoneFd_def)

lemma Acceptor_hadleRead_cases_instance:
  "Acceptor_hadleRead (\<lambda>_ s a w. Inr (fst w, sockfd s)) (7, zero_address)
      (Acceptor_setNewConnectionCallback (Some ()) (fst (Acceptor_new 1 5 zero_address []))) ([], 0) = Inr ([], 7)
   \<and> Acceptor_hadleRead (\<lambda>_ s a w. Inr (fst w, sockfd s)) (-1, zero_address)
      (Acceptor_setNewConnectionCallback (Some ()) (fst (Acceptor_new 1 5 zero_address []))) ([], 0) = Inl MissingReturn"
  using Acceptor_hadleRead_cases [of 7 "Acceptor_setNewConnectionCallback (Some ()) (fst (Acceptor_new 1 5 zero_address []))"
      "()" "\<lambda>_ s a w. Inr (fst w, sockfd s)" zero_address "([], 0)"]
    Acceptor_hadleRead_cases [of "-1" "Acceptor_setNewConnectionCallback (Some ()) (fst (Acceptor_new 1 5 zero_address []))"
      "()" "\<lambda>_ s a w. Inr (fst w, sockfd s)" zero_address "([], 0)"]
  by (simp add: Acceptor_setNewConnectionCallback_def Socket_of_def)

end
