(* ===== verification/Http_Request.thy ===== *)
theory Http_Request
  imports Std_Containers
begin

text \<open>
  \<open>http/HttpRequest.h\<close> and \<open>http/HttpRequest.cpp\<close>: the request a connection is
  parsing. A pair of pointers into the input buffer is the string between them.
\<close>

datatype http_method = kInvalid | kGet | kPost | kHead | kPut | kDelete

record http_request =
  req_method :: http_method
  req_path :: string
  req_query :: string
  req_receiveTime :: int
  req_headers :: "(string \<times> string) list"

definition HttpRequest_new :: http_request where
  "HttpRequest_new = \<lparr>req_method = kInvalid, req_path = [], req_query = [],
     req_receiveTime = 0, req_headers = []\<rparr>"

definition method_of_string :: "string \<Rightarrow> http_method" where
  "method_of_string m =
     (if m = ''GET'' then kGet
      else if m = ''POST'' then kPost
      else if m = ''HEAD'' then kHead
      else if m = ''PUT'' then kPut
      else if m = ''DELETE'' then kDelete
      else kInvalid)"

definition HttpRequest_setMethod :: "http_request \<Rightarrow> string \<Rightarrow> (http_request \<times> bool) res" where
  "HttpRequest_setMethod r m =
     cpp_assert (req_method r = kInvalid)
       (let r' = r\<lparr>req_method := method_of_string m\<rparr> in Inr (r', req_method r' \<noteq> kInvalid))"

fun method_string :: "http_method \<Rightarrow> string" where
  "method_string kGet = ''GET''"
| "method_string kPost = ''POST''"
| "method_string kHead = ''HEAD''"
| "method_string kPut = ''PUT''"
| "method_string kDelete = ''DELETE''"
| "method_string kInvalid = ''UNKNOWN''"

definition HttpRequest_methodString :: "http_request \<Rightarrow> string" where
  "HttpRequest_methodString r = method_string (req_method r)"

definition HttpRequest_setPath :: "http_request \<Rightarrow> string \<Rightarrow> http_request" where
  "HttpRequest_setPath r s = r\<lparr>req_path := s\<rparr>"

definition HttpRequest_setQuery :: "http_request \<Rightarrow> string \<Rightarrow> http_request" where
  "HttpRequest_setQuery r s = r\<lparr>req_query := s\<rparr>"

definition HttpRequest_setReceiveTime :: "http_request \<Rightarrow> int \<Rightarrow> http_request" where
  "HttpRequest_setReceiveTime r t = r\<lparr>req_receiveTime := t\<rparr>"

text \<open>\<open>isspace\<close> in the C locale: blank, and the controls from tab to carriage return.\<close>

definition isspace :: "char \<Rightarrow> bool" where
  "isspace c \<longleftrightarrow> c = CHR '' '' \<or> c \<in> {CHR 0x09, CHR 0x0A, CHR 0x0B, CHR 0x0C, CHR 0x0D}"

text \<open>The two loops of \<open>addHeader\<close>: skip leading blanks, pop trailing ones.\<close>

fun skip_spaces :: "string \<Rightarrow> string" where
  "skip_spaces [] = []"
| "skip_spaces (c # cs) = (if isspace c then skip_spaces cs else c # cs)"

function trim_right :: "string \<Rightarrow> string" where
  "trim_right v = (if v \<noteq> [] \<and> isspace (last v) then trim_right (butlast v) else v)"
  by pat_completeness auto
termination
  by (relation "measure length") auto

declare trim_right.simps [simp del]

text \<open>
  \<open>addHeader(start, colon, end)\<close>: \<open>line\<close> is the text from \<open>start\<close> to \<open>end\<close> and
  \<open>colon\<close> the offset of the separator.
\<close>

definition HttpRequest_addHeader :: "http_request \<Rightarrow> string \<Rightarrow> nat \<Rightarrow> http_request" where
  "HttpRequest_addHeader r line colon =
     (let field = take colon line;
          val = trim_right (skip_spaces (drop (colon + 1) line))
      in r\<lparr>req_headers := smap_put field val (req_headers r)\<rparr>)"

definition HttpRequest_getHeader :: "http_request \<Rightarrow> string \<Rightarrow> string" where
  "HttpRequest_getHeader r field =
     (case smap_get (req_headers r) field of None \<Rightarrow> [] | Some v \<Rightarrow> v)"

definition HttpRequest_swap :: "http_request \<Rightarrow> http_request \<Rightarrow> http_request \<times> http_request" where
  "HttpRequest_swap r that =
     (r\<lparr>req_method := req_method that, req_path := req_path that, req_query := req_query that,
        req_receiveTime := req_receiveTime that, req_headers := req_headers that\<rparr>,
      that\<lparr>req_method := req_method r, req_path := req_path r, req_query := req_query r,
        req_receiveTime := req_receiveTime r, req_headers := req_headers r\<rparr>)"

section \<open>Facts about the operations\<close>

lemma method_of_method_string [simp]: "m \<noteq> kInvalid \<Longrightarrow> method_of_string (method_string m) = m"
  by (cases m) (simp_all add: method_of_string_def)

lemma method_string_no_space: "CHR '' '' \<notin> set (method_string m)" "CHR 0x0D \<notin> set (method_string m)"
  by (cases m; simp)+

lemma setMethod_fresh:
  "req_method r = kInvalid \<Longrightarrow> HttpRequest_setMethod r m =
     Inr (r\<lparr>req_method := method_of_string m\<rparr>, method_of_string m \<noteq> kInvalid)"
  by (simp add: HttpRequest_setMethod_def)

lemma setMethod_twice: "req_method r \<noteq> kInvalid \<Longrightarrow> HttpRequest_setMethod r m = Inl AssertFailed"
  by (simp add: HttpRequest_setMethod_def)

lemma skip_spaces_dropWhile: "skip_spaces s = dropWhile isspace s"
  by (induction s) auto

text \<open>A value that neither starts nor ends with white space.\<close>

definition trimmed :: "string \<Rightarrow> bool" where
  "trimmed v \<longleftrightarrow> v = [] \<or> \<not> isspace (hd v) \<and> \<not> isspace (last v)"

lemma skip_spaces_hd: "skip_spaces s = [] \<or> \<not> isspace (hd (skip_spaces s))"
  by (induction s) auto

lemma skip_spaces_id: "s = [] \<or> \<not> isspace (hd s) \<Longrightarrow> skip_spaces s = s"
  by (cases s) auto

lemma trim_right_last: "trim_right v = [] \<or> \<not> isspace (last (trim_right v))"
  by (induction v rule: trim_right.induct) (subst (1 2) trim_right.simps, simp)

lemma trim_right_hd: "trim_right v = [] \<or> hd (trim_right v) = hd v"
proof (induction v rule: trim_right.induct)
  case (1 v)
  show ?case
  proof (cases "v \<noteq> [] \<and> isspace (last v)")
    case True
    then have step: "trim_right v = trim_right (butlast v)" by (simp add: trim_right.simps [of v])
    show ?thesis
    proof (cases "butlast v = []")
      case True
      then show ?thesis by (simp add: step trim_right.simps)
    next
      case False
      then have "hd (butlast v) = hd v" by (cases v) auto
      with 1 True step show ?thesis by simp
    qed
  next
    case False
    then have "trim_right v = v" by (subst trim_right.simps) auto
    then show ?thesis by simp
  qed
qed

lemma trim_trimmed: "trimmed v \<Longrightarrow> trim_right (skip_spaces v) = v"
  by (auto simp: trimmed_def skip_spaces_id trim_right.simps [of v] trim_right.simps [of "[]"])

lemma trim_blank: "trimmed v \<Longrightarrow> trim_right (skip_spaces (CHR '' '' # v)) = v"
  using trim_trimmed [of v] by (simp add: isspace_def)

lemma trim_is_trimmed: "trimmed (trim_right (skip_spaces s))"
  using skip_spaces_hd [of s] trim_right_last [of "skip_spaces s"] trim_right_hd [of "skip_spaces s"]
  by (auto simp: trimmed_def trim_right.simps [of "[]"])

lemma addHeader_colon:
  assumes "CHR '':'' \<notin> set k" and "trimmed v"
  shows "HttpRequest_addHeader r (k @ '': '' @ v) (length k) =
    r\<lparr>req_headers := smap_put k v (req_headers r)\<rparr>"
  using assms by (simp add: HttpRequest_addHeader_def trim_blank del: skip_spaces.simps)

lemma swap_new [simp]: "fst (HttpRequest_swap r HttpRequest_new) = HttpRequest_new"
  by (simp add: HttpRequest_swap_def HttpRequest_new_def)

end
