(* ===== verification/Byte_Queue.thy ===== *)
theory Byte_Queue
  imports Prelude
begin

text \<open>
  The contract the server's network code relies on when it uses a buffer: a byte queue with
  an append and a retrieving read. \<open>queue_run\<close> drives any implementation through a
  sequence of such calls, \<open>queue_spec\<close> is the same run on the abstract contents; the
  locale \<open>byte_queue\<close> states the laws of an implementation and proves, once, that every
  run of it refines the abstract one.
\<close>

datatype queue_op = Put string | Get nat

fun queue_run :: "('q \<Rightarrow> string \<Rightarrow> 'q res) \<Rightarrow> ('q \<Rightarrow> nat \<Rightarrow> (string \<times> 'q) res) \<Rightarrow>
    'q \<Rightarrow> queue_op list \<Rightarrow> (string \<times> 'q) res" where
  "queue_run put get q [] = Inr ([], q)"
| "queue_run put get q (Put s # ops) = bind_res (put q s) (\<lambda>q'. queue_run put get q' ops)"
| "queue_run put get q (Get n # ops) =
     bind_res (get q n) (\<lambda>(got, q').
       bind_res (queue_run put get q' ops) (\<lambda>(rest, q''). Inr (got @ rest, q'')))"

fun queue_spec :: "string \<Rightarrow> queue_op list \<Rightarrow> (string \<times> string) option" where
  "queue_spec c [] = Some ([], c)"
| "queue_spec c (Put s # ops) = queue_spec (c @ s) ops"
| "queue_spec c (Get n # ops) =
     (if n \<le> length c
      then map_option (\<lambda>(got, c'). (take n c @ got, c')) (queue_spec (drop n c) ops)
      else None)"

fun puts :: "queue_op list \<Rightarrow> string" where
  "puts [] = []"
| "puts (Put s # ops) = s @ puts ops"
| "puts (Get n # ops) = puts ops"

text \<open>What was read, followed by what is left, is what was there followed by what was put.\<close>

lemma queue_spec_conserves: "queue_spec c ops = Some (got, c') \<Longrightarrow> got @ c' = c @ puts ops"
proof (induction c ops arbitrary: got rule: queue_spec.induct)
  case (3 c n ops)
  then obtain g where "n \<le> length c" and "queue_spec (drop n c) ops = Some (g, c')"
    and "got = take n c @ g"
    by (auto split: if_splits)
  with 3 have "g @ c' = drop n c @ puts ops" by blast
  then have "got @ c' = (take n c @ drop n c) @ puts ops"
    using \<open>got = _\<close> by (simp only: append_assoc)
  then show ?case by simp
qed auto

locale byte_queue =
  fixes inv :: "'q \<Rightarrow> bool"
    and content :: "'q \<Rightarrow> string"
    and room :: "'q \<Rightarrow> nat \<Rightarrow> bool"
    and put :: "'q \<Rightarrow> string \<Rightarrow> 'q res"
    and get :: "'q \<Rightarrow> nat \<Rightarrow> (string \<times> 'q) res"
  assumes put_ok: "inv q \<Longrightarrow> room q (length s) \<Longrightarrow>
      returns (put q s) (\<lambda>q'. inv q' \<and> content q' = content q @ s)"
    and put_room: "inv q \<Longrightarrow> room q (length s + n) \<Longrightarrow> put q s = Inr q' \<Longrightarrow> room q' n"
    and room_mono: "room q n \<Longrightarrow> m \<le> n \<Longrightarrow> room q m"
    and get_ok: "inv q \<Longrightarrow> n \<le> length (content q) \<Longrightarrow>
      returns (get q n) (\<lambda>(got, q'). inv q' \<and> got = take n (content q)
        \<and> content q' = drop n (content q))"
    and get_room: "inv q \<Longrightarrow> room q m \<Longrightarrow> get q n = Inr (got, q') \<Longrightarrow> room q' m"
begin

lemma put_step:
  assumes "inv q" and "room q (length s + n)"
  obtains q' where "put q s = Inr q'" and "inv q'" and "content q' = content q @ s" and "room q' n"
proof -
  have "room q (length s)" using assms(2) by (rule room_mono) simp
  with put_ok [OF assms(1)] obtain q' where "put q s = Inr q'" "inv q'" "content q' = content q @ s"
    by (auto elim!: returnsE)
  with put_room [OF assms] that show thesis by blast
qed

lemma get_step:
  assumes "inv q" and "n \<le> length (content q)" and "room q m"
  obtains q' where "get q n = Inr (take n (content q), q')" and "inv q'"
    and "content q' = drop n (content q)" and "room q' m"
proof -
  from get_ok [OF assms(1,2)] obtain q' where "get q n = Inr (take n (content q), q')" "inv q'"
    "content q' = drop n (content q)"
    by (auto elim!: returnsE)
  with get_room [OF assms(1,3)] that show thesis by blast
qed

theorem run_refines:
  assumes "inv q" and "room q (length (puts ops))"
    and "queue_spec (content q) ops = Some (got, c')"
  shows "returns (queue_run put get q ops) (\<lambda>(out, q'). out = got \<and> content q' = c' \<and> inv q')"
  using assms
proof (induction ops arbitrary: q got)
  case Nil
  then show ?case by simp
next
  case (Cons op ops)
  show ?case
  proof (cases op)
    case (Put s)
    with Cons.prems have "room q (length s + length (puts ops))" by simp
    with Cons.prems(1) obtain q' where q': "put q s = Inr q'" "inv q'"
      "content q' = content q @ s" "room q' (length (puts ops))"
      by (rule put_step)
    with Cons.prems(3) Put have "queue_spec (content q') ops = Some (got, c')" by simp
    with Cons.IH [OF q'(2,4)] q' Put show ?thesis by simp
  next
    case (Get n)
    with Cons.prems(3) obtain g where g: "n \<le> length (content q)" "got = take n (content q) @ g"
      "queue_spec (drop n (content q)) ops = Some (g, c')"
      by (auto split: if_splits)
    from Cons.prems(2) Get have "room q (length (puts ops))" by simp
    with Cons.prems(1) g(1) obtain q' where q': "get q n = Inr (take n (content q), q')" "inv q'"
      "content q' = drop n (content q)" "room q' (length (puts ops))"
      by (rule get_step)
    with g have "queue_spec (content q') ops = Some (g, c')" by simp
    with Cons.IH [OF q'(2,4)] q' g Get show ?thesis by (auto simp: returns_iff bind_res_eq_Inr)
  qed
qed

end

end
