(* ===== verification/Buffer.thy ===== *)
theory Buffer
  imports Byte_Queue
begin

text \<open>
  \<open>net/Buffer.h\<close> and \<open>net/Buffer.cpp\<close>: the byte buffer of a connection. A pointer into
  the buffer (\<open>peek()\<close>, \<open>beginWrite()\<close>, the result of \<open>findCRLF\<close>) is its offset
  from \<open>begin()\<close>; a null pointer is \<open>None\<close>. The abstraction \<open>Buffer_toString\<close> is
  the readable region; the operations refine a queue of bytes.
\<close>

section \<open>State\<close>

record buffer_t =
  buf_store :: "char list"
  readerIndex :: nat
  writerIndex :: nat

definition kCheapPrepend :: nat where
  "kCheapPrepend = 8"

definition kInitialSize :: nat where
  "kInitialSize = 1024"

definition Buffer_readableBytes :: "buffer_t \<Rightarrow> nat" where
  "Buffer_readableBytes b = sz_sub (writerIndex b) (readerIndex b)"

definition Buffer_writableBytes :: "buffer_t \<Rightarrow> nat" where
  "Buffer_writableBytes b = sz_sub (length (buf_store b)) (writerIndex b)"

definition Buffer_prependableBytes :: "buffer_t \<Rightarrow> nat" where
  "Buffer_prependableBytes b = readerIndex b"

definition Buffer_peek :: "buffer_t \<Rightarrow> nat" where
  "Buffer_peek b = readerIndex b"

definition Buffer_beginWrite :: "buffer_t \<Rightarrow> nat" where
  "Buffer_beginWrite b = writerIndex b"

text \<open>The constructor, with the assertions of its body.\<close>

definition Buffer_new :: "buffer_t res" where
  "Buffer_new =
     (let b = \<lparr>buf_store = replicate (kCheapPrepend + kInitialSize) (CHR 0x00),
               readerIndex = kCheapPrepend, writerIndex = kCheapPrepend\<rparr>
      in cpp_assert (Buffer_readableBytes b = 0)
        (cpp_assert (Buffer_writableBytes b = kInitialSize)
          (cpp_assert (Buffer_prependableBytes b = kCheapPrepend) (Inr b))))"

definition Buffer_swap :: "buffer_t \<Rightarrow> buffer_t \<Rightarrow> buffer_t \<times> buffer_t" where
  "Buffer_swap b rhs =
     (b\<lparr>buf_store := buf_store rhs, readerIndex := readerIndex rhs, writerIndex := writerIndex rhs\<rparr>,
      rhs\<lparr>buf_store := buf_store b, readerIndex := readerIndex b, writerIndex := writerIndex b\<rparr>)"

section \<open>Searching\<close>

text \<open>The bytes between two pointers.\<close>

definition Buffer_range :: "buffer_t \<Rightarrow> nat \<Rightarrow> nat \<Rightarrow> string" where
  "Buffer_range b start endp = take (endp - start) (drop start (buf_store b))"

definition Buffer_findCRLF :: "buffer_t \<Rightarrow> nat option" where
  "Buffer_findCRLF b =
     (let crlf = Buffer_peek b
            + search_in (Buffer_range b (Buffer_peek b) (Buffer_beginWrite b)) CRLF
      in if crlf = Buffer_beginWrite b then None else Some crlf)"

definition Buffer_findCRLF_from :: "buffer_t \<Rightarrow> nat \<Rightarrow> nat option res" where
  "Buffer_findCRLF_from b start =
     cpp_assert (Buffer_peek b \<le> start)
       (cpp_assert (start \<le> Buffer_beginWrite b)
         (let crlf = start + search_in (Buffer_range b start (Buffer_beginWrite b)) CRLF
          in Inr (if crlf = Buffer_beginWrite b then None else Some crlf)))"

text \<open>\<open>memchr(start, '\n', n)\<close>: the first line feed of the range, or null.\<close>

definition memchr_in :: "string \<Rightarrow> char \<Rightarrow> nat option" where
  "memchr_in xs c = (if find_in xs c = length xs then None else Some (find_in xs c))"

definition Buffer_findEOL :: "buffer_t \<Rightarrow> nat option" where
  "Buffer_findEOL b =
     map_option (\<lambda>i. Buffer_peek b + i)
       (memchr_in (Buffer_range b (Buffer_peek b) (Buffer_peek b + Buffer_readableBytes b)) (CHR 0x0A))"

definition Buffer_findEOL_from :: "buffer_t \<Rightarrow> nat \<Rightarrow> nat option res" where
  "Buffer_findEOL_from b start =
     cpp_assert (Buffer_peek b \<le> start)
       (cpp_assert (start \<le> Buffer_beginWrite b)
         (Inr (map_option (\<lambda>i. start + i)
            (memchr_in (Buffer_range b start (Buffer_beginWrite b)) (CHR 0x0A)))))"

section \<open>Retrieving\<close>

definition Buffer_retrieveAll :: "buffer_t \<Rightarrow> buffer_t" where
  "Buffer_retrieveAll b = b\<lparr>readerIndex := kCheapPrepend, writerIndex := kCheapPrepend\<rparr>"

definition Buffer_retrieve :: "buffer_t \<Rightarrow> nat \<Rightarrow> buffer_t res" where
  "Buffer_retrieve b len =
     cpp_assert (len \<le> Buffer_readableBytes b)
       (if len < Buffer_readableBytes b
        then Inr (b\<lparr>readerIndex := sz_add (readerIndex b) len\<rparr>)
        else Inr (Buffer_retrieveAll b))"

definition Buffer_retrieveUntil :: "buffer_t \<Rightarrow> nat \<Rightarrow> buffer_t res" where
  "Buffer_retrieveUntil b endp =
     cpp_assert (Buffer_peek b \<le> endp)
       (cpp_assert (endp \<le> Buffer_beginWrite b)
         (Buffer_retrieve b (endp - Buffer_peek b)))"

definition Buffer_retrieveInt32 :: "buffer_t \<Rightarrow> buffer_t res" where
  "Buffer_retrieveInt32 b = Buffer_retrieve b 4"

definition Buffer_retrieveInt16 :: "buffer_t \<Rightarrow> buffer_t res" where
  "Buffer_retrieveInt16 b = Buffer_retrieve b 2"

definition Buffer_retrieveInt8 :: "buffer_t \<Rightarrow> buffer_t res" where
  "Buffer_retrieveInt8 b = Buffer_retrieve b 1"

definition Buffer_retrieveAsString :: "buffer_t \<Rightarrow> nat \<Rightarrow> (string \<times> buffer_t) res" where
  "Buffer_retrieveAsString b len =
     cpp_assert (len \<le> Buffer_readableBytes b)
       (bind_res (mem_read (buf_store b) (Buffer_peek b) len) (\<lambda>str.
          bind_res (Buffer_retrieve b len) (\<lambda>b'. Inr (str, b'))))"

definition Buffer_retrieveAllAsString :: "buffer_t \<Rightarrow> (string \<times> buffer_t) res" where
  "Buffer_retrieveAllAsString b = Buffer_retrieveAsString b (Buffer_readableBytes b)"

definition Buffer_toString :: "buffer_t \<Rightarrow> string res" where
  "Buffer_toString b = mem_read (buf_store b) (Buffer_peek b) (Buffer_readableBytes b)"

section \<open>Appending and growing\<close>

definition Buffer_makeSpace :: "buffer_t \<Rightarrow> nat \<Rightarrow> buffer_t res" where
  "Buffer_makeSpace b len =
     (if sz_add (Buffer_writableBytes b) (Buffer_prependableBytes b) < sz_add len kCheapPrepend
      then bind_res (vec_resize (CHR 0x00) (buf_store b) (sz_add (writerIndex b) len))
             (\<lambda>s. Inr (b\<lparr>buf_store := s\<rparr>))
      else cpp_assert (kCheapPrepend < readerIndex b)
        (let readable = Buffer_readableBytes b in
          bind_res (mem_read (buf_store b) (readerIndex b) (writerIndex b - readerIndex b))
            (\<lambda>bytes. bind_res (mem_write (buf_store b) kCheapPrepend bytes) (\<lambda>s.
              let b' = b\<lparr>buf_store := s, readerIndex := kCheapPrepend,
                         writerIndex := sz_add kCheapPrepend readable\<rparr>
              in cpp_assert (readable = Buffer_readableBytes b') (Inr b')))))"

definition Buffer_ensureWritableBytes :: "buffer_t \<Rightarrow> nat \<Rightarrow> buffer_t res" where
  "Buffer_ensureWritableBytes b len =
     bind_res (if Buffer_writableBytes b < len then Buffer_makeSpace b len else Inr b)
       (\<lambda>b'. cpp_assert (len \<le> Buffer_writableBytes b') (Inr b'))"

definition Buffer_hasWritten :: "buffer_t \<Rightarrow> nat \<Rightarrow> buffer_t" where
  "Buffer_hasWritten b len = b\<lparr>writerIndex := sz_add (writerIndex b) len\<rparr>"

definition Buffer_append :: "buffer_t \<Rightarrow> string \<Rightarrow> buffer_t res" where
  "Buffer_append b data =
     bind_res (Buffer_ensureWritableBytes b (length data)) (\<lambda>b'.
       bind_res (mem_write (buf_store b') (Buffer_beginWrite b') data) (\<lambda>s.
         Inr (Buffer_hasWritten (b'\<lparr>buf_store := s\<rparr>) (length data))))"

text \<open>The overloads that take a \<open>std::string\<close>, and a pointer with a length.\<close>

definition Buffer_append_string :: "buffer_t \<Rightarrow> string \<Rightarrow> buffer_t res" where
  "Buffer_append_string b str = Buffer_append b str"

definition Buffer_append_void :: "buffer_t \<Rightarrow> string \<Rightarrow> nat \<Rightarrow> buffer_t res" where
  "Buffer_append_void b data len = bind_res (mem_read data 0 len) (Buffer_append b)"

definition Buffer_prepend :: "buffer_t \<Rightarrow> string \<Rightarrow> buffer_t res" where
  "Buffer_prepend b data =
     cpp_assert (length data \<le> Buffer_prependableBytes b)
       (let r = sz_sub (readerIndex b) (length data) in
         bind_res (mem_write (buf_store b) r data)
           (\<lambda>s. Inr (b\<lparr>buf_store := s, readerIndex := r\<rparr>)))"

definition Buffer_shrink :: "buffer_t \<Rightarrow> nat \<Rightarrow> buffer_t res" where
  "Buffer_shrink b reserve =
     bind_res Buffer_new (\<lambda>temp.
       bind_res (Buffer_ensureWritableBytes temp (sz_add (Buffer_readableBytes b) reserve))
         (\<lambda>temp'. Inr (fst (Buffer_swap b temp'))))"

section \<open>Network-order integers\<close>

text \<open>
  \<open>htobe32\<close> followed by a copy of the four bytes of the result writes the value most
  significant byte first, whatever the host's order; \<open>memcpy\<close> and \<open>be32toh\<close> read it
  back. An \<open>int32_t\<close> is its 32-bit pattern.
\<close>

fun be_bytes :: "nat \<Rightarrow> nat \<Rightarrow> string" where
  "be_bytes 0 x = []"
| "be_bytes (Suc n) x = be_bytes n (x div 256) @ [char_of x]"

definition be_value :: "string \<Rightarrow> nat" where
  "be_value cs = foldl (\<lambda>a c. a * 256 + of_char c) 0 cs"

definition Buffer_appendInt32 :: "buffer_t \<Rightarrow> 32 word \<Rightarrow> buffer_t res" where
  "Buffer_appendInt32 b x = Buffer_append b (be_bytes 4 (unat x))"

definition Buffer_appendInt16 :: "buffer_t \<Rightarrow> 16 word \<Rightarrow> buffer_t res" where
  "Buffer_appendInt16 b x = Buffer_append b (be_bytes 2 (unat x))"

definition Buffer_appendInt8 :: "buffer_t \<Rightarrow> 8 word \<Rightarrow> buffer_t res" where
  "Buffer_appendInt8 b x = Buffer_append b (be_bytes 1 (unat x))"

definition Buffer_peekInt32 :: "buffer_t \<Rightarrow> 32 word res" where
  "Buffer_peekInt32 b =
     cpp_assert (4 \<le> Buffer_readableBytes b)
       (bind_res (mem_read (buf_store b) (Buffer_peek b) 4)
          (\<lambda>bytes. Inr (word_of_nat (be_value bytes))))"

definition Buffer_peekInt16 :: "buffer_t \<Rightarrow> 16 word res" where
  "Buffer_peekInt16 b =
     cpp_assert (2 \<le> Buffer_readableBytes b)
       (bind_res (mem_read (buf_store b) (Buffer_peek b) 2)
          (\<lambda>bytes. Inr (word_of_nat (be_value bytes))))"

definition Buffer_peekInt8 :: "buffer_t \<Rightarrow> 8 word res" where
  "Buffer_peekInt8 b =
     cpp_assert (1 \<le> Buffer_readableBytes b)
       (bind_res (mem_read (buf_store b) (Buffer_peek b) 1)
          (\<lambda>bytes. Inr (word_of_nat (be_value bytes))))"

definition Buffer_readInt32 :: "buffer_t \<Rightarrow> (32 word \<times> buffer_t) res" where
  "Buffer_readInt32 b =
     bind_res (Buffer_peekInt32 b) (\<lambda>r.
       bind_res (Buffer_retrieveInt32 b) (\<lambda>b'. Inr (r, b')))"

definition Buffer_readInt16 :: "buffer_t \<Rightarrow> (16 word \<times> buffer_t) res" where
  "Buffer_readInt16 b =
     bind_res (Buffer_peekInt16 b) (\<lambda>r.
       bind_res (Buffer_retrieveInt16 b) (\<lambda>b'. Inr (r, b')))"

definition Buffer_readInt8 :: "buffer_t \<Rightarrow> (8 word \<times> buffer_t) res" where
  "Buffer_readInt8 b =
     bind_res (Buffer_peekInt8 b) (\<lambda>r.
       bind_res (Buffer_retrieveInt8 b) (\<lambda>b'. Inr (r, b')))"

definition Buffer_prependInt32 :: "buffer_t \<Rightarrow> 32 word \<Rightarrow> buffer_t res" where
  "Buffer_prependInt32 b x = Buffer_prepend b (be_bytes 4 (unat x))"

definition Buffer_prependInt16 :: "buffer_t \<Rightarrow> 16 word \<Rightarrow> buffer_t res" where
  "Buffer_prependInt16 b x = Buffer_prepend b (be_bytes 2 (unat x))"

definition Buffer_prependInt8 :: "buffer_t \<Rightarrow> 8 word \<Rightarrow> buffer_t res" where
  "Buffer_prependInt8 b x = Buffer_prepend b (be_bytes 1 (unat x))"

section \<open>Reading from a descriptor\<close>

text \<open>
  \<open>readv\<close> is the kernel: its answer is an error number or the bytes it delivered, in
  order, first into the writable region and then into the 65536-byte \<open>extrabuf\<close>. The
  result is the new buffer, \<open>savedErrno\<close> when it was written, and the returned count.
\<close>

definition extrabuf_size :: nat where
  "extrabuf_size = 65536"

definition Buffer_readFd :: "buffer_t \<Rightarrow> (int + string) \<Rightarrow> (buffer_t \<times> int option \<times> int) res" where
  "Buffer_readFd b answer =
     (let writable = Buffer_writableBytes b in
      case answer of
        Inl err \<Rightarrow> Inr (b, Some err, -1)
      | Inr data \<Rightarrow>
          (let n = length data in
           bind_res (mem_write (buf_store b) (Buffer_beginWrite b) (take writable data)) (\<lambda>s.
             if n \<le> writable
             then Inr (b\<lparr>buf_store := s, writerIndex := sz_add (writerIndex b) n\<rparr>, None, int n)
             else bind_res (mem_read (take extrabuf_size (drop writable data)) 0 (n - writable))
               (\<lambda>extra. bind_res (Buffer_append (b\<lparr>buf_store := s, writerIndex := length s\<rparr>) extra)
                 (\<lambda>b'. Inr (b', None, int n))))))"

section \<open>Invariant and abstraction\<close>

text \<open>
  The class invariant, and the bytes the buffer holds. The last conjunct of the invariant
  makes \<open>retrieveAll\<close> safe: it moves both indices to \<open>kCheapPrepend\<close>.
\<close>

definition Buffer_inv :: "buffer_t \<Rightarrow> bool" where
  "Buffer_inv b \<longleftrightarrow> readerIndex b \<le> writerIndex b \<and> writerIndex b \<le> length (buf_store b)
     \<and> length (buf_store b) \<le> vec_max \<and> kCheapPrepend \<le> length (buf_store b)"

definition Buffer_content :: "buffer_t \<Rightarrow> string" where
  "Buffer_content b = Buffer_range b (readerIndex b) (writerIndex b)"

text \<open>Growing by \<open>n\<close> more bytes stays below \<open>vector::max_size()\<close>.\<close>

definition Buffer_room :: "buffer_t \<Rightarrow> nat \<Rightarrow> bool" where
  "Buffer_room b n \<longleftrightarrow> length (buf_store b) + n \<le> vec_max"

lemmas buffer_consts = kCheapPrepend_def kInitialSize_def

lemma length_content: "Buffer_inv b \<Longrightarrow> length (Buffer_content b) = writerIndex b - readerIndex b"
  by (auto simp: Buffer_inv_def Buffer_content_def Buffer_range_def intro!: min_absorb2 diff_le_mono)

lemma readableBytes_eq [simp]:
  "Buffer_inv b \<Longrightarrow> Buffer_readableBytes b = length (Buffer_content b)"
  by (subst length_content)
    (auto simp: Buffer_readableBytes_def Buffer_inv_def intro!: sz_sub_exact vec_max_less)

lemma writableBytes_eq:
  "Buffer_inv b \<Longrightarrow> Buffer_writableBytes b = length (buf_store b) - writerIndex b"
  by (auto simp: Buffer_writableBytes_def Buffer_inv_def intro!: sz_sub_exact vec_max_less)

lemma writer_eq: "Buffer_inv b \<Longrightarrow> writerIndex b = readerIndex b + length (Buffer_content b)"
  by (simp add: length_content Buffer_inv_def)

lemma Buffer_new_eq: "Buffer_new = Inr \<lparr>buf_store = replicate 1032 (CHR 0x00),
    readerIndex = 8, writerIndex = 8\<rparr>"
  by (simp add: Buffer_new_def buffer_consts Buffer_readableBytes_def Buffer_writableBytes_def
      Buffer_prependableBytes_def sz_sub_def size_mod_def)

lemma Buffer_new_ok:
  "returns Buffer_new (\<lambda>b. Buffer_inv b \<and> Buffer_content b = [] \<and> length (buf_store b) = 1032)"
  by (simp add: Buffer_new_eq Buffer_inv_def Buffer_content_def Buffer_range_def buffer_consts
      vec_max_def)

section \<open>Retrieving refines dropping\<close>

lemma retrieveAll_ok:
  "Buffer_inv b \<Longrightarrow> Buffer_inv (Buffer_retrieveAll b) \<and> Buffer_content (Buffer_retrieveAll b) = []"
  by (simp add: Buffer_inv_def Buffer_retrieveAll_def Buffer_content_def Buffer_range_def)

lemma retrieve_less:
  assumes inv: "Buffer_inv b" and n: "n < length (Buffer_content b)"
  shows "Buffer_retrieve b n = Inr (b\<lparr>readerIndex := readerIndex b + n\<rparr>)"
proof -
  from assms have "readerIndex b + n < size_mod"
    by (auto simp: length_content Buffer_inv_def vec_max_def size_mod_def)
  with assms show ?thesis by (simp add: Buffer_retrieve_def sz_add_exact)
qed

lemma retrieve_ok:
  assumes inv: "Buffer_inv b" and n: "n \<le> length (Buffer_content b)"
  shows "returns (Buffer_retrieve b n) (\<lambda>b'. Buffer_inv b' \<and>
           Buffer_content b' = drop n (Buffer_content b) \<and> buf_store b' = buf_store b)"
proof (cases "n < length (Buffer_content b)")
  case True
  with inv show ?thesis
    by (subst retrieve_less)
      (auto simp: Buffer_inv_def Buffer_content_def Buffer_range_def drop_take add.commute)
next
  case False
  with assms have "Buffer_retrieve b n = Inr (Buffer_retrieveAll b)"
    by (simp add: Buffer_retrieve_def)
  with assms False show ?thesis
    by (auto simp: retrieveAll_ok) (simp add: Buffer_retrieveAll_def)
qed

lemma retrieve_too_much:
  "Buffer_inv b \<Longrightarrow> length (Buffer_content b) < n \<Longrightarrow> Buffer_retrieve b n = Inl AssertFailed"
  by (simp add: Buffer_retrieve_def)

lemma read_content:
  assumes inv: "Buffer_inv b" and n: "n \<le> length (Buffer_content b)"
  shows "mem_read (buf_store b) (Buffer_peek b) n = Inr (take n (Buffer_content b))"
proof -
  from n have "n \<le> writerIndex b - readerIndex b" by (simp add: length_content [OF inv])
  with inv have "Buffer_peek b + n \<le> length (buf_store b)"
    and "take n (Buffer_content b) = take n (drop (readerIndex b) (buf_store b))"
    by (auto simp: Buffer_inv_def Buffer_peek_def Buffer_content_def Buffer_range_def min_absorb1)
  then show ?thesis by (simp add: Buffer_peek_def)
qed

lemma toString_ok [simp]: "Buffer_inv b \<Longrightarrow> Buffer_toString b = Inr (Buffer_content b)"
  by (simp add: Buffer_toString_def read_content)

lemma retrieveAsString_ok:
  assumes "Buffer_inv b" and "n \<le> length (Buffer_content b)"
  shows "returns (Buffer_retrieveAsString b n) (\<lambda>(s, b'). Buffer_inv b' \<and>
           s = take n (Buffer_content b) \<and> Buffer_content b' = drop n (Buffer_content b)
           \<and> buf_store b' = buf_store b)"
  using assms retrieve_ok [OF assms]
  by (auto simp: Buffer_retrieveAsString_def read_content returns_iff bind_res_eq_Inr)

section \<open>Appending refines concatenation\<close>

lemma makeSpace_ok:
  assumes inv: "Buffer_inv b" and room: "Buffer_room b n"
    and need: "Buffer_writableBytes b < n"
  shows "returns (Buffer_makeSpace b n) (\<lambda>b'. Buffer_inv b' \<and> Buffer_content b' = Buffer_content b
     \<and> n \<le> Buffer_writableBytes b' \<and> length (buf_store b') \<le> length (buf_store b) + n)"
proof -
  let ?r = "readerIndex b" and ?w = "writerIndex b" and ?s = "buf_store b"
  from inv have I: "?r \<le> ?w" "?w \<le> length ?s" "length ?s \<le> vec_max" "8 \<le> length ?s"
    by (auto simp: Buffer_inv_def buffer_consts)
  have wr: "Buffer_writableBytes b = length ?s - ?w" by (rule writableBytes_eq [OF inv])
  have sum1: "sz_add (Buffer_writableBytes b) (Buffer_prependableBytes b) = length ?s - ?w + ?r"
    using I by (simp add: wr Buffer_prependableBytes_def sz_add_exact size_mod_def vec_max_def)
  have sum2: "sz_add n kCheapPrepend = n + 8"
    using room by (simp add: Buffer_room_def sz_add_exact size_mod_def vec_max_def buffer_consts)
  have sum3: "sz_add ?w n = ?w + n"
    using room I by (simp add: Buffer_room_def sz_add_exact size_mod_def vec_max_def)
  show ?thesis
  proof (cases "length ?s - ?w + ?r < n + 8")
    case True
    from room I have fits: "?w + n \<le> vec_max" by (simp add: Buffer_room_def)
    from need wr I have grow: "length ?s \<le> ?w + n" by simp
    have "Buffer_makeSpace b n =
        Inr (b\<lparr>buf_store := ?s @ replicate (?w + n - length ?s) (CHR 0x00)\<rparr>)"
      using True by (simp add: Buffer_makeSpace_def sum1 sum2 sum3 vec_resize_grow [OF fits grow])
    moreover have "?w + n < size_mod" using fits by simp
    ultimately show ?thesis
      using I grow fits by (simp add: Buffer_inv_def Buffer_content_def Buffer_range_def
          Buffer_writableBytes_def sz_sub_exact buffer_consts)
  next
    case False
    let ?c = "Buffer_content b"
    have len: "length ?c = ?w - ?r" by (rule length_content [OF inv])
    from False need wr have pre: "8 < ?r" by simp
    have get: "mem_read ?s ?r (?w - ?r) = Inr ?c"
      using I by (simp add: Buffer_content_def Buffer_range_def)
    have put: "mem_write ?s 8 ?c = Inr (take 8 ?s @ ?c @ drop (8 + length ?c) ?s)"
      using I False len by (intro mem_write_ok) simp
    have sum4: "sz_add 8 (length ?c) = 8 + length ?c"
      using I len by (simp add: sz_add_exact size_mod_def vec_max_def)
    let ?b' = "b\<lparr>buf_store := take 8 ?s @ ?c @ drop (8 + length ?c) ?s, readerIndex := 8,
                 writerIndex := 8 + length ?c\<rparr>"
    have inv': "Buffer_inv ?b'" using I len pre by (simp add: Buffer_inv_def buffer_consts) arith
    have content': "Buffer_content ?b' = ?c"
      using I by (simp add: Buffer_content_def Buffer_range_def)
    have "Buffer_makeSpace b n = Inr ?b'"
      using False pre inv inv' content'
      by (simp add: Buffer_makeSpace_def sum1 sum2 get put sum4 Let_def)
        (simp add: buffer_consts put sum4)
    moreover have "Buffer_writableBytes ?b' = length ?s - (8 + length ?c)"
      using I len pre by (subst writableBytes_eq [OF inv']) simp
    then have "n \<le> Buffer_writableBytes ?b'"
      using I False len pre by linarith
    ultimately show ?thesis
      using inv' content' I len pre by simp
  qed
qed

lemma ensureWritable_ok:
  assumes "Buffer_inv b" and "Buffer_room b n"
  shows "returns (Buffer_ensureWritableBytes b n) (\<lambda>b'. Buffer_inv b' \<and>
     Buffer_content b' = Buffer_content b \<and> n \<le> Buffer_writableBytes b' \<and>
     length (buf_store b') \<le> length (buf_store b) + n)"
proof (cases "Buffer_writableBytes b < n")
  case True
  then show ?thesis
    using makeSpace_ok [OF assms True]
    by (auto simp: Buffer_ensureWritableBytes_def returns_iff)
next
  case False
  with assms show ?thesis by (simp add: Buffer_ensureWritableBytes_def)
qed

lemma append_ok:
  assumes inv: "Buffer_inv b" and room: "Buffer_room b (length s)"
  shows "returns (Buffer_append b s) (\<lambda>b'. Buffer_inv b' \<and> Buffer_content b' = Buffer_content b @ s
     \<and> length (buf_store b') \<le> length (buf_store b) + length s)"
proof -
  from ensureWritable_ok [OF assms] obtain b1 where b1:
    "Buffer_ensureWritableBytes b (length s) = Inr b1" "Buffer_inv b1"
    "Buffer_content b1 = Buffer_content b" "length s \<le> Buffer_writableBytes b1"
    "length (buf_store b1) \<le> length (buf_store b) + length s"
    by (auto elim: returnsE)
  let ?w = "writerIndex b1" and ?s = "buf_store b1"
  from b1(2) have I: "readerIndex b1 \<le> ?w" "?w \<le> length ?s" "length ?s \<le> vec_max"
    "kCheapPrepend \<le> length ?s" by (auto simp: Buffer_inv_def)
  from b1(2,4) have fit: "?w + length s \<le> length ?s"
    using I by (simp add: writableBytes_eq)
  have add: "sz_add ?w (length s) = ?w + length s"
    using fit I by (intro sz_add_exact) (simp add: size_mod_def vec_max_def)
  let ?b2 = "b1\<lparr>buf_store := take ?w ?s @ s @ drop (?w + length s) ?s,
      writerIndex := ?w + length s\<rparr>"
  have "Buffer_append b s = Inr ?b2"
    using fit by (simp add: Buffer_append_def b1(1) Buffer_beginWrite_def Buffer_hasWritten_def add)
  moreover have "Buffer_content ?b2 = Buffer_content b1 @ s"
    using I fit by (simp add: Buffer_content_def Buffer_range_def drop_take)
  moreover have "Buffer_inv ?b2"
    using I fit by (simp add: Buffer_inv_def)
  ultimately show ?thesis
    using fit b1(3,5) by simp
qed

section \<open>The buffer is a byte queue\<close>

lemma append_keeps_room:
  assumes "Buffer_inv b" and "Buffer_room b (length s + n)" and "Buffer_append b s = Inr b'"
  shows "Buffer_room b' n"
proof -
  have "Buffer_room b (length s)" using assms(2) by (simp add: Buffer_room_def)
  from append_ok [OF assms(1) this] assms(3) have "length (buf_store b') \<le> length (buf_store b) + length s"
    by simp
  with assms(2) show ?thesis by (simp add: Buffer_room_def)
qed

lemma retrieve_keeps_room:
  assumes "Buffer_room b m" and "Buffer_retrieveAsString b n = Inr (got, b')"
  shows "Buffer_room b' m"
  using assms
  by (auto simp: Buffer_retrieveAsString_def Buffer_retrieve_def Buffer_retrieveAll_def
      Buffer_room_def bind_res_eq_Inr split: if_splits)

interpretation bq: byte_queue Buffer_inv Buffer_content Buffer_room Buffer_append
  Buffer_retrieveAsString
proof unfold_locales
  fix q :: buffer_t and s :: string
  assume "Buffer_inv q" and "Buffer_room q (length s)"
  then show "returns (Buffer_append q s) (\<lambda>q'. Buffer_inv q' \<and> Buffer_content q' = Buffer_content q @ s)"
    by (rule returns_mono [OF append_ok]) auto
next
  fix q :: buffer_t and n :: nat
  assume "Buffer_inv q" and "n \<le> length (Buffer_content q)"
  then show "returns (Buffer_retrieveAsString q n) (\<lambda>(got, q'). Buffer_inv q' \<and>
      got = take n (Buffer_content q) \<and> Buffer_content q' = drop n (Buffer_content q))"
    by (rule returns_mono [OF retrieveAsString_ok]) auto
next
  fix q q' :: buffer_t and s :: string and n :: nat
  assume "Buffer_inv q" and "Buffer_room q (length s + n)" and "Buffer_append q s = Inr q'"
  then show "Buffer_room q' n" by (rule append_keeps_room)
next
  fix q :: buffer_t and n m :: nat
  assume "Buffer_room q n" and "m \<le> n"
  then show "Buffer_room q m" by (simp add: Buffer_room_def)
next
  fix q q' :: buffer_t and m n :: nat and got :: string
  assume "Buffer_room q m" and "Buffer_retrieveAsString q n = Inr (got, q')"
  then show "Buffer_room q' m" by (rule retrieve_keeps_room)
qed

text \<open>
  C8. Buffer::append and Buffer::retrieveAsString implement a byte queue: from any buffer
  that satisfies the class invariant, every sequence of appends and reads that never reads
  more than is there returns without a fault (no assertion of ensureWritableBytes or
  makeSpace fails, no store access is out of range, however the buffer grows or compacts),
  delivers the bytes in order, and what was read followed by what remains is what was there
  followed by what was appended.
\<close>
theorem Buffer_is_byte_queue:
  assumes "Buffer_inv b" and "Buffer_room b (length (puts ops))"
    and "queue_spec (Buffer_content b) ops = Some (got, left)"
  shows "returns (queue_run Buffer_append Buffer_retrieveAsString b ops)
      (\<lambda>(out, b'). out = got \<and> Buffer_content b' = left \<and> Buffer_inv b')
    \<and> got @ left = Buffer_content b @ puts ops"
  using bq.run_refines [OF assms] queue_spec_conserves [OF assms(3)] by blast

definition small_buffer :: buffer_t where
  "small_buffer = \<lparr>buf_store = replicate 12 (CHR 0x00), readerIndex = 8, writerIndex = 8\<rparr>"

lemma small_buffer_ok:
  "Buffer_inv small_buffer" "Buffer_content small_buffer = []"
  "n < 100 \<Longrightarrow> Buffer_room small_buffer n" "Buffer_prependableBytes small_buffer = 8"
  by (simp_all add: small_buffer_def Buffer_inv_def Buffer_content_def Buffer_range_def
      Buffer_room_def Buffer_prependableBytes_def buffer_consts vec_max_def)

text \<open>A buffer that holds a given text, for the examples.\<close>

definition text_buffer :: "string \<Rightarrow> buffer_t" where
  "text_buffer s = \<lparr>buf_store = replicate 8 (CHR 0x00) @ s, readerIndex = 8, writerIndex = 8 + length s\<rparr>"

lemma text_buffer_ok [simp]:
  "length s < 1000 \<Longrightarrow> Buffer_inv (text_buffer s)" "Buffer_content (text_buffer s) = s"
  "length s + n < 1000 \<Longrightarrow> Buffer_room (text_buffer s) n"
  by (simp_all add: text_buffer_def Buffer_inv_def Buffer_content_def Buffer_range_def
      Buffer_room_def buffer_consts vec_max_def)

theorem Buffer_is_byte_queue_witness:
  "returns (queue_run Buffer_append Buffer_retrieveAsString small_buffer
       [Put ''abc'', Get 2, Put ''defgh'', Get 6])
     (\<lambda>(out, b'). out = ''abcdefgh'' \<and> Buffer_content b' = [] \<and> Buffer_inv b')"
proof -
  have "queue_spec (Buffer_content small_buffer) [Put ''abc'', Get 2, Put ''defgh'', Get 6]
      = Some (''abcdefgh'', [])"
    by (simp add: small_buffer_ok)
  with small_buffer_ok(1) have "returns (queue_run Buffer_append Buffer_retrieveAsString
      small_buffer [Put ''abc'', Get 2, Put ''defgh'', Get 6])
      (\<lambda>(out, b'). out = ''abcdefgh'' \<and> Buffer_content b' = [] \<and> Buffer_inv b')
      \<and> ''abcdefgh'' @ [] = Buffer_content small_buffer @ puts [Put ''abc'', Get 2, Put ''defgh'', Get 6]"
    by (intro Buffer_is_byte_queue) (simp_all add: small_buffer_ok)
  then show ?thesis by blast
qed

section \<open>Searching the readable region\<close>

lemma range_content [simp]: "Buffer_range b (Buffer_peek b) (Buffer_beginWrite b) = Buffer_content b"
  by (simp add: Buffer_content_def Buffer_peek_def Buffer_beginWrite_def)

lemma findCRLF_eq:
  assumes "Buffer_inv b"
  shows "Buffer_findCRLF b =
    (if search_in (Buffer_content b) CRLF = length (Buffer_content b) then None
     else Some (Buffer_peek b + search_in (Buffer_content b) CRLF))"
  using writer_eq [OF assms] by (simp add: Buffer_findCRLF_def Let_def)
    (simp add: Buffer_peek_def Buffer_beginWrite_def)

lemma retrieveUntil_eq:
  assumes "Buffer_inv b" and "n \<le> length (Buffer_content b)"
  shows "Buffer_retrieveUntil b (Buffer_peek b + n) = Buffer_retrieve b n"
  using assms writer_eq [OF assms(1)]
  by (simp add: Buffer_retrieveUntil_def Buffer_beginWrite_def Buffer_peek_def)

lemma content_at:
  assumes "Buffer_inv b" and "i \<le> length (Buffer_content b)"
  shows "Buffer_range b (Buffer_peek b) (Buffer_peek b + i) = take i (Buffer_content b)"
proof -
  have "i \<le> writerIndex b - readerIndex b" using assms by (simp add: length_content)
  then show ?thesis by (simp add: Buffer_range_def Buffer_peek_def Buffer_content_def min_absorb1)
qed

lemma findEOL_eq:
  assumes "Buffer_inv b"
  shows "Buffer_findEOL b = map_option ((+) (Buffer_peek b)) (memchr_in (Buffer_content b) (CHR 0x0A))"
  using content_at [OF assms, of "length (Buffer_content b)"] assms
  by (simp add: Buffer_findEOL_def)

section \<open>Prepending\<close>

lemma prepend_ok:
  assumes inv: "Buffer_inv b" and fit: "length s \<le> Buffer_prependableBytes b"
  shows "returns (Buffer_prepend b s) (\<lambda>b'. Buffer_inv b' \<and> Buffer_content b' = s @ Buffer_content b
           \<and> Buffer_prependableBytes b' = Buffer_prependableBytes b - length s)"
proof -
  let ?r = "readerIndex b" and ?w = "writerIndex b" and ?s = "buf_store b"
  let ?k = "?r - length s"
  from inv have I: "?r \<le> ?w" "?w \<le> length ?s" "length ?s \<le> vec_max" "kCheapPrepend \<le> length ?s"
    by (auto simp: Buffer_inv_def)
  from fit have f: "length s \<le> ?r" by (simp add: Buffer_prependableBytes_def)
  have sub: "sz_sub ?r (length s) = ?k"
    using I f by (intro sz_sub_exact) (simp_all add: size_mod_def vec_max_def)
  let ?b' = "b\<lparr>buf_store := take ?k ?s @ s @ drop (?k + length s) ?s, readerIndex := ?k\<rparr>"
  have "Buffer_prepend b s = Inr ?b'"
    using I f fit by (simp add: Buffer_prepend_def sub Let_def)
  moreover have "Buffer_inv ?b'" using I f by (simp add: Buffer_inv_def)
  moreover have "Buffer_content ?b' = s @ Buffer_content b"
    using I f by (simp add: Buffer_content_def Buffer_range_def)
  ultimately show ?thesis using fit by (simp add: Buffer_prependableBytes_def)
qed

section \<open>Integers in network order\<close>

lemma length_be_bytes [simp]: "length (be_bytes n x) = n"
  by (induction n arbitrary: x) (auto simp: be_bytes.simps)

lemma be_value_snoc: "be_value (cs @ [c]) = be_value cs * 256 + of_char c"
  by (simp add: be_value_def)

declare be_bytes.simps [simp del]

lemma of_char_char_of_nat: "(of_char (char_of (x::nat)) :: nat) = x mod 256"
  by simp

lemma be_value_bytes: "be_value (be_bytes n x) = x mod 256 ^ n"
proof (induction n arbitrary: x)
  case 0
  then show ?case by (simp add: be_value_def be_bytes.simps)
next
  case (Suc n)
  have "be_value (be_bytes (Suc n) x) = (x div 256 mod 256 ^ n) * 256 + x mod 256"
    by (simp add: be_value_snoc Suc be_bytes.simps)
  also have "\<dots> = x mod (256 * 256 ^ n)"
    by (simp add: mod_mult2_eq mult.commute)
  finally show ?case by simp
qed

lemma be_value_word32: "word_of_nat (be_value (be_bytes 4 (unat (x :: 32 word)))) = x"
proof -
  have "unat x < 256 ^ 4" using unsigned_less [of x, where ?'a = nat] by simp
  then show ?thesis by (simp add: be_value_bytes)
qed

lemma be_value_word16: "word_of_nat (be_value (be_bytes 2 (unat (x :: 16 word)))) = x"
proof -
  have "unat x < 256 ^ 2" using unsigned_less [of x, where ?'a = nat] by simp
  then show ?thesis by (simp add: be_value_bytes)
qed

lemma be_value_word8: "word_of_nat (be_value (be_bytes (Suc 0) (unat (x :: 8 word)))) = x"
proof -
  have "unat x < 256 ^ 1" using unsigned_less [of x, where ?'a = nat] by simp
  then show ?thesis by (simp add: be_value_bytes)
qed

lemma take_be_bytes: "take n (be_bytes n x @ s) = be_bytes n x" "drop n (be_bytes n x @ s) = s"
  by simp_all

lemma readInt32_ok:
  assumes inv: "Buffer_inv b" and c: "Buffer_content b = be_bytes 4 (unat x) @ rest"
  shows "returns (Buffer_readInt32 b) (\<lambda>(y, b'). y = x \<and> Buffer_inv b' \<and> Buffer_content b' = rest)"
  using retrieve_ok [OF inv, of 4] inv c
  by (auto simp: Buffer_readInt32_def Buffer_peekInt32_def Buffer_retrieveInt32_def read_content
      be_value_word32 take_be_bytes returns_iff)

lemma readInt16_ok:
  assumes inv: "Buffer_inv b" and c: "Buffer_content b = be_bytes 2 (unat x) @ rest"
  shows "returns (Buffer_readInt16 b) (\<lambda>(y, b'). y = x \<and> Buffer_inv b' \<and> Buffer_content b' = rest)"
  using retrieve_ok [OF inv, of 2] inv c
  by (auto simp: Buffer_readInt16_def Buffer_peekInt16_def Buffer_retrieveInt16_def read_content
      be_value_word16 take_be_bytes returns_iff)

lemma readInt8_ok:
  assumes inv: "Buffer_inv b" and c: "Buffer_content b = be_bytes 1 (unat x) @ rest"
  shows "returns (Buffer_readInt8 b) (\<lambda>(y, b'). y = x \<and> Buffer_inv b' \<and> Buffer_content b' = rest)"
  using retrieve_ok [OF inv, of 1] inv c
  by (auto simp: Buffer_readInt8_def Buffer_peekInt8_def Buffer_retrieveInt8_def read_content
      be_value_word8 take_be_bytes returns_iff)

text \<open>
  C33. The network-order integers round trip: a 32-, a 16- and an 8-bit integer appended to an
  empty buffer are read back with the same values, leaving it empty; and an integer
  prepended into the reserved space is read back first, leaving the old contents.
\<close>
theorem Buffer_integers_round_trip:
  assumes "Buffer_inv b" and "Buffer_room b 7" and "Buffer_content b = []"
    and "Buffer_inv h" and "4 \<le> Buffer_prependableBytes h"
  shows "returns
      (bind_res (Buffer_appendInt32 b x) (\<lambda>b1. bind_res (Buffer_appendInt16 b1 y) (\<lambda>b2.
        bind_res (Buffer_appendInt8 b2 z) (\<lambda>b3. bind_res (Buffer_readInt32 b3) (\<lambda>(x', b4).
          bind_res (Buffer_readInt16 b4) (\<lambda>(y', b5). bind_res (Buffer_readInt8 b5)
            (\<lambda>(z', b6). Inr (x', y', z', b6))))))))
      (\<lambda>(x', y', z', b6). x' = x \<and> y' = y \<and> z' = z \<and> Buffer_content b6 = [])
    \<and> returns (bind_res (Buffer_prependInt32 h x) Buffer_readInt32)
        (\<lambda>(x', h'). x' = x \<and> Buffer_content h' = Buffer_content h)"
proof
  have "Buffer_room b (length (be_bytes 4 (unat x)) + 3)" using assms(2) by simp
  with assms(1) obtain b1 where b1: "Buffer_append b (be_bytes 4 (unat x)) = Inr b1" "Buffer_inv b1"
    "Buffer_content b1 = Buffer_content b @ be_bytes 4 (unat x)" "Buffer_room b1 3"
    by (rule bq.put_step)
  then have "Buffer_room b1 (length (be_bytes 2 (unat y)) + 1)" by simp
  with b1(2) obtain b2 where b2: "Buffer_append b1 (be_bytes 2 (unat y)) = Inr b2" "Buffer_inv b2"
    "Buffer_content b2 = Buffer_content b1 @ be_bytes 2 (unat y)" "Buffer_room b2 1"
    by (rule bq.put_step)
  then have "Buffer_room b2 (length (be_bytes 1 (unat z)) + 0)" by simp
  with b2(2) obtain b3 where b3: "Buffer_append b2 (be_bytes 1 (unat z)) = Inr b3" "Buffer_inv b3"
    "Buffer_content b3 = Buffer_content b2 @ be_bytes 1 (unat z)"
    by (rule bq.put_step)
  have "Buffer_content b3 = be_bytes 4 (unat x) @ be_bytes 2 (unat y) @ be_bytes 1 (unat z)"
    using b1(3) b2(3) b3(3) assms(3) by simp
  from readInt32_ok [OF b3(2) this] obtain b4 where b4: "Buffer_readInt32 b3 = Inr (x, b4)"
    "Buffer_inv b4" "Buffer_content b4 = be_bytes 2 (unat y) @ be_bytes 1 (unat z)"
    by (auto elim!: returnsE)
  from readInt16_ok [OF b4(2,3)] obtain b5 where b5: "Buffer_readInt16 b4 = Inr (y, b5)"
    "Buffer_inv b5" "Buffer_content b5 = be_bytes 1 (unat z)"
    by (auto elim!: returnsE)
  from readInt8_ok [OF b5(2), of z "[]"] b5(3) obtain b6 where b6:
    "Buffer_readInt8 b5 = Inr (z, b6)" "Buffer_content b6 = []"
    by (auto elim!: returnsE)
  show "returns
      (bind_res (Buffer_appendInt32 b x) (\<lambda>b1. bind_res (Buffer_appendInt16 b1 y) (\<lambda>b2.
        bind_res (Buffer_appendInt8 b2 z) (\<lambda>b3. bind_res (Buffer_readInt32 b3) (\<lambda>(x', b4).
          bind_res (Buffer_readInt16 b4) (\<lambda>(y', b5). bind_res (Buffer_readInt8 b5)
            (\<lambda>(z', b6). Inr (x', y', z', b6))))))))
      (\<lambda>(x', y', z', b6). x' = x \<and> y' = y \<and> z' = z \<and> Buffer_content b6 = [])"
    using b1(1) b2(1) b3(1) b4(1) b5(1) b6
    by (simp add: Buffer_appendInt32_def Buffer_appendInt16_def Buffer_appendInt8_def)
next
  have "length (be_bytes 4 (unat x)) \<le> Buffer_prependableBytes h" using assms(5) by simp
  from prepend_ok [OF assms(4) this] show "returns (bind_res (Buffer_prependInt32 h x) Buffer_readInt32)
        (\<lambda>(x', h'). x' = x \<and> Buffer_content h' = Buffer_content h)"
    unfolding Buffer_prependInt32_def
    by (rule returns_bind) (auto intro!: returns_mono [OF readInt32_ok])
qed

theorem Buffer_integers_round_trip_witness:
  "returns (bind_res (Buffer_prependInt32 small_buffer 0xFFFFFFFE) Buffer_readInt32)
     (\<lambda>(x', h'). sint x' = -2 \<and> Buffer_content h' = [])"
proof -
  have "returns (bind_res (Buffer_prependInt32 small_buffer 0xFFFFFFFE) Buffer_readInt32)
      (\<lambda>(x', h'). x' = 0xFFFFFFFE \<and> Buffer_content h' = Buffer_content small_buffer)"
    by (rule Buffer_integers_round_trip [THEN conjunct2, of small_buffer])
      (simp_all add: small_buffer_ok)
  then show ?thesis by (rule returns_mono) (auto simp: small_buffer_ok)
qed

section \<open>Reading from a descriptor\<close>

lemma readFd_direct:
  assumes inv: "Buffer_inv b" and fit: "length data \<le> Buffer_writableBytes b"
  shows "returns (Buffer_readFd b (Inr data)) (\<lambda>(b', err, n). Buffer_inv b' \<and>
      Buffer_content b' = Buffer_content b @ data \<and> err = None \<and> n = int (length data)
      \<and> length (buf_store b') \<le> length (buf_store b) + length data)"
proof -
  let ?r = "readerIndex b" and ?w = "writerIndex b" and ?s = "buf_store b"
  from inv have I: "?r \<le> ?w" "?w \<le> length ?s" "length ?s \<le> vec_max" "kCheapPrepend \<le> length ?s"
    by (auto simp: Buffer_inv_def)
  have f: "?w + length data \<le> length ?s" using fit I by (simp add: writableBytes_eq [OF inv])
  have add: "sz_add ?w (length data) = ?w + length data"
    using f I by (intro sz_add_exact) (simp add: size_mod_def vec_max_def)
  let ?b' = "b\<lparr>buf_store := take ?w ?s @ data @ drop (?w + length data) ?s,
      writerIndex := ?w + length data\<rparr>"
  have "Buffer_readFd b (Inr data) = Inr (?b', None, int (length data))"
    using f fit by (simp add: Buffer_readFd_def Let_def Buffer_beginWrite_def add)
  moreover have "Buffer_inv ?b'" using I f by (simp add: Buffer_inv_def)
  moreover have "Buffer_content ?b' = Buffer_content b @ data"
    using I f by (simp add: Buffer_content_def Buffer_range_def drop_take)
  ultimately show ?thesis using f by simp
qed

lemma fill_store:
  assumes inv: "Buffer_inv b" and len: "length d = Buffer_writableBytes b"
  defines "b' \<equiv> b\<lparr>buf_store := take (writerIndex b) (buf_store b) @ d, writerIndex := length (buf_store b)\<rparr>"
  shows "Buffer_inv b'" and "Buffer_content b' = Buffer_content b @ d"
    and "length (buf_store b') = length (buf_store b)"
proof -
  from inv have I: "readerIndex b \<le> writerIndex b" "writerIndex b \<le> length (buf_store b)"
    "length (buf_store b) \<le> vec_max" "kCheapPrepend \<le> length (buf_store b)"
    by (auto simp: Buffer_inv_def)
  have len': "length d = length (buf_store b) - writerIndex b"
    using len by (simp add: writableBytes_eq [OF inv])
  show "Buffer_inv b'" "Buffer_content b' = Buffer_content b @ d"
    "length (buf_store b') = length (buf_store b)"
    using I len' by (simp_all add: b'_def Buffer_inv_def Buffer_content_def Buffer_range_def drop_take)
qed

lemma readFd_spill:
  assumes inv: "Buffer_inv b" and room: "Buffer_room b (length data)"
    and big: "Buffer_writableBytes b < length data"
    and cap: "length data \<le> Buffer_writableBytes b + extrabuf_size"
  shows "returns (Buffer_readFd b (Inr data)) (\<lambda>(b', err, n). Buffer_inv b' \<and>
      Buffer_content b' = Buffer_content b @ data \<and> err = None \<and> n = int (length data)
      \<and> length (buf_store b') \<le> length (buf_store b) + length data)"
proof -
  let ?v = "Buffer_writableBytes b" and ?w = "writerIndex b" and ?s = "buf_store b"
  let ?d = "take ?v data" and ?e = "drop ?v data"
  have w: "?w + ?v = length ?s" using inv by (simp add: writableBytes_eq) (simp add: Buffer_inv_def)
  have ld: "length ?d = ?v" using big by simp
  let ?b1 = "b\<lparr>buf_store := take ?w ?s @ ?d, writerIndex := length ?s\<rparr>"
  note b1 = fill_store [OF inv ld]
  have "Buffer_room ?b1 (length ?e)" using room b1(3) by (simp add: Buffer_room_def)
  from append_ok [OF b1(1) this] obtain b2 where b2: "Buffer_append ?b1 ?e = Inr b2" "Buffer_inv b2"
    "Buffer_content b2 = Buffer_content ?b1 @ ?e" "length (buf_store b2) \<le> length (buf_store ?b1) + length ?e"
    by (auto elim: returnsE)
  have put: "mem_write ?s ?w ?d = Inr (take ?w ?s @ ?d)"
    using w ld by simp
  have lstore: "length (take ?w ?s @ ?d) = length ?s" using b1(3) by simp
  have get: "mem_read (take extrabuf_size ?e) 0 (length data - ?v) = Inr ?e"
    using cap by simp
  have "Buffer_readFd b (Inr data) = Inr (b2, None, int (length data))"
    using big b2(1) lstore
    by (simp add: Buffer_readFd_def Let_def Buffer_beginWrite_def put get del: take_append length_append)
  then show ?thesis using b2(2-4) b1(2,3) by simp
qed

lemma readFd_ok:
  assumes "Buffer_inv b" and "Buffer_room b (length data)"
    and "length data \<le> Buffer_writableBytes b + extrabuf_size"
  shows "returns (Buffer_readFd b (Inr data)) (\<lambda>(b', err, n). Buffer_inv b' \<and>
      Buffer_content b' = Buffer_content b @ data \<and> err = None \<and> n = int (length data)
      \<and> length (buf_store b') \<le> length (buf_store b) + length data)"
  using readFd_direct [OF assms(1)] readFd_spill [OF assms(1,2) _ assms(3)]
  by (cases "length data \<le> Buffer_writableBytes b") (auto simp: not_le)

text \<open>
  C22. Buffer::readFd appends exactly the bytes readv(2) delivered, in order, whether they fit
  the writable region or spill into the stack buffer and are appended from there; the class
  invariant is kept and the byte count is returned. An error of readv leaves the buffer as it
  was and reports the errno. The only assumption on the kernel is that it delivers at most
  what the two iovecs can hold.
\<close>
theorem Buffer_readFd_appends:
  assumes "Buffer_inv b" and "Buffer_room b (length data)"
    and "length data \<le> Buffer_writableBytes b + extrabuf_size"
  shows "returns (Buffer_readFd b (Inr data)) (\<lambda>(b', err, n). Buffer_inv b' \<and>
      Buffer_content b' = Buffer_content b @ data \<and> err = None \<and> n = int (length data))
    \<and> Buffer_readFd b (Inl e) = Inr (b, Some e, -1)"
  using returns_mono [OF readFd_ok [OF assms]] by (force simp: Buffer_readFd_def)

theorem Buffer_readFd_appends_witness:
  "returns (Buffer_readFd small_buffer (Inr ''0123456789'')) (\<lambda>(b', err, n).
      Buffer_content b' = ''0123456789'' \<and> n = 10)"
proof -
  have "returns (Buffer_readFd small_buffer (Inr ''0123456789'')) (\<lambda>(b', err, n). Buffer_inv b' \<and>
      Buffer_content b' = Buffer_content small_buffer @ ''0123456789'' \<and> err = None
      \<and> n = int (length ''0123456789''))"
    by (rule Buffer_readFd_appends [THEN conjunct1])
      (simp_all add: small_buffer_ok extrabuf_size_def)
  then show ?thesis by (rule returns_mono) (auto simp: small_buffer_ok)
qed

section \<open>Shrinking\<close>

lemma fresh_ensure:
  assumes n: "n \<le> vec_max - 1032"
  shows "returns (bind_res Buffer_new (\<lambda>t. Buffer_ensureWritableBytes t n))
    (\<lambda>b. Buffer_inv b \<and> Buffer_content b = [] \<and> Buffer_writableBytes b = max 1024 n)"
proof -
  let ?t = "\<lparr>buf_store = replicate 1032 (CHR 0x00), readerIndex = 8, writerIndex = 8\<rparr>"
  have t: "Buffer_inv ?t" "Buffer_content ?t = []" "length (buf_store ?t) = 1032"
    using Buffer_new_ok by (simp_all add: Buffer_new_eq)
  have wt: "Buffer_writableBytes ?t = 1024" using writableBytes_eq [OF t(1)] by simp
  have pt: "Buffer_prependableBytes ?t = 8" by (simp add: Buffer_prependableBytes_def)
  show ?thesis
  proof (cases "1024 < n")
    case True
    let ?b = "\<lparr>buf_store = replicate (8 + n) (CHR 0x00), readerIndex = 8, writerIndex = 8\<rparr>"
    have a: "sz_add 1024 8 = 1032" "sz_add n kCheapPrepend = n + 8" "sz_add 8 n = 8 + n"
      using n by (simp_all add: sz_add_def size_mod_def vec_max_def buffer_consts)
    have r: "vec_resize (CHR 0x00) (replicate 1032 (CHR 0x00)) (8 + n) = Inr (replicate (8 + n) (CHR 0x00))"
      using True n by (simp add: vec_resize_def vec_max_def flip: replicate_add)
    have "Buffer_makeSpace ?t n = Inr ?b"
      using True by (simp add: Buffer_makeSpace_def wt pt a r)
    moreover have b: "Buffer_inv ?b" using n True
      by (simp add: Buffer_inv_def buffer_consts vec_max_def)
    moreover have "Buffer_writableBytes ?b = n" using writableBytes_eq [OF b] by simp
    ultimately show ?thesis using True
      by (simp add: Buffer_new_eq Buffer_ensureWritableBytes_def wt Buffer_content_def
          Buffer_range_def)
  next
    case False
    then show ?thesis using t
      by (simp add: Buffer_new_eq Buffer_ensureWritableBytes_def wt)
  qed
qed

text \<open>
  Buffer::shrink resets the buffer, as its header comment documents: the readable region
  becomes empty (the bytes it held are dropped) and the writable region is the larger of
  kInitialSize and readableBytes() + reserve.
\<close>
lemma Buffer_shrink_resets:
  assumes "Buffer_inv b" and "length (Buffer_content b) + reserve \<le> vec_max - 1032"
  shows "returns (Buffer_shrink b reserve) (\<lambda>b'. Buffer_inv b' \<and> Buffer_content b' = []
    \<and> Buffer_writableBytes b' = max kInitialSize (length (Buffer_content b) + reserve))"
proof -
  let ?n = "length (Buffer_content b) + reserve"
  have n: "sz_add (Buffer_readableBytes b) reserve = ?n"
    using assms by (simp add: sz_add_exact size_mod_def vec_max_def)
  have "Buffer_shrink b reserve = bind_res (bind_res Buffer_new (\<lambda>t. Buffer_ensureWritableBytes t ?n))
      (\<lambda>t. Inr (fst (Buffer_swap b t)))"
    by (simp add: Buffer_shrink_def bind_res_assoc n)
  then show ?thesis
    using fresh_ensure [OF assms(2)]
    by (auto simp: returns_iff Buffer_swap_def Buffer_inv_def Buffer_content_def Buffer_range_def
        Buffer_writableBytes_def buffer_consts)
qed

lemma Buffer_shrink_resets_instance:
  "returns (Buffer_shrink \<lparr>buf_store = ''abcdefghij'', readerIndex = 0, writerIndex = 10\<rparr> 5)
     (\<lambda>b'. Buffer_content b' = [] \<and> Buffer_writableBytes b' = 1024)"
  using Buffer_shrink_resets [of "\<lparr>buf_store = ''abcdefghij'', readerIndex = 0, writerIndex = 10\<rparr>" 5]
  by (auto simp: Buffer_inv_def Buffer_content_def Buffer_range_def buffer_consts vec_max_def
      elim!: returns_mono)

end
