(* ===== verification/Http_Context.thy ===== *)
theory Http_Context
  imports Http_Request Buffer "HOL-Library.Sublist"
begin

text \<open>
  \<open>http/HttpContext.h\<close> and \<open>http/HttpContext.cpp\<close>: the incremental request parser. The
  parse loop may run forever (a body state the code never leaves), so it is a partial
  function whose value \<open>None\<close> means that the call does not return; \<open>parse_text\<close> is its
  specification on the readable bytes alone.
\<close>

section \<open>The parser\<close>

datatype parse_state = kExpectRequestLine | kExpectHeader | kExpectBody | kGotAll

record http_context =
  ctx_state :: parse_state
  ctx_request :: http_request

definition HttpContext_new :: http_context where
  "HttpContext_new = \<lparr>ctx_state = kExpectRequestLine, ctx_request = HttpRequest_new\<rparr>"

definition HttpContext_processRequestLine ::
    "http_request \<Rightarrow> string \<Rightarrow> (http_request \<times> bool) res" where
  "HttpContext_processRequestLine r line =
     (let endp = length line; space = find_in line (CHR '' '') in
      if space = endp then Inr (r, False)
      else bind_res (HttpRequest_setMethod r (take space line)) (\<lambda>(r1, valid).
        if \<not> valid then Inr (r1, False)
        else
          (let start = space + 1;
               space2 = start + find_in (drop start line) (CHR '' '');
               question = start + find_in (take (space2 - start) (drop start line)) (CHR ''?'');
               r2 = (if space2 \<noteq> endp
                     then (if question \<noteq> space2
                           then HttpRequest_setQuery
                                  (HttpRequest_setPath r1 (take (question - start) (drop start line)))
                                  (take (space2 - question) (drop question line))
                           else HttpRequest_setPath r1 (take (space2 - start) (drop start line)))
                     else r1);
               start2 = space2 + 1
           in Inr (r2, int endp - int start2 = 8 \<and> drop start2 line = ''HTTP/1.1''))))"

text \<open>One iteration of the \<open>while (hasMore)\<close> loop: the new context, buffer, \<open>isOk\<close> and
  \<open>hasMore\<close>.\<close>

definition parse_step :: "int \<Rightarrow> http_context \<Rightarrow> buffer_t \<Rightarrow> bool \<Rightarrow>
    (http_context \<times> buffer_t \<times> bool \<times> bool) res" where
  "parse_step t ctx b isOk =
     (case ctx_state ctx of
        kExpectRequestLine \<Rightarrow>
          (case Buffer_findCRLF b of
             Some crlf \<Rightarrow>
               bind_res (HttpContext_processRequestLine (ctx_request ctx)
                   (Buffer_range b (Buffer_peek b) crlf)) (\<lambda>(r, ok).
                 if ok then
                   bind_res (Buffer_retrieveUntil b (crlf + 2)) (\<lambda>b'.
                     Inr (ctx\<lparr>ctx_request := HttpRequest_setReceiveTime r t,
                              ctx_state := kExpectHeader\<rparr>, b', True, True))
                 else Inr (ctx\<lparr>ctx_request := r\<rparr>, b, False, False))
           | None \<Rightarrow> Inr (ctx, b, isOk, False))
      | kExpectHeader \<Rightarrow>
          (case Buffer_findCRLF b of
             Some crlf \<Rightarrow>
               (let line = Buffer_range b (Buffer_peek b) crlf;
                    colon = Buffer_peek b + find_in line (CHR '':'');
                    (ctx', more) =
                      (if colon \<noteq> crlf
                       then (ctx\<lparr>ctx_request := HttpRequest_addHeader (ctx_request ctx) line
                                (colon - Buffer_peek b)\<rparr>, True)
                       else (ctx\<lparr>ctx_state := kGotAll\<rparr>, False))
                in bind_res (Buffer_retrieveUntil b (crlf + 2)) (\<lambda>b'. Inr (ctx', b', isOk, more)))
           | None \<Rightarrow> Inr (ctx, b, isOk, False))
      | kExpectBody \<Rightarrow> Inr (ctx, b, isOk, True)
      | kGotAll \<Rightarrow> Inr (ctx, b, isOk, True))"

partial_function (option) parse_loop :: "int \<Rightarrow> http_context \<Rightarrow> buffer_t \<Rightarrow> bool \<Rightarrow>
    (http_context \<times> buffer_t \<times> bool) res option" where
  "parse_loop t ctx b isOk =
     (case parse_step t ctx b isOk of
        Inl e \<Rightarrow> Some (Inl e)
      | Inr (ctx', b', isOk', hasMore) \<Rightarrow>
          if hasMore then parse_loop t ctx' b' isOk' else Some (Inr (ctx', b', isOk')))"

definition HttpContext_parseRequest :: "http_context \<Rightarrow> buffer_t \<Rightarrow> int \<Rightarrow>
    (http_context \<times> buffer_t \<times> bool) res option" where
  "HttpContext_parseRequest ctx b t = parse_loop t ctx b True"

definition HttpContext_gotAll :: "http_context \<Rightarrow> bool" where
  "HttpContext_gotAll ctx \<longleftrightarrow> ctx_state ctx = kGotAll"

definition HttpContext_reset :: "http_context \<Rightarrow> http_context" where
  "HttpContext_reset ctx =
     ctx\<lparr>ctx_state := kExpectRequestLine,
         ctx_request := fst (HttpRequest_swap (ctx_request ctx) HttpRequest_new)\<rparr>"

section \<open>Specification on the readable bytes\<close>

function parse_text :: "int \<Rightarrow> http_context \<Rightarrow> string \<Rightarrow> (http_context \<times> string \<times> bool) res option" where
  "parse_text t ctx s =
     (let k = search_in s CRLF in
      case ctx_state ctx of
        kExpectRequestLine \<Rightarrow>
          if k = length s then Some (Inr (ctx, s, True))
          else (case HttpContext_processRequestLine (ctx_request ctx) (take k s) of
                  Inl e \<Rightarrow> Some (Inl e)
                | Inr (r, ok) \<Rightarrow>
                    if ok then parse_text t (ctx\<lparr>ctx_request := HttpRequest_setReceiveTime r t,
                                                 ctx_state := kExpectHeader\<rparr>) (drop (k + 2) s)
                    else Some (Inr (ctx\<lparr>ctx_request := r\<rparr>, s, False)))
      | kExpectHeader \<Rightarrow>
          if k = length s then Some (Inr (ctx, s, True))
          else if find_in (take k s) (CHR '':'') \<noteq> k
          then parse_text t (ctx\<lparr>ctx_request := HttpRequest_addHeader (ctx_request ctx) (take k s)
                                (find_in (take k s) (CHR '':''))\<rparr>) (drop (k + 2) s)
          else Some (Inr (ctx\<lparr>ctx_state := kGotAll\<rparr>, drop (k + 2) s, True))
      | kExpectBody \<Rightarrow> None
      | kGotAll \<Rightarrow> None)"
  by pat_completeness auto
termination
proof (relation "measure (\<lambda>(t, ctx, s). length s)", goal_cases)
  case 1
  show ?case by simp
next
  case (2 t ctx s k)
  then have "s \<noteq> []" by auto
  then show ?case by simp
next
  case (3 t ctx s k)
  then have "s \<noteq> []" by auto
  then show ?case by simp
qed

declare parse_text.simps [simp del]

section \<open>The parser refines its specification\<close>

text \<open>The parser's outcome with the buffer replaced by its readable bytes.\<close>

definition parse_abs :: "(http_context \<times> buffer_t \<times> bool) res option \<Rightarrow>
    (http_context \<times> string \<times> bool) res option" where
  "parse_abs = map_option (map_sum id (\<lambda>(ctx, b, ok). (ctx, Buffer_content b, ok)))"

lemma parse_abs_simps [simp]:
  "parse_abs None = None"
  "parse_abs (Some (Inl e)) = Some (Inl e)"
  "parse_abs (Some (Inr (ctx, b, ok))) = Some (Inr (ctx, Buffer_content b, ok))"
  by (simp_all add: parse_abs_def)

lemma parse_abs_eq_Inr:
  "parse_abs r = Some (Inr (c, s, ok)) \<longleftrightarrow> (\<exists>b. r = Some (Inr (c, b, ok)) \<and> Buffer_content b = s)"
  by (cases r rule: option.exhaust; cases "the r") (auto simp: parse_abs_def)

lemma parse_abs_eq_Inl: "parse_abs r = Some (Inl e) \<longleftrightarrow> r = Some (Inl e)"
  by (cases r rule: option.exhaust; cases "the r") (auto simp: parse_abs_def)

lemma parse_loop_stuck:
  assumes "ctx_state ctx = kExpectBody \<or> ctx_state ctx = kGotAll"
  shows "parse_loop t ctx b isOk = None"
proof (rule ccontr)
  assume "parse_loop t ctx b isOk \<noteq> None"
  then obtain r where ret: "parse_loop t ctx b isOk = Some r" by blast
  have "\<not> (ctx_state ctx = kExpectBody \<or> ctx_state ctx = kGotAll)"
  proof (rule parse_loop.raw_induct [where P = "\<lambda>t ctx b isOk r.
      \<not> (ctx_state ctx = kExpectBody \<or> ctx_state ctx = kGotAll)", OF _ ret])
    fix f t ctx b isOk r
    assume IH: "\<And>t ctx b isOk r. f t ctx b isOk = Some r \<Longrightarrow>
        \<not> (ctx_state ctx = kExpectBody \<or> ctx_state ctx = kGotAll)"
      and eq: "(case parse_step t ctx b isOk of Inl e \<Rightarrow> Some (Inl e)
        | Inr (ctx', b', isOk', hasMore) \<Rightarrow>
            if hasMore then f t ctx' b' isOk' else Some (Inr (ctx', b', isOk'))) = Some r"
    show "\<not> (ctx_state ctx = kExpectBody \<or> ctx_state ctx = kGotAll)"
    proof
      assume "ctx_state ctx = kExpectBody \<or> ctx_state ctx = kGotAll"
      moreover from this have "f t ctx b isOk = Some r"
        using eq by (auto simp: parse_step_def)
      ultimately show False using IH by blast
    qed
  qed
  with assms show False by blast
qed

lemma retrieve_line:
  assumes inv: "Buffer_inv b" and k: "search_in (Buffer_content b) CRLF \<noteq> length (Buffer_content b)"
  obtains b' where "Buffer_retrieveUntil b (Buffer_peek b + search_in (Buffer_content b) CRLF + 2) = Inr b'"
    and "Buffer_inv b'" and "buf_store b' = buf_store b"
    and "Buffer_content b' = drop (search_in (Buffer_content b) CRLF + 2) (Buffer_content b)"
proof -
  let ?k = "search_in (Buffer_content b) CRLF"
  have "?k < length (Buffer_content b)" using k search_in_le le_neq_implies_less by blast
  then have fits: "?k + 2 \<le> length (Buffer_content b)" using search_in_found_fits by fastforce
  from retrieve_ok [OF inv fits] obtain b' where "Buffer_retrieve b (?k + 2) = Inr b'"
    "Buffer_inv b'" "buf_store b' = buf_store b" "Buffer_content b' = drop (?k + 2) (Buffer_content b)"
    by (auto elim!: returnsE)
  with retrieveUntil_eq [OF inv fits] that show thesis by (simp add: add.assoc)
qed

lemma line_of_content:
  assumes "Buffer_inv b"
  shows "Buffer_range b (Buffer_peek b) (Buffer_peek b + search_in (Buffer_content b) CRLF) =
    take (search_in (Buffer_content b) CRLF) (Buffer_content b)"
  by (rule content_at [OF assms]) simp

lemma parse_loop_line:
  assumes inv: "Buffer_inv b" and st: "ctx_state ctx = kExpectRequestLine"
    and k: "search_in (Buffer_content b) CRLF \<noteq> length (Buffer_content b)"
    and b': "Buffer_retrieveUntil b (Buffer_peek b + search_in (Buffer_content b) CRLF + 2) = Inr b'"
  shows "parse_loop t ctx b ok = (case HttpContext_processRequestLine (ctx_request ctx)
        (take (search_in (Buffer_content b) CRLF) (Buffer_content b)) of
      Inl e \<Rightarrow> Some (Inl e)
    | Inr (r, valid) \<Rightarrow> if valid
        then parse_loop t (ctx\<lparr>ctx_request := HttpRequest_setReceiveTime r t,
                               ctx_state := kExpectHeader\<rparr>) b' True
        else Some (Inr (ctx\<lparr>ctx_request := r\<rparr>, b, False)))"
  using k b' by (subst parse_loop.simps)
    (simp add: parse_step_def st findCRLF_eq [OF inv] line_of_content [OF inv] bind_res_def
      split: sum.split prod.split)

lemma parse_loop_header:
  assumes inv: "Buffer_inv b" and st: "ctx_state ctx = kExpectHeader"
    and k: "search_in (Buffer_content b) CRLF \<noteq> length (Buffer_content b)"
    and b': "Buffer_retrieveUntil b (Buffer_peek b + search_in (Buffer_content b) CRLF + 2) = Inr b'"
  shows "parse_loop t ctx b ok = (let line = take (search_in (Buffer_content b) CRLF) (Buffer_content b) in
      if find_in line (CHR '':'') \<noteq> search_in (Buffer_content b) CRLF
      then parse_loop t (ctx\<lparr>ctx_request := HttpRequest_addHeader (ctx_request ctx) line
                                (find_in line (CHR '':''))\<rparr>) b' ok
      else Some (Inr (ctx\<lparr>ctx_state := kGotAll\<rparr>, b', ok)))"
  using k b' by (subst parse_loop.simps)
    (simp add: parse_step_def st findCRLF_eq [OF inv] line_of_content [OF inv] Let_def)

lemma parse_loop_wait:
  assumes "Buffer_inv b" and "search_in (Buffer_content b) CRLF = length (Buffer_content b)"
    and "ctx_state ctx = kExpectRequestLine \<or> ctx_state ctx = kExpectHeader"
  shows "parse_loop t ctx b ok = Some (Inr (ctx, b, ok))"
  using assms by (subst parse_loop.simps) (auto simp: parse_step_def findCRLF_eq)

lemma drop_line_shorter:
  "search_in s CRLF \<noteq> length s \<Longrightarrow> length (drop (search_in s CRLF + 2) s) < length s"
  by (cases s) auto

lemma parse_loop_refines:
  assumes "Buffer_inv b"
  shows "parse_abs (parse_loop t ctx b True) = parse_text t ctx (Buffer_content b)"
  using assms
proof (induction "length (Buffer_content b)" arbitrary: ctx b rule: less_induct)
  case less
  let ?s = "Buffer_content b"
  let ?k = "search_in ?s CRLF"
  consider (stuck) "ctx_state ctx = kExpectBody \<or> ctx_state ctx = kGotAll"
    | (wait) "ctx_state ctx = kExpectRequestLine \<or> ctx_state ctx = kExpectHeader" "?k = length ?s"
    | (line) "ctx_state ctx = kExpectRequestLine" "?k \<noteq> length ?s"
    | (header) "ctx_state ctx = kExpectHeader" "?k \<noteq> length ?s"
    by (cases "ctx_state ctx") auto
  then show ?case
  proof cases
    case stuck
    then show ?thesis by (auto simp: parse_loop_stuck parse_text.simps [of t ctx] Let_def)
  next
    case wait
    then show ?thesis
      by (auto simp: parse_loop_wait [OF less.prems] parse_text.simps [of t ctx] Let_def)
  next
    case line
    obtain b' where b': "Buffer_retrieveUntil b (Buffer_peek b + ?k + 2) = Inr b'" "Buffer_inv b'"
      "Buffer_content b' = drop (?k + 2) ?s"
      using retrieve_line [OF less.prems line(2)] by metis
    have "length (Buffer_content b') < length ?s"
      using drop_line_shorter [OF line(2)] b'(3) by simp
    note IH = less.hyps [OF this b'(2)]
    show ?thesis
      by (simp add: parse_loop_line [OF less.prems line b'(1)] parse_text.simps [of t ctx ?s]
          line Let_def IH b'(3) split: sum.split)
  next
    case header
    obtain b' where b': "Buffer_retrieveUntil b (Buffer_peek b + ?k + 2) = Inr b'" "Buffer_inv b'"
      "Buffer_content b' = drop (?k + 2) ?s"
      using retrieve_line [OF less.prems header(2)] by metis
    have "length (Buffer_content b') < length ?s"
      using drop_line_shorter [OF header(2)] b'(3) by simp
    note IH = less.hyps [OF this b'(2)]
    show ?thesis
      by (simp add: parse_loop_header [OF less.prems header b'(1)] parse_text.simps [of t ctx ?s]
          header Let_def IH b'(3))
  qed
qed

lemma parse_loop_inv:
  assumes "Buffer_inv b" and "parse_loop t ctx b ok = Some (Inr (ctx', b', ok'))"
  shows "Buffer_inv b' \<and> buf_store b' = buf_store b"
  using assms
proof (induction "length (Buffer_content b)" arbitrary: ctx b ok rule: less_induct)
  case less
  let ?s = "Buffer_content b"
  let ?k = "search_in ?s CRLF"
  consider (stuck) "ctx_state ctx = kExpectBody \<or> ctx_state ctx = kGotAll"
    | (wait) "ctx_state ctx = kExpectRequestLine \<or> ctx_state ctx = kExpectHeader" "?k = length ?s"
    | (found) "ctx_state ctx = kExpectRequestLine \<or> ctx_state ctx = kExpectHeader" "?k \<noteq> length ?s"
    by (cases "ctx_state ctx") auto
  then show ?case
  proof cases
    case stuck
    with less.prems show ?thesis by (simp add: parse_loop_stuck)
  next
    case wait
    with less.prems show ?thesis by (simp add: parse_loop_wait [OF less.prems(1)])
  next
    case found
    obtain c where c: "Buffer_retrieveUntil b (Buffer_peek b + ?k + 2) = Inr c" "Buffer_inv c"
      "buf_store c = buf_store b" "Buffer_content c = drop (?k + 2) ?s"
      using retrieve_line [OF less.prems(1) found(2)] by metis
    have "length (Buffer_content c) < length ?s"
      using drop_line_shorter [OF found(2)] c(4) by simp
    note IH = less.hyps [OF this c(2)]
    show ?thesis
    proof (cases "ctx_state ctx = kExpectRequestLine")
      case True
      with less.prems IH c(2,3) show ?thesis
        by (auto simp: parse_loop_line [OF less.prems(1) True found(2) c(1)]
            split: sum.splits if_splits)
    next
      case False
      with found(1) have st: "ctx_state ctx = kExpectHeader" by simp
      with less.prems IH c(2,3) show ?thesis
        by (auto simp: parse_loop_header [OF less.prems(1) st found(2) c(1)] Let_def
            split: if_splits)
    qed
  qed
qed

section \<open>Returning, faults and splitting of the input\<close>

definition ctx_fresh :: "http_context \<Rightarrow> bool" where
  "ctx_fresh ctx \<longleftrightarrow> (ctx_state ctx = kExpectRequestLine \<longrightarrow> req_method (ctx_request ctx) = kInvalid)"

definition ctx_parsing :: "http_context \<Rightarrow> bool" where
  "ctx_parsing ctx \<longleftrightarrow> ctx_state ctx = kExpectRequestLine \<or> ctx_state ctx = kExpectHeader"

lemma new_context_ok [simp]: "ctx_fresh HttpContext_new" "ctx_parsing HttpContext_new"
  by (simp_all add: ctx_fresh_def ctx_parsing_def HttpContext_new_def HttpRequest_new_def)

lemma reset_context [simp]: "HttpContext_reset ctx = HttpContext_new"
  by (simp add: HttpContext_reset_def HttpContext_new_def)

lemma processRequestLine_fresh:
  "req_method r = kInvalid \<Longrightarrow> \<exists>r' ok. HttpContext_processRequestLine r line = Inr (r', ok)"
  by (auto simp: HttpContext_processRequestLine_def setMethod_fresh Let_def)

lemma parse_text_returns:
  assumes "ctx_parsing ctx" and "ctx_fresh ctx"
  shows "\<exists>ctx' rest ok. parse_text t ctx s = Some (Inr (ctx', rest, ok)) \<and> suffix rest s
    \<and> (ok \<longrightarrow> ctx_fresh ctx')"
  using assms
proof (induction "length s" arbitrary: s ctx rule: less_induct)
  case less
  let ?k = "search_in s CRLF"
  have suf: "suffix (drop n s) s" for n by (rule suffix_drop)
  show ?case
  proof (cases "?k = length s")
    case True
    with less.prems show ?thesis
      by (auto simp: parse_text.simps [of t ctx s] ctx_parsing_def Let_def)
  next
    case False
    note short = drop_line_shorter [OF False]
    show ?thesis
    proof (cases "ctx_state ctx = kExpectRequestLine")
      case True
      with less.prems(2) obtain r ok where
        pl: "HttpContext_processRequestLine (ctx_request ctx) (take ?k s) = Inr (r, ok)"
        using processRequestLine_fresh [of "ctx_request ctx" "take ?k s"]
        by (auto simp: ctx_fresh_def)
      let ?c = "ctx\<lparr>ctx_request := HttpRequest_setReceiveTime r t, ctx_state := kExpectHeader\<rparr>"
      have "ctx_parsing ?c" "ctx_fresh ?c" by (simp_all add: ctx_parsing_def ctx_fresh_def)
      with less.hyps [OF short] obtain ctx' rest ok' where
        "parse_text t ?c (drop (?k + 2) s) = Some (Inr (ctx', rest, ok'))"
        "suffix rest (drop (?k + 2) s)" "ok' \<longrightarrow> ctx_fresh ctx'"
        by blast
      with True False pl show ?thesis
        by (cases ok) (auto simp: parse_text.simps [of t ctx s] Let_def
            intro: suffix_order.trans [OF _ suf])
    next
      case hdr: False
      with less.prems(1) have st: "ctx_state ctx = kExpectHeader" by (simp add: ctx_parsing_def)
      let ?c = "ctx\<lparr>ctx_request := HttpRequest_addHeader (ctx_request ctx) (take ?k s)
                    (find_in (take ?k s) (CHR '':''))\<rparr>"
      have "ctx_parsing ?c" "ctx_fresh ?c" using st by (simp_all add: ctx_parsing_def ctx_fresh_def)
      with less.hyps [OF short] obtain ctx' rest ok' where
        "parse_text t ?c (drop (?k + 2) s) = Some (Inr (ctx', rest, ok'))"
        "suffix rest (drop (?k + 2) s)" "ok' \<longrightarrow> ctx_fresh ctx'"
        by blast
      with st False suf [of "?k + 2"] show ?thesis
        by (auto simp: parse_text.simps [of t ctx s] Let_def ctx_fresh_def
            intro: suffix_order.trans [OF _ suf])
    qed
  qed
qed

lemma take_drop_line_append:
  assumes "search_in xs CRLF \<noteq> length xs"
  shows "search_in (xs @ ys) CRLF = search_in xs CRLF"
    and "search_in xs CRLF + 2 \<le> length xs"
proof -
  have lt: "search_in xs CRLF < length xs" using assms search_in_le le_neq_implies_less by blast
  show "search_in (xs @ ys) CRLF = search_in xs CRLF" by (rule search_in_append_stable [OF lt])
  show "search_in xs CRLF + 2 \<le> length xs" using search_in_found_fits [OF lt] by simp
qed

text \<open>Parsing a prefix and then the rest is parsing the whole.\<close>

lemma parse_text_append:
  assumes "parse_text t ctx xs = Some (Inr (ctx', rest, ok))"
  shows "parse_text t ctx (xs @ ys) =
    (if ok \<and> ctx_state ctx' \<noteq> kGotAll then parse_text t ctx' (rest @ ys)
     else Some (Inr (ctx', rest @ ys, ok)))"
  using assms
proof (induction "length xs" arbitrary: xs ctx rule: less_induct)
  case less
  let ?k = "search_in xs CRLF"
  consider (stuck) "ctx_state ctx = kExpectBody \<or> ctx_state ctx = kGotAll"
    | (wait) "ctx_state ctx = kExpectRequestLine \<or> ctx_state ctx = kExpectHeader" "?k = length xs"
    | (line) "ctx_state ctx = kExpectRequestLine" "?k \<noteq> length xs"
    | (header) "ctx_state ctx = kExpectHeader" "?k \<noteq> length xs"
    by (cases "ctx_state ctx") auto
  then show ?case
  proof cases
    case stuck
    with less.prems show ?thesis by (auto simp: parse_text.simps [of t ctx xs] Let_def)
  next
    case wait
    with less.prems show ?thesis by (auto simp: parse_text.simps [of t ctx xs] Let_def)
  next
    case line
    note app = take_drop_line_append [OF line(2)]
    have ne: "?k \<noteq> length (xs @ ys)" using app(2) by simp
    note IH = less.hyps [OF drop_line_shorter [OF line(2)]]
    show ?thesis
      using less.prems line app ne IH
      by (auto simp: parse_text.simps [of t ctx xs] parse_text.simps [of t ctx "xs @ ys"] Let_def
          split: sum.splits prod.splits if_splits)
  next
    case header
    note app = take_drop_line_append [OF header(2)]
    have ne: "?k \<noteq> length (xs @ ys)" using app(2) by simp
    note IH = less.hyps [OF drop_line_shorter [OF header(2)]]
    show ?thesis
      using less.prems header app ne IH
      by (auto simp: parse_text.simps [of t ctx xs] parse_text.simps [of t ctx "xs @ ys"] Let_def
          split: if_splits)
  qed
qed

section \<open>Printing a request and parsing it back\<close>

definition render_header :: "string \<times> string \<Rightarrow> string" where
  "render_header h = fst h @ '': '' @ snd h @ CRLF"

definition render_request :: "http_method \<Rightarrow> string \<Rightarrow> string \<Rightarrow> (string \<times> string) list \<Rightarrow> string" where
  "render_request m path query hs =
     method_string m @ '' '' @ path @ query @ '' HTTP/1.1'' @ CRLF
       @ concat (map render_header hs) @ CRLF"

text \<open>Requests whose printed form is unambiguous.\<close>

definition wf_header :: "string \<times> string \<Rightarrow> bool" where
  "wf_header h \<longleftrightarrow> CHR '':'' \<notin> set (fst h) \<and> CHR 0x0D \<notin> set (fst h)
     \<and> CHR 0x0D \<notin> set (snd h) \<and> trimmed (snd h)"

definition wf_target :: "string \<Rightarrow> string \<Rightarrow> bool" where
  "wf_target path query \<longleftrightarrow> CHR '' '' \<notin> set path \<and> CHR ''?'' \<notin> set path \<and> CHR 0x0D \<notin> set path
     \<and> CHR '' '' \<notin> set query \<and> CHR 0x0D \<notin> set query \<and> (query = [] \<or> hd query = CHR ''?'')"

lemma search_CRLF: "CHR 0x0D \<notin> set line \<Longrightarrow> search_in (line @ CRLF @ rest) CRLF = length line"
  by (induction line) auto

lemma line_split:
  "take (length line) (line @ CRLF @ s) = line"
  "drop (length line + 2) (line @ CRLF @ s) = s"
  "length line \<noteq> length (line @ CRLF @ s)"
  by simp_all

lemma search_CRLF0 [simp]: "search_in (CHR 0x0D # CHR 0x0A # rest) CRLF = 0"
  by simp

lemma processRequestLine_ok:
  assumes r: "req_method r = kInvalid" and m: "m \<noteq> kInvalid" and w: "wf_target path query"
  shows "HttpContext_processRequestLine r (method_string m @ '' '' @ path @ query @ '' HTTP/1.1'') =
    Inr (r\<lparr>req_method := m, req_path := path,
           req_query := (if query = [] then req_query r else query)\<rparr>, True)"
proof -
  let ?pq = "path @ query" and ?tail = "''HTTP/1.1''"
  let ?n = "length (method_string m)"
  let ?line = "method_string m @ CHR '' '' # ?pq @ CHR '' '' # ?tail"
  have f1: "find_in ?line (CHR '' '') = ?n"
    by (rule find_in_append) (rule method_string_no_space)
  have d1: "drop (?n + 1) ?line = ?pq @ CHR '' '' # ?tail" by simp
  have f2: "find_in (?pq @ CHR '' '' # ?tail) (CHR '' '') = length ?pq"
    using w by (intro find_in_append) (simp add: wf_target_def)
  have q: "find_in ?pq (CHR ''?'') = length path"
  proof (cases query)
    case Nil
    with w show ?thesis by (simp add: find_in_notin wf_target_def)
  next
    case (Cons c q)
    with w have "c = CHR ''?''" by (simp add: wf_target_def)
    with Cons w show ?thesis using find_in_append [of "CHR ''?''" path q]
      by (simp add: wf_target_def)
  qed
  have t1: "take ?n ?line = method_string m" by simp
  have d2: "drop (?n + 1 + length ?pq + 1) ?line = ?tail" by simp
  have d3: "drop (?n + 1 + length path) ?line = query @ CHR '' '' # ?tail" by simp
  have "HttpContext_processRequestLine r ?line =
    Inr (r\<lparr>req_method := m, req_path := path,
           req_query := (if query = [] then req_query r else query)\<rparr>, True)"
    using m unfolding HttpContext_processRequestLine_def Let_def f1 d1 f2 t1
    by (simp add: setMethod_fresh r q HttpRequest_setPath_def HttpRequest_setQuery_def)
  then show ?thesis by simp
qed

lemma parse_header_line:
  assumes st: "ctx_state ctx = kExpectHeader" and w: "wf_header h"
  shows "parse_text t ctx (render_header h @ s) = parse_text t
    (ctx\<lparr>ctx_request := (ctx_request ctx)\<lparr>req_headers :=
        smap_put (fst h) (snd h) (req_headers (ctx_request ctx))\<rparr>\<rparr>) s"
proof -
  obtain k v where h: "h = (k, v)" by (cases h)
  let ?line = "k @ '': '' @ v"
  have cr: "CHR 0x0D \<notin> set ?line" using w h by (simp add: wf_header_def)
  have eq: "render_header h @ s = ?line @ CRLF @ s" by (simp add: render_header_def h)
  have k: "search_in (?line @ CRLF @ s) CRLF = length ?line" by (rule search_CRLF [OF cr])
  have tk: "take (length ?line) (?line @ CRLF @ s) = ?line" by (rule line_split)
  have dr: "drop (length ?line + 2) (?line @ CRLF @ s) = s" by (rule line_split)
  have ne: "length ?line \<noteq> length (?line @ CRLF @ s)" by (rule line_split)
  have colon: "find_in ?line (CHR '':'') = length k"
    using find_in_append [of "CHR '':''" k "CHR '' '' # v"] w h by (simp add: wf_header_def)
  have ne2: "length k \<noteq> length ?line" by simp
  have add: "HttpRequest_addHeader r ?line (length k) = r\<lparr>req_headers := smap_put k v (req_headers r)\<rparr>" for r
    using w h by (intro addHeader_colon) (simp_all add: wf_header_def)
  have "parse_text t ctx (?line @ CRLF @ s) = parse_text t
      (ctx\<lparr>ctx_request := HttpRequest_addHeader (ctx_request ctx) ?line (length k)\<rparr>) s"
    unfolding parse_text.simps [of t ctx "?line @ CRLF @ s"] Let_def k tk dr colon st
    using ne ne2 by simp
  then show ?thesis by (simp add: eq [simplified] add [simplified] h render_header_def)
qed

lemma parse_headers:
  assumes "ctx_state ctx = kExpectHeader" and "list_all wf_header hs"
  shows "parse_text t ctx (concat (map render_header hs) @ CRLF @ s) =
    Some (Inr (ctx\<lparr>ctx_state := kGotAll, ctx_request := (ctx_request ctx)\<lparr>req_headers :=
        fold (\<lambda>(k, v). smap_put k v) hs (req_headers (ctx_request ctx))\<rparr>\<rparr>, s, True))"
  using assms
proof (induction hs arbitrary: ctx)
  case Nil
  then show ?case by (simp add: parse_text.simps [of t ctx] find_in_def)
next
  case (Cons h hs)
  obtain k v where h: "h = (k, v)" by (cases h)
  from Cons.prems have w: "wf_header h" "list_all wf_header hs" by simp_all
  let ?c = "ctx\<lparr>ctx_request := (ctx_request ctx)\<lparr>req_headers :=
        smap_put (fst h) (snd h) (req_headers (ctx_request ctx))\<rparr>\<rparr>"
  have "parse_text t ctx (render_header h @ concat (map render_header hs) @ CRLF @ s) =
      parse_text t ?c (concat (map render_header hs) @ CRLF @ s)"
    by (rule parse_header_line [OF Cons.prems(1) w(1)])
  also have "\<dots> = Some (Inr (?c\<lparr>ctx_state := kGotAll, ctx_request := (ctx_request ?c)\<lparr>req_headers :=
        fold (\<lambda>(k, v). smap_put k v) hs (req_headers (ctx_request ?c))\<rparr>\<rparr>, s, True))"
    using Cons.prems(1) w(2) by (intro Cons.IH) simp_all
  finally show ?case by (simp add: h)
qed

definition parsed_request :: "int \<Rightarrow> http_method \<Rightarrow> string \<Rightarrow> string \<Rightarrow> (string \<times> string) list \<Rightarrow> http_request" where
  "parsed_request t m path query hs =
     \<lparr>req_method = m, req_path = path, req_query = query, req_receiveTime = t,
      req_headers = fold (\<lambda>(k, v). smap_put k v) hs []\<rparr>"

lemma parse_rendered:
  assumes "m \<noteq> kInvalid" and "wf_target path query" and "list_all wf_header hs"
  shows "parse_text t HttpContext_new (render_request m path query hs @ rest) =
    Some (Inr (\<lparr>ctx_state = kGotAll, ctx_request = parsed_request t m path query hs\<rparr>, rest, True))"
proof -
  let ?line = "method_string m @ '' '' @ path @ query @ '' HTTP/1.1''"
  let ?tail = "concat (map render_header hs) @ CRLF @ rest"
  have cr: "CHR 0x0D \<notin> set ?line"
    using assms(2) method_string_no_space [of m] by (simp add: wf_target_def)
  have eq: "render_request m path query hs @ rest = ?line @ CRLF @ ?tail"
    by (simp add: render_request_def)
  have k: "search_in (?line @ CRLF @ ?tail) CRLF = length ?line" by (rule search_CRLF [OF cr])
  have tk: "take (length ?line) (?line @ CRLF @ ?tail) = ?line" by (rule line_split)
  have dr: "drop (length ?line + 2) (?line @ CRLF @ ?tail) = ?tail" by (rule line_split)
  have ne: "length ?line \<noteq> length (?line @ CRLF @ ?tail)" by (rule line_split)
  have r: "req_method (ctx_request HttpContext_new) = kInvalid"
    by (simp add: HttpContext_new_def HttpRequest_new_def)
  have st: "ctx_state HttpContext_new = kExpectRequestLine" by (simp add: HttpContext_new_def)
  let ?c = "HttpContext_new\<lparr>ctx_request := HttpRequest_setReceiveTime
      ((ctx_request HttpContext_new)\<lparr>req_method := m, req_path := path, req_query := query\<rparr>) t,
      ctx_state := kExpectHeader\<rparr>"
  have q: "(if query = [] then req_query (ctx_request HttpContext_new) else query) = query"
    by (simp add: HttpContext_new_def HttpRequest_new_def)
  have "parse_text t HttpContext_new (?line @ CRLF @ ?tail) = parse_text t ?c ?tail"
    unfolding parse_text.simps [of t HttpContext_new "?line @ CRLF @ ?tail"] Let_def k tk dr st
      processRequestLine_ok [OF r assms(1,2)] q
    using ne by simp
  also have "\<dots> = Some (Inr (?c\<lparr>ctx_state := kGotAll, ctx_request := (ctx_request ?c)\<lparr>req_headers :=
        fold (\<lambda>(k, v). smap_put k v) hs (req_headers (ctx_request ?c))\<rparr>\<rparr>, rest, True))"
    using assms(3) by (intro parse_headers) simp_all
  finally show ?thesis
    by (simp add: eq [simplified] parsed_request_def HttpContext_new_def HttpRequest_new_def
        HttpRequest_setReceiveTime_def render_request_def)
qed

lemma parse_request_spec:
  assumes "Buffer_inv b" and "ctx_parsing ctx" and "ctx_fresh ctx"
  shows "\<exists>ctx' b' ok. HttpContext_parseRequest ctx b t = Some (Inr (ctx', b', ok))
    \<and> parse_text t ctx (Buffer_content b) = Some (Inr (ctx', Buffer_content b', ok))
    \<and> suffix (Buffer_content b') (Buffer_content b) \<and> Buffer_inv b' \<and> (ok \<longrightarrow> ctx_fresh ctx')"
proof -
  from parse_text_returns [OF assms(2,3)] obtain ctx' rest ok where
    spec: "parse_text t ctx (Buffer_content b) = Some (Inr (ctx', rest, ok))"
    "suffix rest (Buffer_content b)" "ok \<longrightarrow> ctx_fresh ctx'" by blast
  then obtain b' where "parse_loop t ctx b True = Some (Inr (ctx', b', ok))" "Buffer_content b' = rest"
    using parse_loop_refines [OF assms(1), of t ctx]
    by (auto simp: parse_abs_eq_Inr)
  with spec show ?thesis
    using parse_loop_inv [OF assms(1)] by (auto simp: HttpContext_parseRequest_def)
qed

lemma parse_request_outcome:
  assumes "Buffer_inv b" and "ctx_parsing ctx" and "ctx_fresh ctx"
    and "parse_text t ctx (Buffer_content b) = Some (Inr (ctx', left, ok))"
  obtains b' where "HttpContext_parseRequest ctx b t = Some (Inr (ctx', b', ok))"
    and "Buffer_content b' = left" and "Buffer_inv b'" and "buf_store b' = buf_store b"
  using parse_request_spec [OF assms(1-3), of t] assms(4) parse_loop_inv [OF assms(1)]
  by (auto simp: HttpContext_parseRequest_def)

lemma parse_request_rendered:
  assumes "Buffer_inv b" and "Buffer_content b = render_request m path query hs @ rest"
    and "m \<noteq> kInvalid" and "wf_target path query" and "list_all wf_header hs"
  obtains b' where "HttpContext_parseRequest HttpContext_new b t =
      Some (Inr (\<lparr>ctx_state = kGotAll, ctx_request = parsed_request t m path query hs\<rparr>, b', True))"
    and "Buffer_content b' = rest" and "Buffer_inv b'" and "buf_store b' = buf_store b"
proof -
  have "parse_text t HttpContext_new (Buffer_content b) =
      Some (Inr (\<lparr>ctx_state = kGotAll, ctx_request = parsed_request t m path query hs\<rparr>, rest, True))"
    by (simp only: assms(2) parse_rendered [OF assms(3-5)])
  from parse_request_outcome [OF assms(1) new_context_ok(2,1) this] that show thesis by blast
qed

text \<open>As long as a request is incomplete the parser waits, and takes the rest from where it is.\<close>

lemma parse_prefix:
  assumes "xs @ ys = render_request m path query hs" and "ys \<noteq> []"
    and "m \<noteq> kInvalid" and "wf_target path query" and "list_all wf_header hs"
  obtains ctx left where "parse_text t HttpContext_new xs = Some (Inr (ctx, left, True))"
    and "ctx_state ctx \<noteq> kGotAll" and "ctx_parsing ctx" and "ctx_fresh ctx"
    and "\<And>zs. parse_text t HttpContext_new (xs @ zs) = parse_text t ctx (left @ zs)"
proof -
  from parse_text_returns [OF new_context_ok(2,1), of t xs] obtain ctx left ok where
    xs: "parse_text t HttpContext_new xs = Some (Inr (ctx, left, ok))" and fresh: "ok \<longrightarrow> ctx_fresh ctx"
    by blast
  note app = parse_text_append [OF xs]
  have whole: "parse_text t HttpContext_new (xs @ ys) =
      Some (Inr (\<lparr>ctx_state = kGotAll, ctx_request = parsed_request t m path query hs\<rparr>, [], True))"
    using parse_rendered [OF assms(3-5), of t "[]"] by (simp add: assms(1))
  with app [of ys] assms(2) have ok: "ok" "ctx_state ctx \<noteq> kGotAll" by (auto split: if_splits)
  with app have later: "parse_text t HttpContext_new (xs @ zs) = parse_text t ctx (left @ zs)" for zs by simp
  with whole have "parse_text t ctx (left @ ys) \<noteq> None" by (metis option.discI)
  then have "ctx_parsing ctx"
    by (cases "ctx_state ctx") (auto simp: ctx_parsing_def parse_text.simps [of t ctx] Let_def)
  with that [of ctx left] xs ok fresh later show thesis by simp
qed

lemma parsed_headers: "smap_get (req_headers (parsed_request t m path query hs)) = map_of (rev hs)"
  using smap.look_puts [of "[]" hs] by (simp add: parsed_request_def)

text \<open>A request line that is rejected after its method was accepted.\<close>

lemma rejected_line:
  assumes "Buffer_inv b" and "m \<noteq> kInvalid" and "CHR '' '' \<notin> set junk" and "CHR 0x0D \<notin> set junk"
    and "Buffer_content b = method_string m @ '' '' @ junk @ CRLF @ rest"
  obtains ctx' b' where "HttpContext_parseRequest HttpContext_new b t = Some (Inr (ctx', b', False))"
    and "Buffer_content b' = Buffer_content b" and "Buffer_inv b'" and "buf_store b' = buf_store b"
    and "ctx_state ctx' = kExpectRequestLine"
    and "\<forall>x t'. Buffer_inv x \<longrightarrow> prefix (Buffer_content b) (Buffer_content x) \<longrightarrow>
      HttpContext_parseRequest ctx' x t' = Some (Inl AssertFailed)"
proof -
  let ?line = "method_string m @ '' '' @ junk"
  have st: "ctx_state HttpContext_new = kExpectRequestLine" by (simp add: HttpContext_new_def)
  have eq: "Buffer_content b = ?line @ CRLF @ rest" by (simp add: assms(5))
  have cr: "CHR 0x0D \<notin> set ?line" using assms(4) method_string_no_space [of m] by simp
  have k: "search_in (?line @ CRLF @ s) CRLF = length ?line" for s by (rule search_CRLF [OF cr])
  have f1: "find_in (method_string m @ CHR '' '' # junk) (CHR '' '') = length (method_string m)"
    by (rule find_in_append) (rule method_string_no_space)
  have f2: "find_in junk (CHR '' '') = length junk" using assms(3) by (rule find_in_notin)
  have new: "req_method (ctx_request HttpContext_new) = kInvalid"
    by (simp add: HttpContext_new_def HttpRequest_new_def)
  have pl: "HttpContext_processRequestLine (ctx_request HttpContext_new) ?line =
      Inr ((ctx_request HttpContext_new)\<lparr>req_method := m\<rparr>, False)"
    using f1 f2 assms(2)
    by (simp add: HttpContext_processRequestLine_def Let_def setMethod_fresh new)
  let ?ctx = "HttpContext_new\<lparr>ctx_request := (ctx_request HttpContext_new)\<lparr>req_method := m\<rparr>\<rparr>"
  have one: "parse_text t HttpContext_new (?line @ CRLF @ rest) = Some (Inr (?ctx, ?line @ CRLF @ rest, False))"
    unfolding parse_text.simps [of t HttpContext_new "?line @ CRLF @ rest"] Let_def k st
    using line_split [of ?line rest] pl by simp
  have pl2: "HttpContext_processRequestLine (ctx_request ?ctx) ?line = Inl AssertFailed"
    using f1 assms(2) by (simp add: HttpContext_processRequestLine_def Let_def setMethod_twice)
  have two: "parse_text t' ?ctx (?line @ CRLF @ rest @ more) = Some (Inl AssertFailed)" for t' more
    unfolding parse_text.simps [of t' ?ctx "?line @ CRLF @ rest @ more"] Let_def k
    using line_split [of ?line "rest @ more"] pl2 st by simp
  from parse_request_spec [OF assms(1) new_context_ok(2,1), of t] one eq
  obtain b' where b': "HttpContext_parseRequest HttpContext_new b t = Some (Inr (?ctx, b', False))"
    "Buffer_content b' = Buffer_content b" by auto
  from parse_loop_inv [OF assms(1)] b'(1) have i: "Buffer_inv b'" "buf_store b' = buf_store b"
    by (auto simp: HttpContext_parseRequest_def)
  have "HttpContext_parseRequest ?ctx x t' = Some (Inl AssertFailed)"
    if x: "Buffer_inv x" "prefix (Buffer_content b) (Buffer_content x)" for x t'
  proof -
    from x(2) obtain more where "Buffer_content x = ?line @ CRLF @ rest @ more"
      by (auto simp: prefix_def eq)
    then have "parse_text t' ?ctx (Buffer_content x) = Some (Inl AssertFailed)"
      using two [of t' more] by simp
    then show ?thesis
      using parse_loop_refines [OF x(1), of t' ?ctx]
      by (simp add: HttpContext_parseRequest_def parse_abs_eq_Inl)
  qed
  with b' i st show thesis by (intro that [of ?ctx b']) auto
qed

section \<open>Properties of the parser\<close>

text \<open>
  C21. HttpContext::parseRequest returns on every buffer: from a context that is reading the
  request line (with no method set yet) or the headers, the loop ends without a fault, its
  result is the specification's result on the readable bytes, it only consumes from the
  front of the buffer, and it keeps the buffer's invariant.
\<close>
theorem parseRequest_returns:
  assumes "Buffer_inv b" and "ctx_parsing ctx" and "ctx_fresh ctx"
  shows "\<exists>ctx' b' ok. HttpContext_parseRequest ctx b t = Some (Inr (ctx', b', ok))
    \<and> parse_text t ctx (Buffer_content b) = Some (Inr (ctx', Buffer_content b', ok))
    \<and> suffix (Buffer_content b') (Buffer_content b) \<and> Buffer_inv b' \<and> (ok \<longrightarrow> ctx_fresh ctx')"
  by (rule parse_request_spec [OF assms])

theorem parseRequest_returns_witness:
  "\<exists>ctx' b' ok. HttpContext_parseRequest HttpContext_new (text_buffer ''GET / HT'') 7
     = Some (Inr (ctx', b', ok))"
  using parseRequest_returns [of "text_buffer ''GET / HT''" HttpContext_new 7] by auto

text \<open>
  parseRequest called on a context that has already got the whole request never returns:
  no branch of the loop handles kGotAll or kExpectBody, so hasMore stays true. The caller must
  reset the context after every complete request.
\<close>
lemma parseRequest_diverges:
  assumes "ctx_state ctx = kGotAll \<or> ctx_state ctx = kExpectBody"
  shows "HttpContext_parseRequest ctx b t = None"
  using assms by (auto simp: HttpContext_parseRequest_def parse_loop_stuck)

lemma parseRequest_diverges_instance:
  "HttpContext_parseRequest (HttpContext_new\<lparr>ctx_state := kGotAll\<rparr>) (text_buffer []) 0 = None"
  by (rule parseRequest_diverges) simp



text \<open>
  C10. Requests round trip: a printed request whose method is known, whose target has no blank
  and whose header names have no colon is parsed, in one call, into exactly its method, path,
  query string (with the question mark) and headers; the parse stops at the blank line and
  leaves the bytes after it unread.
\<close>
theorem parseRequest_round_trip:
  assumes "Buffer_inv b" and "Buffer_content b = render_request m path query hs @ rest"
    and "m \<noteq> kInvalid" and "wf_target path query" and "list_all wf_header hs"
  shows "\<exists>b'. HttpContext_parseRequest HttpContext_new b t =
      Some (Inr (\<lparr>ctx_state = kGotAll, ctx_request = parsed_request t m path query hs\<rparr>, b', True))
    \<and> Buffer_content b' = rest \<and> Buffer_inv b'
    \<and> smap_get (req_headers (parsed_request t m path query hs)) = map_of (rev hs)"
  using parse_request_rendered [OF assms] parsed_headers by metis

theorem parseRequest_round_trip_witness:
  "\<exists>b'. HttpContext_parseRequest HttpContext_new
      (text_buffer (render_request kGet ''/a'' ''?x=1'' [(''Host'', ''h'')] @ ''left'')) 3 =
      Some (Inr (\<lparr>ctx_state = kGotAll,
                  ctx_request = parsed_request 3 kGet ''/a'' ''?x=1'' [(''Host'', ''h'')]\<rparr>, b', True))
    \<and> Buffer_content b' = ''left''"
proof -
  have w: "wf_target ''/a'' ''?x=1''" "list_all wf_header [(''Host'', ''h'')]"
    by (simp_all add: wf_target_def wf_header_def trimmed_def isspace_def)
  have i: "Buffer_inv (text_buffer (render_request kGet ''/a'' ''?x=1'' [(''Host'', ''h'')] @ ''left''))"
    by (rule text_buffer_ok) (simp add: render_request_def render_header_def)
  from parseRequest_round_trip [OF i text_buffer_ok(2) _ w] show ?thesis by blast
qed

text \<open>
  A malformed request line leaves the parser in a state that aborts the server. When the
  line starts with a known method but is rejected (here: no second blank, so no version),
  parseRequest answers false, keeps the line in the buffer and keeps the method it has set;
  when any further byte arrives and the parser is called again, setMethod's assertion that no
  method is set yet fails.
\<close>
lemma rejected_line_then_abort:
  assumes "Buffer_inv b" and "m \<noteq> kInvalid" and "CHR '' '' \<notin> set junk" and "CHR 0x0D \<notin> set junk"
    and "Buffer_content b = method_string m @ '' '' @ junk @ CRLF @ rest"
    and "Buffer_room b (length extra)"
  shows "\<exists>ctx' b'. HttpContext_parseRequest HttpContext_new b t = Some (Inr (ctx', b', False))
    \<and> Buffer_content b' = Buffer_content b
    \<and> returns (Buffer_append b' extra)
        (\<lambda>b''. HttpContext_parseRequest ctx' b'' t' = Some (Inl AssertFailed))"
proof -
  obtain ctx' b' where b':
    "HttpContext_parseRequest HttpContext_new b t = Some (Inr (ctx', b', False))"
    "Buffer_content b' = Buffer_content b" "Buffer_inv b'" "buf_store b' = buf_store b"
    "ctx_state ctx' = kExpectRequestLine"
    "\<forall>x t'. Buffer_inv x \<longrightarrow> prefix (Buffer_content b) (Buffer_content x) \<longrightarrow>
      HttpContext_parseRequest ctx' x t' = Some (Inl AssertFailed)"
    by (rule rejected_line [OF assms(1-5), of t])
  from b'(4) assms(6) have "Buffer_room b' (length extra)" by (simp add: Buffer_room_def)
  from append_ok [OF b'(3) this]
  have "returns (Buffer_append b' extra)
      (\<lambda>b''. HttpContext_parseRequest ctx' b'' t' = Some (Inl AssertFailed))"
    by (rule returns_mono) (simp add: b'(2,6))
  with b' show ?thesis by blast
qed

lemma rejected_line_then_abort_instance:
  "\<exists>ctx' b'. HttpContext_parseRequest HttpContext_new (text_buffer (''GET /'' @ CRLF)) 0
      = Some (Inr (ctx', b', False))
    \<and> returns (Buffer_append b' ''x'')
        (\<lambda>b''. HttpContext_parseRequest ctx' b'' 0 = Some (Inl AssertFailed))"
  using rejected_line_then_abort [of "text_buffer (''GET /'' @ CRLF)" kGet "''/''" "[]" "''x''" 0 0]
  by auto

end
