(* ===== verification/Atomic.thy ===== *)
theory Atomic
  imports Prelude
begin

text \<open>
  \<open>base/Atomic.h\<close>: \<open>AtomicIntegerT<T>\<close> for a signed \<open>T\<close> of any width. The built-in
  fetch-and-add wraps around; the sum \<open>getAndAdd(x) + x\<close> that the caller receives is ordinary
  signed arithmetic, so it is a fault when it overflows. Each operation is one indivisible step.
\<close>

section \<open>Operations\<close>

type_synonym 'w atomic = "'w word"

definition Atomic_new :: "'w::len atomic" where
  "Atomic_new = 0"

definition Atomic_get :: "'w::len atomic \<Rightarrow> 'w word" where
  "Atomic_get v = v"

text \<open>The operations answer the returned value and the new content.\<close>

definition Atomic_getAndAdd :: "'w::len word \<Rightarrow> 'w atomic \<Rightarrow> 'w word \<times> 'w atomic" where
  "Atomic_getAndAdd x v = (v, v + x)"

definition signed_sum :: "'w::len word \<Rightarrow> 'w word \<Rightarrow> 'w word res" where
  "signed_sum a b = (if sint (a + b) = sint a + sint b then Inr (a + b) else Inl SignedOverflow)"

definition Atomic_addAndGet :: "'w::len word \<Rightarrow> 'w atomic \<Rightarrow> ('w word \<times> 'w atomic) res" where
  "Atomic_addAndGet x v =
     (let (old, v') = Atomic_getAndAdd x v in bind_res (signed_sum old x) (\<lambda>r. Inr (r, v')))"

definition Atomic_incrementAndGet :: "'w::len atomic \<Rightarrow> ('w word \<times> 'w atomic) res" where
  "Atomic_incrementAndGet v = Atomic_addAndGet 1 v"

definition Atomic_decrementAndGet :: "'w::len atomic \<Rightarrow> ('w word \<times> 'w atomic) res" where
  "Atomic_decrementAndGet v = Atomic_addAndGet (-1) v"

definition Atomic_add :: "'w::len word \<Rightarrow> 'w atomic \<Rightarrow> 'w atomic" where
  "Atomic_add x v = snd (Atomic_getAndAdd x v)"

definition Atomic_increment :: "'w::len atomic \<Rightarrow> 'w atomic res" where
  "Atomic_increment v = bind_res (Atomic_incrementAndGet v) (\<lambda>(_, v'). Inr v')"

definition Atomic_decrement :: "'w::len atomic \<Rightarrow> 'w atomic res" where
  "Atomic_decrement v = bind_res (Atomic_decrementAndGet v) (\<lambda>(_, v'). Inr v')"

definition Atomic_getAndSet :: "'w::len word \<Rightarrow> 'w atomic \<Rightarrow> 'w word \<times> 'w atomic" where
  "Atomic_getAndSet newValue v = (v, newValue)"

section \<open>Counting\<close>

lemma sint_increment:
  fixes v :: "64 word"
  assumes "sint v < 2 ^ 63 - 1"
  shows "sint (v + 1) = sint v + 1"
proof -
  have "- (2 ^ 63) \<le> sint v" using sint_greater_eq [of v] by simp
  with assms have "signed_take_bit 63 (sint v + 1) = sint v + 1"
    by (intro signed_take_bit_int_eq_self) auto
  then show ?thesis by (simp add: sint_word_add)
qed

lemma incrementAndGet_ok:
  fixes v :: "64 word"
  assumes "sint v < 2 ^ 63 - 1"
  shows "Atomic_incrementAndGet v = Inr (v + 1, v + 1)" "sint (v + 1) = sint v + 1"
  using sint_increment [OF assms]
  by (simp_all add: Atomic_incrementAndGet_def Atomic_addAndGet_def Atomic_getAndAdd_def signed_sum_def)

text \<open>
  Drawing \<open>n\<close> numbers from a counter, in whatever order the threads call: the values handed
  out, and the content left.
\<close>

primrec draw_numbers :: "nat \<Rightarrow> 64 atomic \<Rightarrow> (int list \<times> 64 atomic) res" where
  "draw_numbers 0 v = Inr ([], v)"
| "draw_numbers (Suc n) v =
     bind_res (Atomic_incrementAndGet v) (\<lambda>(r, v').
       bind_res (draw_numbers n v') (\<lambda>(rs, v''). Inr (sint r # rs, v'')))"

text \<open>
  A counter hands out consecutive numbers: \<open>n\<close> calls of \<open>incrementAndGet\<close> return the
  \<open>n\<close> successors of the content, each once, and no call overflows while the total fits 64 bits.
\<close>

lemma counter_unique:
  fixes v :: "64 atomic"
  assumes "sint v + int n < 2 ^ 63"
  shows "returns (draw_numbers n v) (\<lambda>(rs, v').
    rs = map (\<lambda>i. sint v + 1 + int i) [0..<n] \<and> distinct rs \<and> sint (Atomic_get v') = sint v + int n)"
  using assms
proof (induction n arbitrary: v)
  case 0
  then show ?case by (simp add: Atomic_get_def)
next
  case (Suc n)
  then have lt: "sint v < 2 ^ 63 - 1" by simp
  note inc = incrementAndGet_ok [OF lt]
  have "returns (draw_numbers n (v + 1)) (\<lambda>(rs, v').
    rs = map (\<lambda>i. sint (v + 1) + 1 + int i) [0..<n] \<and> distinct rs
      \<and> sint (Atomic_get v') = sint (v + 1) + int n)"
    using Suc.prems inc by (intro Suc.IH) simp
  moreover have "map (\<lambda>i. sint v + 1 + int i) [0..<Suc n] =
      (sint v + 1) # map (\<lambda>i. sint v + 1 + 1 + int i) [0..<n]"
    by (simp add: upt_conv_Cons map_Suc_upt [symmetric] comp_def del: upt_Suc)
  ultimately show ?case
    by (auto simp: returns_iff bind_res_eq_Inr inc simp del: upt_Suc)
qed

lemma counter_unique_instance:
  "returns (draw_numbers 3 Atomic_new) (\<lambda>(rs, v'). rs = [1, 2, 3] \<and> Atomic_get v' = 3)"
  by (rule returns_mono [OF counter_unique])
    (auto simp: Atomic_new_def Atomic_get_def upt_rec numeral_3_eq_3 intro!: signed_word_eqI)

end
