(* ===== verification/Timer.thy ===== *)
theory Timer
  imports Atomic
begin

text \<open>
  \<open>net/Timer.h\<close>, \<open>net/Timer.cpp\<close> and \<open>net/TimerId.h\<close>. Times are microseconds in
  \<open>int64_t\<close>; a clock reading is a parameter of the operation that makes it. The heap maps
  the address of a timer to its object. A weak pointer is the address and the sequence number of
  the object it observes; whether it can still be locked is a parameter \<open>alive\<close>, since it
  depends on all owners of the object.
\<close>

section \<open>Timer\<close>

record 'cb timer_t =
  tm_callback :: "'cb option"
  tm_expiredTime :: int
  tm_interval :: int
  tm_repeat :: bool
  tm_sequence :: int

definition kMicroSecondsPerSecond :: int where
  "kMicroSecondsPerSecond = 1000 * 1000"

text \<open>The constructor draws the sequence number from the static counter.\<close>

definition Timer_new ::
  "'cb option \<Rightarrow> int \<Rightarrow> int \<Rightarrow> 64 atomic \<Rightarrow> ('cb timer_t \<times> 64 atomic) res" where
  "Timer_new cb timeout interval numCreated =
     bind_res (Atomic_incrementAndGet numCreated) (\<lambda>(n, numCreated').
       Inr (\<lparr>tm_callback = cb, tm_expiredTime = timeout, tm_interval = interval,
             tm_repeat = (0 < interval), tm_sequence = sint n\<rparr>, numCreated'))"

definition Timer_run :: "('cb \<Rightarrow> 's \<Rightarrow> 's res) \<Rightarrow> 'cb timer_t \<Rightarrow> 's \<Rightarrow> 's res" where
  "Timer_run call tm s =
     (case tm_callback tm of None \<Rightarrow> Inl BadFunctionCall | Some cb \<Rightarrow> call cb s)"

definition Timer_updateExpiredTime :: "int \<Rightarrow> 'cb timer_t \<Rightarrow> 'cb timer_t" where
  "Timer_updateExpiredTime timeout tm = tm\<lparr>tm_expiredTime := timeout\<rparr>"

text \<open>\<open>clock\<close> is the value \<open>Timer::now()\<close> returns inside the call.\<close>

definition Timer_isVaild :: "int \<Rightarrow> 'cb timer_t \<Rightarrow> bool" where
  "Timer_isVaild clock tm \<longleftrightarrow> clock \<le> tm_expiredTime tm"

definition Timer_invaild :: int where
  "Timer_invaild = 0"

definition Timer_restart :: "int \<Rightarrow> 'cb timer_t \<Rightarrow> 'cb timer_t res" where
  "Timer_restart now tm =
     (if tm_repeat tm
      then bind_res (int64_res (now + tm_interval tm)) (\<lambda>t. Inr (tm\<lparr>tm_expiredTime := t\<rparr>))
      else Inr (tm\<lparr>tm_expiredTime := Timer_invaild\<rparr>))"

text \<open>\<open>Timer::now\<close> from the answer of \<open>gettimeofday\<close>.\<close>

definition Timer_now :: "int \<Rightarrow> int \<Rightarrow> int res" where
  "Timer_now tv_sec tv_usec =
     bind_res (int64_res (tv_sec * kMicroSecondsPerSecond)) (\<lambda>us. int64_res (us + tv_usec))"

definition Timer_createNum :: "64 atomic \<Rightarrow> int" where
  "Timer_createNum numCreated = sint (Atomic_get numCreated)"

section \<open>TimerId\<close>

type_synonym 'cb timer_heap = "nat \<Rightarrow> 'cb timer_t option"

record timer_id =
  tid_timer :: "(nat \<times> int) option"
  tid_sequence :: int

definition TimerId_new :: timer_id where
  "TimerId_new = \<lparr>tid_timer = None, tid_sequence = 0\<rparr>"

text \<open>\<open>weak_ptr::lock\<close>.\<close>

definition weak_lock :: "(nat \<times> int \<Rightarrow> bool) \<Rightarrow> (nat \<times> int) option \<Rightarrow> nat option" where
  "weak_lock alive w = (case w of None \<Rightarrow> None | Some p \<Rightarrow> if alive p then Some (fst p) else None)"

definition TimerId_of :: "(nat \<times> int \<Rightarrow> bool) \<Rightarrow> 'cb timer_heap \<Rightarrow> nat \<times> int \<Rightarrow> timer_id" where
  "TimerId_of alive h w =
     \<lparr>tid_timer = Some w,
      tid_sequence = (case weak_lock alive (Some w) of
                        None \<Rightarrow> 0
                      | Some a \<Rightarrow> tm_sequence (the (h a)))\<rparr>"

section \<open>Properties\<close>

lemma Timer_new_ok:
  assumes "sint n < 2 ^ 63 - 1"
  shows "Timer_new cb timeout interval n = Inr (\<lparr>tm_callback = cb, tm_expiredTime = timeout,
    tm_interval = interval, tm_repeat = (0 < interval), tm_sequence = sint n + 1\<rparr>, n + 1)"
  using incrementAndGet_ok [OF assms] by (simp add: Timer_new_def)

text \<open>
  A periodic timer restarted inside the range of the clock expires one period later; a one-shot
  timer is reset to the invalid time, which no running clock reaches again.
\<close>

lemma Timer_restart_ok:
  assumes "0 < now" and "now + tm_interval tm < 2 ^ 63" and "tm_repeat tm = (0 < tm_interval tm)"
  shows "returns (Timer_restart now tm) (\<lambda>tm'.
    tm' = tm\<lparr>tm_expiredTime := if tm_repeat tm then now + tm_interval tm else 0\<rparr>
    \<and> (Timer_isVaild now tm' \<longleftrightarrow> tm_repeat tm))"
  using assms by (auto simp: Timer_restart_def int64_res_def Timer_isVaild_def Timer_invaild_def)

end
