(* ===== verification/TimerQueue.thy ===== *)
theory TimerQueue
  imports Timer Std_Containers
begin

text \<open>
  \<open>net/TimerQueue.h\<close> and \<open>net/TimerQueue.cpp\<close>. The two sets order pairs the way
  \<open>std::pair\<close> does, a \<open>shared_ptr\<close> by its address. \<open>tq_armed\<close> is the list of the
  relative times given to \<open>timerfd_settime\<close>, \<open>tq_pending\<close> the functors handed to
  \<open>queueInLoop\<close>. The heap keeps the objects; which of them an owner still holds is the
  parameter \<open>alive\<close> of the operations that lock a weak pointer.
\<close>

section \<open>State\<close>

datatype tq_functor = AddTimerInLoop nat | CancelInLoop timer_id

record 'cb timer_queue =
  tq_heap :: "'cb timer_heap"
  tq_numCreated :: "64 atomic"
  tq_timers :: "(int \<times> nat) list"
  tq_activeTimers :: "(nat \<times> int) list"
  tq_callingExpired :: bool
  tq_canceling :: "(nat \<times> int) list"
  tq_armed :: "(int \<times> int) list"
  tq_pending :: "tq_functor list"

definition TimerQueue_new :: "64 atomic \<Rightarrow> 'cb timer_queue" where
  "TimerQueue_new n = \<lparr>tq_heap = (\<lambda>_. None), tq_numCreated = n, tq_timers = [],
     tq_activeTimers = [], tq_callingExpired = False, tq_canceling = [], tq_armed = [],
     tq_pending = []\<rparr>"

definition deref :: "'cb timer_queue \<Rightarrow> nat \<Rightarrow> 'cb timer_t res" where
  "deref q a = (case tq_heap q a of None \<Rightarrow> Inl OutOfBounds | Some tm \<Rightarrow> Inr tm)"

section \<open>timerfd\<close>

definition howMuchTimeFromNow :: "int \<Rightarrow> int \<Rightarrow> (int \<times> int) res" where
  "howMuchTimeFromNow clock when =
     bind_res (int64_res (when - clock)) (\<lambda>d.
       let microseconds = (if d < 100 then 100 else d) in
       Inr (microseconds div kMicroSecondsPerSecond,
            (microseconds mod kMicroSecondsPerSecond) * 1000))"

definition resetTimerfd :: "int \<Rightarrow> int \<Rightarrow> 'cb timer_queue \<Rightarrow> 'cb timer_queue res" where
  "resetTimerfd clock when q =
     bind_res (howMuchTimeFromNow clock when) (\<lambda>ts. Inr (q\<lparr>tq_armed := tq_armed q @ [ts]\<rparr>))"

section \<open>Operations\<close>

text \<open>\<open>insert\<close>; the result says whether the timer is now the earliest.\<close>

definition TimerQueue_insert :: "nat \<Rightarrow> 'cb timer_queue \<Rightarrow> (bool \<times> 'cb timer_queue) res" where
  "TimerQueue_insert a q =
     cpp_assert (length (tq_timers q) = length (tq_activeTimers q))
      (bind_res (deref q a) (\<lambda>tm.
        let isEarliest = (tq_timers q = [] \<or> tm_expiredTime tm < fst (hd (tq_timers q)));
            entry = (tm_expiredTime tm, a); active = (a, tm_sequence tm) in
        cpp_assert (\<not> sset_member (tq_timers q) entry)
          (let q1 = q\<lparr>tq_timers := sset_insert entry (tq_timers q)\<rparr> in
           cpp_assert (\<not> sset_member (tq_activeTimers q1) active)
             (let q2 = q1\<lparr>tq_activeTimers := sset_insert active (tq_activeTimers q1)\<rparr> in
              cpp_assert (length (tq_timers q2) = length (tq_activeTimers q2))
                (Inr (isEarliest, q2))))))"

definition TimerQueue_addTimerInLoop :: "int \<Rightarrow> nat \<Rightarrow> 'cb timer_queue \<Rightarrow> 'cb timer_queue res" where
  "TimerQueue_addTimerInLoop clock a q =
     bind_res (deref q a) (\<lambda>tm.
       let expiredTime = tm_expiredTime tm in
       bind_res (TimerQueue_insert a q) (\<lambda>(isEarliest, q1).
         if isEarliest then resetTimerfd clock expiredTime q1 else Inr q1))"

text \<open>
  \<open>addTimer\<close> from the loop's thread or from another one; \<open>a\<close> is the address the
  allocator chose for the new timer, which the local \<open>shared_ptr\<close> keeps alive.
\<close>

definition TimerQueue_addTimer ::
  "bool \<Rightarrow> int \<Rightarrow> nat \<Rightarrow> 'cb option \<Rightarrow> int \<Rightarrow> int \<Rightarrow> 'cb timer_queue \<Rightarrow> (timer_id \<times> 'cb timer_queue) res" where
  "TimerQueue_addTimer inLoopThread clock a cb timeout interval q =
     bind_res (Timer_new cb timeout interval (tq_numCreated q)) (\<lambda>(tm, n).
       let q1 = q\<lparr>tq_heap := (tq_heap q)(a \<mapsto> tm), tq_numCreated := n\<rparr> in
       bind_res (if inLoopThread then TimerQueue_addTimerInLoop clock a q1
                 else Inr (q1\<lparr>tq_pending := tq_pending q1 @ [AddTimerInLoop a]\<rparr>))
         (\<lambda>q2. Inr (TimerId_of (\<lambda>_. True) (tq_heap q2) (a, tm_sequence tm), q2)))"

definition TimerQueue_cancelInLoop :: "(nat \<times> int \<Rightarrow> bool) \<Rightarrow> timer_id \<Rightarrow> 'cb timer_queue \<Rightarrow> 'cb timer_queue res" where
  "TimerQueue_cancelInLoop alive timerId q =
     cpp_assert (length (tq_timers q) = length (tq_activeTimers q))
      (case weak_lock alive (tid_timer timerId) of
         None \<Rightarrow> Inl AssertFailed
       | Some a \<Rightarrow>
           bind_res (deref q a) (\<lambda>tm.
             let timer = (a, tm_sequence tm) in
             bind_res
               (if sset_member (tq_activeTimers q) timer
                then (let entry = (tm_expiredTime tm, a) in
                      cpp_assert (sset_member (tq_timers q) entry)
                        (Inr (q\<lparr>tq_timers := sset_erase entry (tq_timers q),
                                tq_activeTimers := sset_erase timer (tq_activeTimers q)\<rparr>)))
                else if tq_callingExpired q
                then Inr (q\<lparr>tq_canceling := sset_insert timer (tq_canceling q)\<rparr>)
                else Inr q)
               (\<lambda>q1. cpp_assert (length (tq_timers q1) = length (tq_activeTimers q1)) (Inr q1))))"

definition TimerQueue_cancel :: "(nat \<times> int \<Rightarrow> bool) \<Rightarrow> bool \<Rightarrow> timer_id \<Rightarrow> 'cb timer_queue \<Rightarrow> 'cb timer_queue res" where
  "TimerQueue_cancel alive inLoopThread timerId q =
     (case weak_lock alive (tid_timer timerId) of
        None \<Rightarrow> Inr q
      | Some a \<Rightarrow>
          if inLoopThread then TimerQueue_cancelInLoop alive timerId q
          else Inr (q\<lparr>tq_pending := tq_pending q @ [CancelInLoop timerId]\<rparr>))"

text \<open>
  \<open>getExpired\<close>. The body up to its \<open>return\<close>; the second disjunct of the assertion compares
  \<open>now\<close> with the time of the sentry, which is \<open>now\<close>.
\<close>

definition sentry_ptr :: nat where
  "sentry_ptr = 2 ^ 64 - 1"

primrec drop_actives :: "(int \<times> nat) list \<Rightarrow> 'cb timer_queue \<Rightarrow> 'cb timer_queue res" where
  "drop_actives [] q = Inr q"
| "drop_actives (e # es) q =
     bind_res (deref q (snd e)) (\<lambda>tm.
       let timer = (snd e, tm_sequence tm) in
       cpp_assert (sset_member (tq_activeTimers q) timer)
         (drop_actives es (q\<lparr>tq_activeTimers := sset_erase timer (tq_activeTimers q)\<rparr>)))"

definition getExpired_scan :: "int \<Rightarrow> 'cb timer_queue \<Rightarrow> ((int \<times> nat) list \<times> 'cb timer_queue) res" where
  "getExpired_scan now q =
     cpp_assert (length (tq_timers q) = length (tq_activeTimers q))
      (let sentry = (now, sentry_ptr);
           expired = takeWhile (\<lambda>e. e < sentry) (tq_timers q);
           rest = dropWhile (\<lambda>e. e < sentry) (tq_timers q) in
       cpp_assert (rest = [] \<or> now < fst sentry)
         (bind_res (drop_actives expired (q\<lparr>tq_timers := rest\<rparr>)) (\<lambda>q1.
            cpp_assert (length (tq_timers q1) = length (tq_activeTimers q1))
              (Inr (expired, q1)))))"

text \<open>
  At the end of the function the sentry goes out of scope: its \<open>shared_ptr\<close> owns the address
  \<open>UINTPTR_MAX\<close> and deletes it.
\<close>

definition delete_timer :: "'cb timer_queue \<Rightarrow> nat \<Rightarrow> unit res" where
  "delete_timer q a = (if tq_heap q a = None then Inl InvalidDelete else Inr ())"

definition TimerQueue_getExpired ::
  "int \<Rightarrow> 'cb timer_queue \<Rightarrow> ((int \<times> nat) list \<times> 'cb timer_queue) res" where
  "TimerQueue_getExpired now q =
     bind_res (getExpired_scan now q) (\<lambda>(expired, q1).
       bind_res (delete_timer q1 sentry_ptr) (\<lambda>_. Inr (expired, q1)))"

primrec reset_loop :: "int \<Rightarrow> (int \<times> nat) list \<Rightarrow> 'cb timer_queue \<Rightarrow> 'cb timer_queue res" where
  "reset_loop now [] q = Inr q"
| "reset_loop now (e # es) q =
     bind_res (deref q (snd e)) (\<lambda>tm.
       let timer = (snd e, tm_sequence tm) in
       if tm_repeat tm \<and> \<not> sset_member (tq_canceling q) timer
       then bind_res (Timer_restart now tm) (\<lambda>tm'.
              bind_res (TimerQueue_insert (snd e) (q\<lparr>tq_heap := (tq_heap q)(snd e \<mapsto> tm')\<rparr>))
                (\<lambda>(_, q1). reset_loop now es q1))
       else reset_loop now es q)"

text \<open>\<open>clock1\<close> and \<open>clock2\<close> are the readings in \<open>isVaild\<close> and \<open>resetTimerfd\<close>.\<close>

definition TimerQueue_reset ::
  "int \<Rightarrow> int \<Rightarrow> (int \<times> nat) list \<Rightarrow> int \<Rightarrow> 'cb timer_queue \<Rightarrow> 'cb timer_queue res" where
  "TimerQueue_reset clock1 clock2 expired now q =
     bind_res (reset_loop now expired q) (\<lambda>q1.
       if tq_timers q1 \<noteq> []
       then bind_res (deref q1 (snd (hd (tq_timers q1)))) (\<lambda>tm.
              if Timer_isVaild clock1 tm then resetTimerfd clock2 (tm_expiredTime tm) q1 else Inr q1)
       else Inr q1)"

text \<open>\<open>handleRead\<close> from the point where the expired timers are known.\<close>

primrec run_timers ::
  "('cb \<Rightarrow> 'cb timer_queue \<Rightarrow> 'cb timer_queue res) \<Rightarrow> (int \<times> nat) list \<Rightarrow> 'cb timer_queue \<Rightarrow> 'cb timer_queue res" where
  "run_timers call [] q = Inr q"
| "run_timers call (e # es) q =
     bind_res (deref q (snd e)) (\<lambda>tm. bind_res (Timer_run call tm q) (run_timers call es))"

definition process_expired ::
  "('cb \<Rightarrow> 'cb timer_queue \<Rightarrow> 'cb timer_queue res) \<Rightarrow> int \<Rightarrow> int \<Rightarrow> int \<Rightarrow> (int \<times> nat) list
     \<Rightarrow> 'cb timer_queue \<Rightarrow> 'cb timer_queue res" where
  "process_expired call clock1 clock2 now expired q =
     bind_res (run_timers call expired (q\<lparr>tq_callingExpired := True, tq_canceling := []\<rparr>)) (\<lambda>q1.
       TimerQueue_reset clock1 clock2 expired now (q1\<lparr>tq_callingExpired := False\<rparr>))"

definition TimerQueue_handleRead ::
  "('cb \<Rightarrow> 'cb timer_queue \<Rightarrow> 'cb timer_queue res) \<Rightarrow> int \<Rightarrow> int \<Rightarrow> int \<Rightarrow> 'cb timer_queue
     \<Rightarrow> 'cb timer_queue res" where
  "TimerQueue_handleRead call now clock1 clock2 q =
     bind_res (TimerQueue_getExpired now q) (\<lambda>(expired, q1).
       process_expired call clock1 clock2 now expired q1)"

section \<open>Invariant\<close>

text \<open>
  The two sets hold the same timers: one under the expiry time recorded in the object, the other
  under its sequence number.
\<close>

definition active_of :: "'cb timer_heap \<Rightarrow> int \<times> nat \<Rightarrow> nat \<times> int" where
  "active_of h e = (snd e, tm_sequence (the (h (snd e))))"

definition TQ_inv :: "'cb timer_queue \<Rightarrow> bool" where
  "TQ_inv q \<longleftrightarrow> sset_inv (tq_timers q) \<and> sset_inv (tq_activeTimers q)
     \<and> (\<forall>e\<in>set (tq_timers q). \<exists>tm. tq_heap q (snd e) = Some tm \<and> tm_expiredTime tm = fst e)
     \<and> inj_on snd (set (tq_timers q))
     \<and> set (tq_activeTimers q) = active_of (tq_heap q) ` set (tq_timers q)"

text \<open>The contract of the queue: a set of timers (time, address, sequence number).\<close>

definition tq_abs :: "'cb timer_queue \<Rightarrow> (int \<times> nat \<times> int) set" where
  "tq_abs q = (\<lambda>e. (fst e, active_of (tq_heap q) e)) ` set (tq_timers q)"

lemma TQ_new_inv: "TQ_inv (TimerQueue_new n)"
  by (simp add: TQ_inv_def TimerQueue_new_def)

lemma inj_active_of: "inj_on snd A \<Longrightarrow> inj_on (active_of h) A"
  by (auto simp: inj_on_def active_of_def)

lemma TQ_sizes: "TQ_inv q \<Longrightarrow> length (tq_activeTimers q) = length (tq_timers q)"
  by (simp add: TQ_inv_def sset.size_card card_image inj_active_of)

lemma TQ_deref: "TQ_inv q \<Longrightarrow> e \<in> set (tq_timers q) \<Longrightarrow>
    \<exists>tm. tq_heap q (snd e) = Some tm \<and> tm_expiredTime tm = fst e"
  by (auto simp: TQ_inv_def)

lemma TQ_cong:
  assumes "TQ_inv q" and "tq_timers q' = tq_timers q" and "tq_activeTimers q' = tq_activeTimers q"
    and "\<And>a. a \<in> snd ` set (tq_timers q) \<Longrightarrow> tq_heap q' a = tq_heap q a"
  shows "TQ_inv q'" "tq_abs q' = tq_abs q"
proof -
  have eq: "active_of (tq_heap q') e = active_of (tq_heap q) e" if "e \<in> set (tq_timers q)" for e
    using that assms(4) by (simp add: active_of_def)
  have "active_of (tq_heap q') ` set (tq_timers q) = active_of (tq_heap q) ` set (tq_timers q)"
    by (rule image_cong) (simp_all add: eq)
  then show "TQ_inv q'" using assms by (simp add: TQ_inv_def)
  show "tq_abs q' = tq_abs q"
    unfolding tq_abs_def assms(2) by (rule image_cong) (simp_all add: eq)
qed

lemma TQ_fields [simp]:
  "TQ_inv (q\<lparr>tq_armed := x\<rparr>) = TQ_inv q" "tq_abs (q\<lparr>tq_armed := x\<rparr>) = tq_abs q"
  "TQ_inv (q\<lparr>tq_pending := fs\<rparr>) = TQ_inv q" "tq_abs (q\<lparr>tq_pending := fs\<rparr>) = tq_abs q"
  "TQ_inv (q\<lparr>tq_canceling := cs\<rparr>) = TQ_inv q" "tq_abs (q\<lparr>tq_canceling := cs\<rparr>) = tq_abs q"
  "TQ_inv (q\<lparr>tq_callingExpired := b\<rparr>) = TQ_inv q" "tq_abs (q\<lparr>tq_callingExpired := b\<rparr>) = tq_abs q"
  "TQ_inv (q\<lparr>tq_numCreated := n\<rparr>) = TQ_inv q" "tq_abs (q\<lparr>tq_numCreated := n\<rparr>) = tq_abs q"
  by (simp_all add: TQ_inv_def tq_abs_def)

section \<open>Adding\<close>

definition inserted :: "nat \<Rightarrow> 'cb timer_t \<Rightarrow> 'cb timer_queue \<Rightarrow> 'cb timer_queue" where
  "inserted a tm q = q\<lparr>tq_timers := sset_insert (tm_expiredTime tm, a) (tq_timers q),
     tq_activeTimers := sset_insert (a, tm_sequence tm) (tq_activeTimers q)\<rparr>"

definition is_earliest :: "int \<Rightarrow> 'cb timer_queue \<Rightarrow> bool" where
  "is_earliest t q \<longleftrightarrow> (\<forall>e\<in>set (tq_timers q). t < fst e)"

lemma earliest_hd:
  "TQ_inv q \<Longrightarrow> (tq_timers q = [] \<or> t < fst (hd (tq_timers q))) \<longleftrightarrow> is_earliest t q"
  by (cases "tq_timers q")
    (fastforce simp: TQ_inv_def is_earliest_def sset_inv_Cons less_prod_def')+

lemma inserted_inv:
  assumes inv: "TQ_inv q" and a: "tq_heap q a = Some tm" "a \<notin> snd ` set (tq_timers q)"
  shows "TQ_inv (inserted a tm q)"
    and "tq_abs (inserted a tm q) = insert (tm_expiredTime tm, a, tm_sequence tm) (tq_abs q)"
proof -
  from a(2) have "snd (tm_expiredTime tm, a) \<notin> snd ` set (tq_timers q)" by simp
  with inv a show "TQ_inv (inserted a tm q)"
    by (auto simp: TQ_inv_def inserted_def active_of_def)
  show "tq_abs (inserted a tm q) = insert (tm_expiredTime tm, a, tm_sequence tm) (tq_abs q)"
    using a(1) by (simp add: tq_abs_def inserted_def active_of_def)
qed

lemma insert_ok:
  assumes inv: "TQ_inv q" and a: "tq_heap q a = Some tm" "a \<notin> snd ` set (tq_timers q)"
  shows "TimerQueue_insert a q = Inr (is_earliest (tm_expiredTime tm) q, inserted a tm q)"
proof -
  have "(a, tm_sequence tm) \<notin> set (tq_activeTimers q)" "(tm_expiredTime tm, a) \<notin> set (tq_timers q)"
    using inv a by (force simp: TQ_inv_def active_of_def)+
  moreover have "length (tq_activeTimers (inserted a tm q)) = length (tq_timers (inserted a tm q))"
    by (rule TQ_sizes) (rule inserted_inv [OF assms])
  ultimately show ?thesis
    using a TQ_sizes [OF inv] earliest_hd [OF inv, of "tm_expiredTime tm"]
    by (simp add: TimerQueue_insert_def deref_def sset_member_def inserted_def)
qed

text \<open>The time given to the kernel is a valid, positive \<open>timespec\<close> of at least 100 microseconds.\<close>

definition timespec_us :: "int \<times> int \<Rightarrow> int" where
  "timespec_us ts = fst ts * 1000000 + snd ts div 1000"

definition valid_timespec :: "int \<times> int \<Rightarrow> bool" where
  "valid_timespec ts \<longleftrightarrow> 0 \<le> fst ts \<and> 0 \<le> snd ts \<and> snd ts < 1000000000"

text \<open>The clock is armed for a timer exactly when it is the new earliest one.\<close>

definition armed_for :: "int \<Rightarrow> int \<Rightarrow> 'cb timer_queue \<Rightarrow> (int \<times> int) list \<Rightarrow> bool" where
  "armed_for clock t q armed \<longleftrightarrow>
     (if is_earliest t q
      then (\<exists>ts. armed = tq_armed q @ [ts] \<and> valid_timespec ts \<and> timespec_us ts = max 100 (t - clock))
      else armed = tq_armed q)"

lemma armed_for_cong:
  "tq_timers q = tq_timers q' \<Longrightarrow> tq_armed q = tq_armed q' \<Longrightarrow>
   armed_for clock t q armed = armed_for clock t q' armed"
  by (simp add: armed_for_def is_earliest_def)

lemma howMuch_ok:
  assumes "0 \<le> clock" "clock < 2 ^ 63" "0 \<le> when" "when < 2 ^ 63"
  shows "returns (howMuchTimeFromNow clock when) (\<lambda>ts.
    valid_timespec ts \<and> timespec_us ts = max 100 (when - clock))"
proof -
  let ?m = "max 100 (when - clock)"
  have "int64_res (when - clock) = Inr (when - clock)" using assms by (simp add: int64_res_def)
  then have "howMuchTimeFromNow clock when = Inr (?m div 1000000, ?m mod 1000000 * 1000)"
    by (simp add: howMuchTimeFromNow_def kMicroSecondsPerSecond_def Let_def max_def)
  moreover have "0 < ?m" by simp
  ultimately show ?thesis
    by (simp add: valid_timespec_def timespec_us_def pos_imp_zdiv_nonneg_iff)
qed

lemma addTimerInLoop_ok:
  assumes inv: "TQ_inv q" and a: "tq_heap q a = Some tm" "a \<notin> snd ` set (tq_timers q)"
    and "0 \<le> clock" "clock < 2 ^ 63" "0 \<le> tm_expiredTime tm" "tm_expiredTime tm < 2 ^ 63"
  shows "returns (TimerQueue_addTimerInLoop clock a q) (\<lambda>q'. TQ_inv q'
    \<and> q'\<lparr>tq_armed := tq_armed q\<rparr> = inserted a tm q
    \<and> armed_for clock (tm_expiredTime tm) q (tq_armed q'))"
proof -
  obtain ts where "howMuchTimeFromNow clock (tm_expiredTime tm) = Inr ts" "valid_timespec ts"
    "timespec_us ts = max 100 (tm_expiredTime tm - clock)"
    using howMuch_ok [of clock "tm_expiredTime tm"] assms by (auto elim: returnsE)
  then show ?thesis
    using a inserted_inv(1) [OF inv a]
    by (simp add: TimerQueue_addTimerInLoop_def deref_def insert_ok [OF inv a] resetTimerfd_def
        armed_for_def del: split_paired_Ex) (auto simp: inserted_def simp del: split_paired_Ex)
qed

lemma addTimer_ok:
  assumes inv: "TQ_inv q" and a: "a \<notin> snd ` set (tq_timers q)"
    and n: "sint (tq_numCreated q) < 2 ^ 63 - 1"
    and "0 \<le> clock" "clock < 2 ^ 63" "0 \<le> timeout" "timeout < 2 ^ 63"
  shows "returns (TimerQueue_addTimer True clock a cb timeout interval q) (\<lambda>(i, q'). TQ_inv q'
    \<and> tid_timer i = Some (a, sint (tq_numCreated q) + 1)
    \<and> tq_abs q' = insert (timeout, a, sint (tq_numCreated q) + 1) (tq_abs q)
    \<and> snd ` set (tq_timers q') = insert a (snd ` set (tq_timers q))
    \<and> sint (tq_numCreated q') = sint (tq_numCreated q) + 1
    \<and> armed_for clock timeout q (tq_armed q'))"
proof -
  let ?tm = "\<lparr>tm_callback = cb, tm_expiredTime = timeout, tm_interval = interval,
             tm_repeat = (0 < interval), tm_sequence = sint (tq_numCreated q) + 1\<rparr>"
  let ?q = "q\<lparr>tq_heap := (tq_heap q)(a \<mapsto> ?tm), tq_numCreated := tq_numCreated q + 1\<rparr>"
  have q: "TQ_inv ?q" "tq_abs ?q = tq_abs q"
    by (rule TQ_cong [OF inv]; use a in \<open>auto simp: image_iff\<close>)+
  have "returns (TimerQueue_addTimerInLoop clock a ?q) (\<lambda>q'. TQ_inv q'
    \<and> q'\<lparr>tq_armed := tq_armed ?q\<rparr> = inserted a ?tm ?q
    \<and> armed_for clock timeout ?q (tq_armed q'))"
    using assms addTimerInLoop_ok [OF q(1), of a ?tm clock] by simp
  then obtain q' where q': "TimerQueue_addTimerInLoop clock a ?q = Inr q'" "TQ_inv q'"
    "q'\<lparr>tq_armed := tq_armed ?q\<rparr> = inserted a ?tm ?q" "armed_for clock timeout ?q (tq_armed q')"
    by (rule returnsE) blast
  from q'(4) have armed: "armed_for clock timeout q (tq_armed q')"
    by (simp add: armed_for_cong [of ?q q])
  have "tq_abs (q'\<lparr>tq_armed := tq_armed ?q\<rparr>) = insert (timeout, a, tm_sequence ?tm) (tq_abs ?q)"
    unfolding q'(3) using a by (subst inserted_inv(2) [OF q(1)]) auto
  moreover have "tq_timers (q'\<lparr>tq_armed := tq_armed ?q\<rparr>) = tq_timers (inserted a ?tm ?q)"
    "tq_numCreated (q'\<lparr>tq_armed := tq_armed ?q\<rparr>) = tq_numCreated (inserted a ?tm ?q)"
    unfolding q'(3) by simp_all
  ultimately show ?thesis
    using q' armed q(2) incrementAndGet_ok(2) [OF n]
    by (simp add: TimerQueue_addTimer_def Timer_new_ok [OF n] TimerId_of_def inserted_def)
qed

section \<open>Cancelling\<close>

text \<open>A weak pointer that can be locked observes the object at its address.\<close>

definition alive_ok :: "(nat \<times> int \<Rightarrow> bool) \<Rightarrow> 'cb timer_queue \<Rightarrow> bool" where
  "alive_ok alive q \<longleftrightarrow> (\<forall>a n. alive (a, n) \<longrightarrow> (\<exists>tm. tq_heap q a = Some tm \<and> tm_sequence tm = n))"

definition removed :: "int \<Rightarrow> nat \<times> int \<Rightarrow> 'cb timer_queue \<Rightarrow> 'cb timer_queue" where
  "removed t w q = q\<lparr>tq_timers := sset_erase (t, fst w) (tq_timers q),
     tq_activeTimers := sset_erase w (tq_activeTimers q)\<rparr>"

lemma removed_inv:
  assumes inv: "TQ_inv q" and e: "(t, a) \<in> set (tq_timers q)"
  shows "TQ_inv (removed t (active_of (tq_heap q) (t, a)) q)"
    and "tq_abs (removed t (active_of (tq_heap q) (t, a)) q) =
         {p \<in> tq_abs q. snd p \<noteq> active_of (tq_heap q) (t, a)}"
proof -
  have inj: "inj_on snd (set (tq_timers q))" using inv by (simp add: TQ_inv_def)
  have img: "active_of (tq_heap q) ` (set (tq_timers q) - {(t, a)}) =
      active_of (tq_heap q) ` set (tq_timers q) - {active_of (tq_heap q) (t, a)}"
    using e inj_on_image_set_diff [OF inj_active_of [OF inj], of "set (tq_timers q)" "{(t, a)}"]
    by simp
  have a: "fst (active_of (tq_heap q) (t, a)) = a" by (simp add: active_of_def)
  show "TQ_inv (removed t (active_of (tq_heap q) (t, a)) q)"
    using inv img unfolding TQ_inv_def removed_def a
    by (auto intro: inj_on_subset)
  have "active_of (tq_heap q) x \<noteq> active_of (tq_heap q) (t, a) \<longleftrightarrow> x \<noteq> (t, a)"
    if "x \<in> set (tq_timers q)" for x
    using that e inj_onD [OF inj_active_of [OF inj]] by metis
  then show "tq_abs (removed t (active_of (tq_heap q) (t, a)) q) =
         {p \<in> tq_abs q. snd p \<noteq> active_of (tq_heap q) (t, a)}"
    unfolding tq_abs_def removed_def a by auto
qed

lemma cancelInLoop_ok:
  assumes inv: "TQ_inv q" and "alive_ok alive q" and w: "tid_timer i = Some (a, n)" "alive (a, n)"
  shows "returns (TimerQueue_cancelInLoop alive i q) (\<lambda>q'. TQ_inv q'
    \<and> tq_abs q' = {p \<in> tq_abs q. snd p \<noteq> (a, n)}
    \<and> snd ` set (tq_timers q') \<subseteq> snd ` set (tq_timers q) \<and> tq_numCreated q' = tq_numCreated q)"
proof -
  from assms obtain tm where tm: "tq_heap q a = Some tm" "tm_sequence tm = n"
    by (auto simp: alive_ok_def)
  show ?thesis
  proof (cases "(a, n) \<in> set (tq_activeTimers q)")
    case True
    then obtain t where t: "(t, a) \<in> set (tq_timers q)"
      using inv by (auto simp: TQ_inv_def active_of_def)
    with inv tm have "tm_expiredTime tm = t" by (auto simp: TQ_inv_def)
    moreover have aw: "active_of (tq_heap q) (t, a) = (a, n)" using tm by (simp add: active_of_def)
    note r = removed_inv [OF inv t, unfolded aw]
    note TQ_sizes [OF r(1)] TQ_sizes [OF inv]
    ultimately show ?thesis
      using w tm True t r
      by (auto simp: TimerQueue_cancelInLoop_def weak_lock_def deref_def sset_member_def removed_def)
  next
    case False
    then have "(a, n) \<notin> active_of (tq_heap q) ` set (tq_timers q)"
      using inv by (simp add: TQ_inv_def)
    then have "{p \<in> tq_abs q. snd p \<noteq> (a, n)} = tq_abs q"
      by (auto simp: tq_abs_def) (metis imageI)
    then show ?thesis
      using w tm False TQ_sizes [OF inv] inv
      by (simp add: TimerQueue_cancelInLoop_def weak_lock_def deref_def sset_member_def)
  qed
qed

section \<open>Sequences of additions and cancellations\<close>

text \<open>
  What the program asks of the queue from the loop's thread: add a timer at the address \<open>a\<close>,
  or cancel the timer a weak pointer observes; \<open>held\<close> says whether an owner is left.
\<close>

datatype 'cb tq_op =
    AddOp (op_addr: nat) (op_clock: int) "'cb option" (op_timeout: int) int
  | CancelOp "nat \<times> int" bool

definition observed :: "'cb timer_queue \<Rightarrow> nat \<times> int \<Rightarrow> bool" where
  "observed q w \<longleftrightarrow> (case tq_heap q (fst w) of None \<Rightarrow> False | Some tm \<Rightarrow> tm_sequence tm = snd w)"

fun tq_do :: "'cb tq_op \<Rightarrow> 'cb timer_queue \<Rightarrow> 'cb timer_queue res" where
  "tq_do (AddOp a clock cb timeout interval) q =
     bind_res (TimerQueue_addTimer True clock a cb timeout interval q) (\<lambda>(_, q'). Inr q')"
| "tq_do (CancelOp w held) q =
     TimerQueue_cancel (\<lambda>p. held \<and> observed q p) True \<lparr>tid_timer = Some w, tid_sequence = snd w\<rparr> q"

fun tq_spec :: "'cb tq_op \<Rightarrow> int \<times> (int \<times> nat \<times> int) set \<Rightarrow> int \<times> (int \<times> nat \<times> int) set" where
  "tq_spec (AddOp a clock cb timeout interval) (n, S) = (n + 1, insert (timeout, a, n + 1) S)"
| "tq_spec (CancelOp w held) (n, S) = (n, if held then {p \<in> S. snd p \<noteq> w} else S)"

fun add_addrs :: "'cb tq_op list \<Rightarrow> nat list" where
  "add_addrs [] = []"
| "add_addrs (AddOp a _ _ _ _ # ops) = a # add_addrs ops"
| "add_addrs (CancelOp _ _ # ops) = add_addrs ops"

definition op_times_ok :: "'cb tq_op \<Rightarrow> bool" where
  "op_times_ok x = (case x of AddOp _ clock _ timeout _ \<Rightarrow>
       0 \<le> clock \<and> clock < 2 ^ 63 \<and> 0 \<le> timeout \<and> timeout < 2 ^ 63 | CancelOp _ _ \<Rightarrow> True)"

lemma observed_alive: "alive_ok (\<lambda>p. held \<and> observed q p) q"
  by (auto simp: alive_ok_def observed_def split: option.splits)

lemma tq_cancel_refines:
  assumes "TQ_inv q"
  shows "returns (tq_do (CancelOp w held) q) (\<lambda>q'. TQ_inv q'
    \<and> (sint (tq_numCreated q'), tq_abs q') = tq_spec (CancelOp w held) (sint (tq_numCreated q), tq_abs q)
    \<and> snd ` set (tq_timers q') \<subseteq> snd ` set (tq_timers q))"
proof (cases "held \<and> observed q w")
  case True
  obtain a n where w: "w = (a, n)" by (cases w)
  show ?thesis
    using True cancelInLoop_ok [OF assms observed_alive, of "\<lparr>tid_timer = Some w, tid_sequence = snd w\<rparr>" a n held]
    by (auto simp: TimerQueue_cancel_def weak_lock_def w elim: returns_mono)
next
  case False
  have "{p \<in> tq_abs q. snd p \<noteq> w} = tq_abs q" if "\<not> observed q w"
    using that assms by (force simp: tq_abs_def TQ_inv_def active_of_def observed_def split: option.splits)
  with False assms show ?thesis by (auto simp: TimerQueue_cancel_def weak_lock_def)
qed



text \<open>
  A timer cancelled from another thread: \<open>cancel\<close> only queues the work, and when the timer
  has fired and been destroyed before the loop gets to it, the queued call aborts the program.
\<close>

lemma cancel_race_aborts:
  assumes "tid_timer i = Some w" and "alive w"
  shows "TimerQueue_cancel alive False i q = Inr (q\<lparr>tq_pending := tq_pending q @ [CancelInLoop i]\<rparr>)"
    and "TQ_inv q' \<Longrightarrow> \<not> alive' w \<Longrightarrow> TimerQueue_cancelInLoop alive' i q' = Inl AssertFailed"
  using assms by (simp_all add: TimerQueue_cancel_def TimerQueue_cancelInLoop_def weak_lock_def)

lemma cancel_race_aborts_instance:
  "TimerQueue_cancel (\<lambda>_. True) False \<lparr>tid_timer = Some (5, 1), tid_sequence = 1\<rparr>
      (TimerQueue_new 1 :: unit timer_queue) =
    Inr ((TimerQueue_new 1)\<lparr>tq_pending := [CancelInLoop \<lparr>tid_timer = Some (5, 1), tid_sequence = 1\<rparr>]\<rparr>)
   \<and> TimerQueue_cancelInLoop (\<lambda>_. False) \<lparr>tid_timer = Some (5, 1), tid_sequence = 1\<rparr>
      (TimerQueue_new 1 :: unit timer_queue) = Inl AssertFailed"
proof
  show "TimerQueue_cancel (\<lambda>_. True) False \<lparr>tid_timer = Some (5, 1), tid_sequence = 1\<rparr>
      (TimerQueue_new 1 :: unit timer_queue) =
    Inr ((TimerQueue_new 1)\<lparr>tq_pending := [CancelInLoop \<lparr>tid_timer = Some (5, 1), tid_sequence = 1\<rparr>]\<rparr>)"
    by (subst cancel_race_aborts(1)) (simp_all add: TimerQueue_new_def)
  show "TimerQueue_cancelInLoop (\<lambda>_. False) \<lparr>tid_timer = Some (5, 1), tid_sequence = 1\<rparr>
      (TimerQueue_new 1 :: unit timer_queue) = Inl AssertFailed"
    by (rule cancel_race_aborts(2) [where alive = "\<lambda>_. True"]) (simp_all add: TQ_new_inv)
qed

section \<open>Expiry\<close>

lemma drop_actives_ok:
  assumes "sset_inv (tq_activeTimers q)" and "\<And>e. e \<in> set es \<Longrightarrow> tq_heap q (snd e) \<noteq> None"
    and "distinct es" and "inj_on snd (set es)"
    and "active_of (tq_heap q) ` set es \<subseteq> set (tq_activeTimers q)"
  shows "\<exists>A. drop_actives es q = Inr (q\<lparr>tq_activeTimers := A\<rparr>) \<and> sset_inv A
           \<and> set A = set (tq_activeTimers q) - active_of (tq_heap q) ` set es"
  using assms
proof (induction es arbitrary: q)
  case Nil
  then show ?case by (intro exI [of _ "tq_activeTimers q"]) simp
next
  case (Cons e es)
  from Cons.prems(2) [of e] obtain tm where tm: "tq_heap q (snd e) = Some tm" by auto
  then have w: "active_of (tq_heap q) e = (snd e, tm_sequence tm)" by (simp add: active_of_def)
  let ?q = "q\<lparr>tq_activeTimers := sset_erase (active_of (tq_heap q) e) (tq_activeTimers q)\<rparr>"
  have "active_of (tq_heap q) e \<notin> active_of (tq_heap q) ` set es"
    using inj_active_of [OF Cons.prems(4), of "tq_heap q"] Cons.prems(3) by (auto simp: inj_on_def)
  then have "\<exists>A. drop_actives es ?q = Inr (?q\<lparr>tq_activeTimers := A\<rparr>) \<and> sset_inv A
      \<and> set A = set (tq_activeTimers ?q) - active_of (tq_heap ?q) ` set es"
    using Cons.prems by (intro Cons.IH) (auto intro: inj_on_subset)
  moreover have "drop_actives (e # es) q = drop_actives es ?q"
    using Cons.prems(5) tm w by (simp add: deref_def sset_member_def)
  ultimately show ?case by auto
qed

lemma before_sentry:
  fixes e :: "int \<times> nat"
  shows "snd e < sentry_ptr \<Longrightarrow> e < (now, sentry_ptr) \<longleftrightarrow> fst e \<le> now"
  by (cases e) auto

lemma scan_all:
  assumes inv: "TQ_inv q" and "\<And>e. e \<in> set (tq_timers q) \<Longrightarrow> snd e < sentry_ptr \<and> fst e \<le> now"
  shows "getExpired_scan now q = Inr (tq_timers q, q\<lparr>tq_timers := [], tq_activeTimers := []\<rparr>)"
proof -
  have all: "e < (now, sentry_ptr)" if "e \<in> set (tq_timers q)" for e
    using assms(2) [OF that] by (simp add: before_sentry)
  then have split: "takeWhile (\<lambda>e. e < (now, sentry_ptr)) (tq_timers q) = tq_timers q"
    "dropWhile (\<lambda>e. e < (now, sentry_ptr)) (tq_timers q) = []"
    by (auto simp: takeWhile_eq_all_conv)
  obtain A where A: "drop_actives (tq_timers q) (q\<lparr>tq_timers := []\<rparr>) =
      Inr (q\<lparr>tq_timers := [], tq_activeTimers := A\<rparr>)"
    "set A = set (tq_activeTimers q) - active_of (tq_heap q) ` set (tq_timers q)"
    using drop_actives_ok [of "q\<lparr>tq_timers := []\<rparr>" "tq_timers q"] inv TQ_deref [OF inv]
    by (fastforce simp: TQ_inv_def sset_inv_distinct)
  moreover have "A = []" using A(2) inv by (simp add: TQ_inv_def)
  ultimately show ?thesis
    unfolding getExpired_scan_def Let_def split using TQ_sizes [OF inv] by simp
qed

lemma scan_some:
  assumes inv: "TQ_inv q" and e: "e \<in> set (tq_timers q)" "now < fst e"
  shows "getExpired_scan now q = Inl AssertFailed"
proof -
  have "\<not> e < (now, sentry_ptr)" using e(2) by (cases e) auto
  then have "dropWhile (\<lambda>e. e < (now, sentry_ptr)) (tq_timers q) \<noteq> []"
    using e(1) by (metis dropWhile_eq_Nil_conv)
  then show ?thesis using TQ_sizes [OF inv] by (auto simp: getExpired_scan_def Let_def)
qed

text \<open>
  C37. The first expiry of the timer descriptor ends the program, whatever is queued: with a
  timer not yet due the assertion in \<open>getExpired\<close> fails, and otherwise its sentry deletes an
  address that was never allocated. No timer callback ever runs.
\<close>

theorem first_expiry_crashes:
  assumes inv: "TQ_inv q" and "\<forall>e\<in>set (tq_timers q). snd e < sentry_ptr"
    and "tq_heap q sentry_ptr = None"
  shows "TimerQueue_handleRead call now clock1 clock2 q =
    Inl (if \<exists>e\<in>set (tq_timers q). now < fst e then AssertFailed else InvalidDelete)"
proof (cases "\<exists>e\<in>set (tq_timers q). now < fst e")
  case True
  then obtain e where e: "e \<in> set (tq_timers q)" "now < fst e" by blast
  from scan_some [OF inv e] True show ?thesis
    by (simp add: TimerQueue_handleRead_def TimerQueue_getExpired_def)
next
  case False
  with assms have "getExpired_scan now q = Inr (tq_timers q, q\<lparr>tq_timers := [], tq_activeTimers := []\<rparr>)"
    by (intro scan_all) (auto simp: not_less)
  with False assms show ?thesis
    by (simp add: TimerQueue_handleRead_def TimerQueue_getExpired_def delete_timer_def)
qed

definition one_timer :: "int \<Rightarrow> nat timer_queue" where
  "one_timer interval = \<lparr>tq_heap = [5 \<mapsto> \<lparr>tm_callback = Some 0, tm_expiredTime = 900,
     tm_interval = interval, tm_repeat = (0 < interval), tm_sequence = 1\<rparr>], tq_numCreated = 1,
     tq_timers = [(900, 5)], tq_activeTimers = [(5, 1)], tq_callingExpired = False, tq_canceling = [],
     tq_armed = [], tq_pending = []\<rparr>"

lemma one_timer_inv: "TQ_inv (one_timer i)"
  by (simp add: TQ_inv_def one_timer_def active_of_def sset_inv_def)

theorem first_expiry_crashes_witness:
  "TimerQueue_handleRead (\<lambda>_. Inr) 1000 1001 1002 (one_timer 0) = Inl InvalidDelete"
  by (subst first_expiry_crashes [OF one_timer_inv]) (auto simp: one_timer_def sentry_ptr_def)

section \<open>Running the expired timers\<close>

text \<open>The periodic timers that a round puts back, with their new expiry times.\<close>

definition rearmed :: "int \<Rightarrow> (int \<times> nat) list \<Rightarrow> 'cb timer_queue \<Rightarrow> (int \<times> nat \<times> int) set" where
  "rearmed now es q = {(now + tm_interval tm, snd e, tm_sequence tm) | e tm.
     e \<in> set es \<and> tq_heap q (snd e) = Some tm \<and> tm_repeat tm \<and> (snd e, tm_sequence tm) \<notin> set (tq_canceling q)}"

text \<open>The timers of a round are outside the queue and their periods do not overflow the clock.\<close>

definition round_ok :: "int \<Rightarrow> (int \<times> nat) list \<Rightarrow> 'cb timer_queue \<Rightarrow> bool" where
  "round_ok now es q \<longleftrightarrow> distinct es \<and> inj_on snd (set es) \<and>
     (\<forall>e\<in>set es. snd e \<notin> snd ` set (tq_timers q) \<and> (\<exists>tm. tq_heap q (snd e) = Some tm
        \<and> tm_repeat tm = (0 < tm_interval tm) \<and> now + tm_interval tm < 2 ^ 63))"

lemma rearmed_step:
  assumes "tq_heap q (snd e) = Some tm" and "inj_on snd (set (e # es))" and "e \<notin> set es"
    and "\<And>a. a \<noteq> snd e \<Longrightarrow> tq_heap q' a = tq_heap q a" and "tq_canceling q' = tq_canceling q"
  shows "rearmed now (e # es) q = rearmed now es q' \<union>
    (if tm_repeat tm \<and> (snd e, tm_sequence tm) \<notin> set (tq_canceling q)
     then {(now + tm_interval tm, snd e, tm_sequence tm)} else {})"
proof -
  have "snd x \<noteq> snd e" if "x \<in> set es" for x
    using that assms(2,3) by (auto simp: inj_on_def)
  then have "rearmed now es q' = rearmed now es q"
    unfolding rearmed_def assms(5) using assms(4) by fastforce
  then show ?thesis
    using assms(1) by (cases e) (auto simp: rearmed_def)
qed

lemma restart_in_round:
  assumes "0 < now" and "tm_repeat tm = (0 < tm_interval tm)" and "now + tm_interval tm < 2 ^ 63"
    and "tm_repeat tm"
  shows "Timer_restart now tm = Inr (tm\<lparr>tm_expiredTime := now + tm_interval tm\<rparr>)"
  using Timer_restart_ok [of now tm] assms by (auto simp: returns_iff)

lemma reset_loop_ok:
  assumes "TQ_inv q" and "round_ok now es q" and "0 < now"
  shows "returns (reset_loop now es q) (\<lambda>q'. TQ_inv q' \<and> tq_abs q' = tq_abs q \<union> rearmed now es q
    \<and> tq_armed q' = tq_armed q \<and> tq_callingExpired q' = tq_callingExpired q)"
  using assms
proof (induction es arbitrary: q)
  case Nil
  then show ?case by (simp add: rearmed_def)
next
  case (Cons e es)
  from Cons.prems(2) obtain tm where tm: "tq_heap q (snd e) = Some tm"
    "tm_repeat tm = (0 < tm_interval tm)" "now + tm_interval tm < 2 ^ 63"
    and out: "snd e \<notin> snd ` set (tq_timers q)" and inj: "inj_on snd (set (e # es))" "e \<notin> set es"
    by (auto simp: round_ok_def)
  have apart: "snd x \<noteq> snd e" if "x \<in> set es" for x
    using that inj by (auto simp: inj_on_def)
  show ?case
  proof (cases "tm_repeat tm \<and> (snd e, tm_sequence tm) \<notin> set (tq_canceling q)")
    case False
    have "round_ok now es q" using Cons.prems(2) by (auto simp: round_ok_def)
    with Cons.IH [of q] Cons.prems False tm(1) rearmed_step [OF tm(1) inj, of q now] show ?thesis
      by (auto simp: deref_def sset_member_def elim!: returns_mono)
  next
    case True
    let ?tm = "tm\<lparr>tm_expiredTime := now + tm_interval tm\<rparr>"
    let ?q = "q\<lparr>tq_heap := (tq_heap q)(snd e \<mapsto> ?tm)\<rparr>"
    have q: "TQ_inv ?q" "tq_abs ?q = tq_abs q"
      by (rule TQ_cong [OF Cons.prems(1)]; use out in \<open>auto simp: image_iff\<close>)+
    have ins: "TQ_inv (inserted (snd e) ?tm ?q)"
      "tq_abs (inserted (snd e) ?tm ?q) = insert (now + tm_interval tm, snd e, tm_sequence tm) (tq_abs q)"
      using inserted_inv [OF q(1), of "snd e" ?tm] out q(2) by simp_all
    have "round_ok now es (inserted (snd e) ?tm ?q)"
      using Cons.prems(2) apart by (auto simp: round_ok_def inserted_def)
    note IH = Cons.IH [OF ins(1) this \<open>0 < now\<close>]
    have "rearmed now (e # es) q = rearmed now es (inserted (snd e) ?tm ?q) \<union>
        {(now + tm_interval tm, snd e, tm_sequence tm)}"
      using True by (subst rearmed_step [OF tm(1) inj, of "inserted (snd e) ?tm ?q"])
        (simp_all add: inserted_def)
    moreover have "reset_loop now (e # es) q = reset_loop now es (inserted (snd e) ?tm ?q)"
      using True tm out insert_ok [OF q(1), of "snd e" ?tm] restart_in_round [OF \<open>0 < now\<close> tm(2,3)]
      by (simp add: deref_def sset_member_def)
    moreover have "tq_armed (inserted (snd e) ?tm ?q) = tq_armed q"
      "tq_callingExpired (inserted (snd e) ?tm ?q) = tq_callingExpired q"
      by (simp_all add: inserted_def)
    ultimately show ?thesis
      using ins(2) by (simp only:) (rule returns_mono [OF IH], auto)
  qed
qed

text \<open>What a callback may do in a round: anything that keeps the queue consistent and leaves the
  timers of the round alone, such as adding timers and cancelling any timer.\<close>

definition in_round :: "(int \<times> nat) list \<Rightarrow> 'cb timer_heap \<Rightarrow> 'cb timer_queue \<Rightarrow> bool" where
  "in_round es h q \<longleftrightarrow> TQ_inv q \<and> tq_callingExpired q \<and> (\<forall>p\<in>tq_abs q. fst p < 2 ^ 63)
     \<and> (\<forall>e\<in>set es. tq_heap q (snd e) = h (snd e) \<and> snd e \<notin> snd ` set (tq_timers q))"

lemma run_timers_ok:
  assumes "in_round es h q" and "set xs \<subseteq> set es"
    and "\<And>c q. in_round es h q \<Longrightarrow> returns (call c q) (in_round es h)"
    and "\<And>e. e \<in> set es \<Longrightarrow> \<exists>tm cb. h (snd e) = Some tm \<and> tm_callback tm = Some cb"
  shows "returns (run_timers call xs q) (in_round es h)"
  using assms(1,2)
proof (induction xs arbitrary: q)
  case Nil
  then show ?case by simp
next
  case (Cons x xs)
  then obtain tm cb where "tq_heap q (snd x) = Some tm" "tm_callback tm = Some cb"
    using assms(4) [of x] by (auto simp: in_round_def)
  moreover have "returns (bind_res (call cb q) (run_timers call xs)) (in_round es h)"
    using Cons assms(3) by (intro returns_bind [where P = "in_round es h"]) auto
  ultimately show ?case by (simp add: deref_def Timer_run_def)
qed

text \<open>After a round the clock is armed for the earliest timer unless that one is already due.\<close>

definition armed_after :: "int \<Rightarrow> int \<Rightarrow> (int \<times> int) list \<Rightarrow> 'cb timer_queue \<Rightarrow> bool" where
  "armed_after clock1 clock2 armed q \<longleftrightarrow>
     (if tq_timers q \<noteq> [] \<and> clock1 \<le> fst (hd (tq_timers q))
      then \<exists>ts. tq_armed q = armed @ [ts] \<and> valid_timespec ts
             \<and> timespec_us ts = max 100 (fst (hd (tq_timers q)) - clock2)
      else tq_armed q = armed)"

lemma reset_ok:
  assumes "TQ_inv q" and "round_ok now es q" and "0 < now" and "\<forall>p\<in>tq_abs q. fst p < 2 ^ 63"
    and "0 \<le> clock1" and "0 \<le> clock2" "clock2 < 2 ^ 63"
  shows "returns (TimerQueue_reset clock1 clock2 es now q) (\<lambda>q'. TQ_inv q'
    \<and> tq_abs q' = tq_abs q \<union> rearmed now es q \<and> tq_callingExpired q' = tq_callingExpired q
    \<and> armed_after clock1 clock2 (tq_armed q) q')"
proof -
  from reset_loop_ok [OF assms(1-3)] obtain q1 where q1: "reset_loop now es q = Inr q1" "TQ_inv q1"
    "tq_abs q1 = tq_abs q \<union> rearmed now es q" "tq_armed q1 = tq_armed q"
    "tq_callingExpired q1 = tq_callingExpired q" by (auto elim: returnsE)
  show ?thesis
  proof (cases "tq_timers q1 = []")
    case True
    with q1 show ?thesis by (simp add: TimerQueue_reset_def armed_after_def)
  next
    case False
    then have "hd (tq_timers q1) \<in> set (tq_timers q1)" by simp
    moreover obtain tm where tm: "tq_heap q1 (snd (hd (tq_timers q1))) = Some tm"
      "tm_expiredTime tm = fst (hd (tq_timers q1))"
      using TQ_deref [OF q1(2) calculation] by blast
    moreover have "fst p < 2 ^ 63" if "p \<in> tq_abs q1" for p
      using that assms(2,4) unfolding q1(3) by (auto simp: rearmed_def round_ok_def)
    ultimately have lt: "tm_expiredTime tm < 2 ^ 63" by (fastforce simp: tq_abs_def)
    show ?thesis
    proof (cases "clock1 \<le> tm_expiredTime tm")
      case True
      then obtain ts where "howMuchTimeFromNow clock2 (tm_expiredTime tm) = Inr ts" "valid_timespec ts"
        "timespec_us ts = max 100 (tm_expiredTime tm - clock2)"
        using howMuch_ok [of clock2 "tm_expiredTime tm"] assms lt by (auto elim: returnsE)
      then show ?thesis
        using q1 tm True False
        by (simp add: TimerQueue_reset_def deref_def Timer_isVaild_def resetTimerfd_def armed_after_def
            del: split_paired_Ex)
    next
      case invalid: False
      then show ?thesis
        using q1 tm False by (simp add: TimerQueue_reset_def deref_def Timer_isVaild_def armed_after_def)
    qed
  qed
qed



end
