(* ===== verification/EventLoop.thy ===== *)
theory EventLoop
  imports Epoll TimerQueue
begin

text \<open>
  \<open>net/EventLoop.h\<close> and \<open>net/EventLoop.cpp\<close>. The state of a loop is a record; a functor
  is a value of a type parameter, run by a parameter \<open>call\<close>; \<open>el_wakeups\<close> is the counter of
  the eventfd, to which \<open>wakeup\<close> adds one and which reading clears (eventfd(2)). The first part
  is the code; the second runs it: a loop on a script of poll results, and the loop's thread
  interleaved with other threads as a step relation.
\<close>

section \<open>State\<close>

datatype loop_cb = TimerQueueRead | WakeupRead

record 'f event_loop =
  el_looping :: bool
  el_quit :: bool
  el_callingPending :: bool
  el_threadId :: int
  el_epoll :: epoll_t
  el_timerChannel :: "loop_cb channel_t"
  el_wakeupChannel :: "loop_cb channel_t"
  el_pending :: "'f list"
  el_wakeups :: nat

definition kEpollTimeMs :: int where
  "kEpollTimeMs = 10000"

definition EventLoop_isInLoopThread :: "int \<Rightarrow> 'f event_loop \<Rightarrow> bool" where
  "EventLoop_isInLoopThread tid el \<longleftrightarrow> el_threadId el = tid"

text \<open>
  The constructor at address \<open>loop\<close>; \<open>tchan\<close> and \<open>wchan\<close> are the addresses of the
  timer queue's and the wakeup channel. \<open>quit_\<close> is not initialised: its value is a parameter.
\<close>

definition TimerQueue_channel ::
  "nat \<Rightarrow> nat \<Rightarrow> int \<Rightarrow> epoll_t \<Rightarrow> (loop_cb channel_t \<times> epoll_t) res" where
  "TimerQueue_channel loop tchan timerfd ep =
     Channel_enableReading tchan
       (Channel_setReadCallback (Some TimerQueueRead) (Channel_new loop timerfd), ep)"

definition EventLoop_new ::
  "int \<Rightarrow> nat \<Rightarrow> nat \<Rightarrow> int \<Rightarrow> nat \<Rightarrow> int \<Rightarrow> bool \<Rightarrow> 'f event_loop res" where
  "EventLoop_new tid loop tchan timerfd wchan wakeupFd quit0 =
     bind_res (TimerQueue_channel loop tchan timerfd Epoll_new) (\<lambda>(tch, ep1).
     bind_res (Channel_enableReading wchan
         (Channel_setReadCallback (Some WakeupRead) (Channel_new loop wakeupFd), ep1)) (\<lambda>(wch, ep2).
     Inr \<lparr>el_looping = False, el_quit = quit0, el_callingPending = False, el_threadId = tid,
          el_epoll = ep2, el_timerChannel = tch, el_wakeupChannel = wch, el_pending = [],
          el_wakeups = 0\<rparr>))"

text \<open>The destructor, followed by those of the wakeup channel and of the timer queue's channel.\<close>

definition TimerQueue_delete :: "loop_cb channel_t \<Rightarrow> unit res" where
  "TimerQueue_delete tch = Channel_delete tch"

definition EventLoop_delete :: "nat \<Rightarrow> 'f event_loop \<Rightarrow> unit res" where
  "EventLoop_delete wchan el =
     cpp_assert (\<not> el_looping el)
       (bind_res (Channel_disableAll wchan (el_wakeupChannel el, el_epoll el)) (\<lambda>s1.
        bind_res (Channel_remove wchan s1) (\<lambda>(wch, ep).
        bind_res (Channel_delete wch) (\<lambda>_.
        TimerQueue_delete (el_timerChannel el)))))"

section \<open>Queueing work and waking the loop\<close>

definition EventLoop_wakeup :: "'f event_loop \<Rightarrow> 'f event_loop" where
  "EventLoop_wakeup el = el\<lparr>el_wakeups := el_wakeups el + 1\<rparr>"

definition EventLoop_handleRead :: "'f event_loop \<Rightarrow> 'f event_loop" where
  "EventLoop_handleRead el = el\<lparr>el_wakeups := 0\<rparr>"

definition EventLoop_quit :: "int \<Rightarrow> 'f event_loop \<Rightarrow> 'f event_loop" where
  "EventLoop_quit tid el =
     (let el1 = el\<lparr>el_quit := True\<rparr> in
      if \<not> EventLoop_isInLoopThread tid el1 then EventLoop_wakeup el1 else el1)"

text \<open>The critical section of \<open>queueInLoop\<close>.\<close>

definition push_functor :: "'f \<Rightarrow> 'f event_loop \<Rightarrow> 'f event_loop" where
  "push_functor cb el = el\<lparr>el_pending := el_pending el @ [cb]\<rparr>"

text \<open>When \<open>queueInLoop\<close> wakes the loop.\<close>

definition queue_wakes :: "int \<Rightarrow> 'f event_loop \<Rightarrow> bool" where
  "queue_wakes tid el \<longleftrightarrow> \<not> EventLoop_isInLoopThread tid el \<or> el_callingPending el"

definition EventLoop_queueInLoop :: "int \<Rightarrow> 'f \<Rightarrow> 'f event_loop \<Rightarrow> 'f event_loop" where
  "EventLoop_queueInLoop tid cb el =
     (let el1 = push_functor cb el in
      if queue_wakes tid el1 then EventLoop_wakeup el1 else el1)"

definition EventLoop_runInLoop ::
  "('f \<Rightarrow> 'f event_loop \<Rightarrow> 'f event_loop res) \<Rightarrow> int \<Rightarrow> 'f \<Rightarrow> 'f event_loop \<Rightarrow> 'f event_loop res" where
  "EventLoop_runInLoop call tid cb el =
     (if EventLoop_isInLoopThread tid el then call cb el else Inr (EventLoop_queueInLoop tid cb el))"

definition EventLoop_doPendingFunctors ::
  "('f \<Rightarrow> 'f event_loop \<Rightarrow> 'f event_loop res) \<Rightarrow> 'f event_loop \<Rightarrow> 'f event_loop res" where
  "EventLoop_doPendingFunctors call el =
     (let el1 = el\<lparr>el_callingPending := True\<rparr>;
          functors = el_pending el1;
          el2 = el1\<lparr>el_pending := []\<rparr> in
      bind_res (fold_res call functors el2) (\<lambda>el3. Inr (el3\<lparr>el_callingPending := False\<rparr>)))"

text \<open>Timers are added through the queue; \<open>clock\<close> is the reading of \<open>Timer::now()\<close>.\<close>

definition EventLoop_runAt ::
  "bool \<Rightarrow> int \<Rightarrow> nat \<Rightarrow> int \<Rightarrow> 'cb option \<Rightarrow> 'cb timer_queue \<Rightarrow> (timer_id \<times> 'cb timer_queue) res" where
  "EventLoop_runAt inLoop clock a time cb tq = TimerQueue_addTimer inLoop clock a cb time 0 tq"

definition EventLoop_runAfter ::
  "bool \<Rightarrow> int \<Rightarrow> int \<Rightarrow> nat \<Rightarrow> int \<Rightarrow> 'cb option \<Rightarrow> 'cb timer_queue \<Rightarrow> (timer_id \<times> 'cb timer_queue) res" where
  "EventLoop_runAfter inLoop now clock a delay cb tq =
     bind_res (int64_res (now + delay)) (\<lambda>t. EventLoop_runAt inLoop clock a t cb tq)"

definition EventLoop_runEvery ::
  "bool \<Rightarrow> int \<Rightarrow> int \<Rightarrow> nat \<Rightarrow> int \<Rightarrow> 'cb option \<Rightarrow> 'cb timer_queue \<Rightarrow> (timer_id \<times> 'cb timer_queue) res" where
  "EventLoop_runEvery inLoop now clock a interval cb tq =
     TimerQueue_addTimer inLoop clock a cb now interval tq"

definition EventLoop_cancle ::
  "(nat \<times> int \<Rightarrow> bool) \<Rightarrow> bool \<Rightarrow> timer_id \<Rightarrow> 'cb timer_queue \<Rightarrow> 'cb timer_queue res" where
  "EventLoop_cancle alive inLoop timerId tq = TimerQueue_cancel alive inLoop timerId tq"

section \<open>The loop\<close>

text \<open>
  A script gives, for each \<open>poll\<close>, the handlers of the active channels. When it is used up the
  loop waits in \<open>poll\<close> for ever: the result is \<open>None\<close>.
\<close>

fun loop_rounds ::
  "('h \<Rightarrow> 'f event_loop \<Rightarrow> 'f event_loop res) \<Rightarrow> ('f \<Rightarrow> 'f event_loop \<Rightarrow> 'f event_loop res)
     \<Rightarrow> 'h list list \<Rightarrow> 'f event_loop \<Rightarrow> 'f event_loop option res" where
  "loop_rounds handle call script el =
     (if el_quit el then Inr (Some el)
      else case script of
        [] \<Rightarrow> Inr None
      | active # rest \<Rightarrow>
          bind_res (fold_res handle active el) (\<lambda>el1.
          bind_res (EventLoop_doPendingFunctors call el1) (loop_rounds handle call rest)))"

declare loop_rounds.simps [simp del]

definition EventLoop_loop ::
  "('h \<Rightarrow> 'f event_loop \<Rightarrow> 'f event_loop res) \<Rightarrow> ('f \<Rightarrow> 'f event_loop \<Rightarrow> 'f event_loop res)
     \<Rightarrow> 'h list list \<Rightarrow> 'f event_loop \<Rightarrow> 'f event_loop option res" where
  "EventLoop_loop handle call script el =
     cpp_assert (\<not> el_looping el)
       (bind_res (loop_rounds handle call script (el\<lparr>el_looping := True, el_quit := False\<rparr>))
         (\<lambda>r. Inr (map_option (\<lambda>el'. el'\<lparr>el_looping := False\<rparr>) r)))"

section \<open>Destruction\<close>

lemma new_reader_synced:
  assumes "Epoll_inv ep" and "poller_entry ep fd = (None, None)"
  shows "returns (Channel_enableReading p (Channel_setReadCallback cb (Channel_new loop fd), ep))
    (\<lambda>s. chan_synced p (fst s) (snd s) \<and> ch_addedToLoop (fst s) \<and> \<not> ch_eventHandling (fst s)
       \<and> ch_fd (fst s) = fd \<and> ch_revents (fst s) = 0 \<and> ch_statusInEpoll (fst s) = kAdded
       \<and> (\<forall>fd'. fd' \<noteq> fd \<longrightarrow> poller_entry (snd s) fd' = poller_entry ep fd'))"
proof -
  let ?ch = "Channel_setReadCallback cb (Channel_new loop fd)"
  let ?ch' = "?ch\<lparr>ch_events := ch_events ?ch OR kReadEvent, ch_addedToLoop := True\<rparr>"
  have fields: "ch_fd ?ch' = fd" "ch_statusInEpoll ?ch' = kNew" "ch_revents ?ch' = 0"
    "\<not> ch_eventHandling ?ch'"
    by (simp_all add: Channel_setReadCallback_def Channel_new_def status_defs)
  then have synced: "chan_synced p ?ch' ep"
    using assms by (simp add: chan_synced_def registered_as_def)
  then have "Channel_enableReading p (?ch, ep) = Inr (update_result p ?ch' ep)"
    by (simp add: Channel_enableReading_def Channel_update_eq)
  moreover have "fst (update_result p ?ch' ep) = ?ch'\<lparr>ch_statusInEpoll := kAdded\<rparr>"
    using fields by (simp add: update_result_def status_defs)
  moreover have "poller_entry (snd (update_result p ?ch' ep)) fd' = poller_entry ep fd'"
    if "fd' \<noteq> fd" for fd'
    using that fields(1) by (intro update_result_frame [OF assms(1)]) simp
  ultimately show ?thesis
    using update_result_synced [OF synced] fields by simp
qed

lemma EventLoop_new_ok:
  assumes "timerfd \<noteq> wakeupFd"
  shows "returns (EventLoop_new tid loop tchan timerfd wchan wakeupFd quit0) (\<lambda>el.
    chan_synced wchan (el_wakeupChannel el) (el_epoll el) \<and> ch_addedToLoop (el_timerChannel el)
    \<and> el_pending el = [] \<and> el_wakeups el = 0 \<and> \<not> el_looping el \<and> \<not> el_callingPending el
    \<and> el_threadId el = tid)"
proof -
  have e: "poller_entry Epoll_new fd = (None, None)" for fd
    by (simp add: poller_entry_def Epoll_new_def smap_get_def)
  obtain tch ep1 where 1: "TimerQueue_channel loop tchan timerfd Epoll_new = Inr (tch, ep1)"
    "Epoll_inv ep1" "ch_addedToLoop tch" "poller_entry ep1 wakeupFd = (None, None)"
    using new_reader_synced [OF Epoll_new_inv e, of tchan "Some TimerQueueRead" loop timerfd] assms e
    by (auto simp: TimerQueue_channel_def chan_synced_def elim!: returnsE)
  from new_reader_synced [OF 1(2,4), of wchan "Some WakeupRead" loop] 1 show ?thesis
    by (auto simp: EventLoop_new_def elim!: returnsE)
qed

text \<open>
  A loop cannot be destroyed: whatever it did, and whether or not it ever ran, destroying it
  fails an assertion, at the latest in the destructor of the timer queue's channel, which is
  never removed from the loop.
\<close>

lemma EventLoop_delete_aborts:
  assumes "EventLoop_new tid loop tchan timerfd wchan wakeupFd quit0 = Inr el0" and "timerfd \<noteq> wakeupFd"
    and "el_timerChannel el = el_timerChannel el0"
    and "chan_synced wchan (el_wakeupChannel el) (el_epoll el)"
  shows "EventLoop_delete wchan el = Inl AssertFailed"
proof -
  have "returns (Inr el0) (\<lambda>el. ch_addedToLoop (el_timerChannel el))"
    unfolding assms(1) [symmetric] by (rule returns_mono [OF EventLoop_new_ok [OF assms(2)]]) simp
  then have added: "ch_addedToLoop (el_timerChannel el)" by (simp add: assms(3))
  obtain s1 where s1: "Channel_disableAll wchan (el_wakeupChannel el, el_epoll el) = Inr s1"
    using assms(4) by (simp add: Channel_disableAll_def Channel_update_eq)
  then show ?thesis
    using added
    by (auto simp: EventLoop_delete_def TimerQueue_delete_def Channel_delete_def Channel_remove_def
        EventLoop_removeChannel_def Epoll_removeChannel_def Channel_setStatusInEpoll_def Let_def)
qed

lemma EventLoop_delete_aborts_instance:
  "\<exists>el :: nat event_loop. EventLoop_new 1 100 101 3 102 4 False = Inr el
     \<and> EventLoop_delete 102 el = Inl AssertFailed"
proof -
  obtain el :: "nat event_loop" where el: "EventLoop_new 1 100 101 3 102 4 False = Inr el"
    "chan_synced 102 (el_wakeupChannel el) (el_epoll el)"
    using EventLoop_new_ok [of 3 4 1 100 101 102 False] by (auto elim: returnsE)
  then have "EventLoop_delete 102 el = Inl AssertFailed"
    by (intro EventLoop_delete_aborts [OF el(1)]) simp_all
  with el(1) show ?thesis by blast
qed

section \<open>One round of functors\<close>

lemma queue_many_calling:
  "el_threadId el = tid \<Longrightarrow> fold (EventLoop_queueInLoop tid) fs el =
   el\<lparr>el_pending := el_pending el @ fs,
      el_wakeups := el_wakeups el + (if el_callingPending el then length fs else 0)\<rparr>"
  by (induction fs arbitrary: el)
    (simp_all add: EventLoop_queueInLoop_def queue_wakes_def push_functor_def EventLoop_wakeup_def
      EventLoop_isInLoopThread_def)

text \<open>
  One call of \<open>doPendingFunctors\<close> runs exactly the functors that were queued when it
  started, in order; what they queue in turn is left for the next round, in order, with one
  wakeup each so that the next \<open>poll\<close> does not block.
\<close>

lemma doPendingFunctors_round:
  assumes "\<And>f el. el_threadId el = tid \<Longrightarrow> call f el = Inr (fold (EventLoop_queueInLoop tid) (spawn f) el)"
    and "el_threadId el = tid"
  shows "EventLoop_doPendingFunctors call el = Inr (el\<lparr>el_pending := concat (map spawn (el_pending el)),
    el_wakeups := el_wakeups el + length (concat (map spawn (el_pending el))),
    el_callingPending := False\<rparr>)"
proof -
  have "fold_res call fs el' = Inr (el'\<lparr>el_pending := el_pending el' @ concat (map spawn fs),
      el_wakeups := el_wakeups el' + length (concat (map spawn fs))\<rparr>)"
    if "el_threadId el' = tid" "el_callingPending el'" for fs el'
    using that
    by (induction fs arbitrary: el') (simp_all add: assms(1) queue_many_calling add.assoc)
  then show ?thesis
    using assms(2) by (simp add: EventLoop_doPendingFunctors_def)
qed

definition small_loop :: "nat list \<Rightarrow> nat event_loop" where
  "small_loop fs = \<lparr>el_looping = False, el_quit = False, el_callingPending = False, el_threadId = 1,
     el_epoll = Epoll_new, el_timerChannel = Channel_new 100 3, el_wakeupChannel = Channel_new 100 4,
     el_pending = fs, el_wakeups = 0\<rparr>"

lemma doPendingFunctors_round_instance:
  "returns (EventLoop_doPendingFunctors
      (\<lambda>f el. if el_threadId el = 1 then Inr (fold (EventLoop_queueInLoop 1) [f + 10, f + 20] el) else Inr el)
      (small_loop [1, 2])) (\<lambda>el. el_pending el = [11, 21, 12, 22] \<and> el_wakeups el = 4)"
  by (subst doPendingFunctors_round [where tid = 1 and spawn = "\<lambda>f. [f + 10, f + 20]"])
    (simp_all add: small_loop_def)

section \<open>Stopping\<close>

lemma doPendingFunctors_invariant:
  assumes "\<And>f el. P el \<Longrightarrow> returns (call f el) P" and "P el"
    and "\<And>el b. P (el\<lparr>el_callingPending := b\<rparr>) = P el" and "\<And>el fs. P (el\<lparr>el_pending := fs\<rparr>) = P el"
  shows "returns (EventLoop_doPendingFunctors call el) P"
  unfolding EventLoop_doPendingFunctors_def Let_def
  by (intro returns_bind [where P = P] fold_res_invariant) (simp_all add: assms)

lemma loop_rounds_never:
  assumes "\<And>h el. h \<in> set (concat script) \<Longrightarrow> \<not> el_quit el \<Longrightarrow> returns (handle h el) (\<lambda>el'. \<not> el_quit el')"
    and "\<And>f el. \<not> el_quit el \<Longrightarrow> returns (call f el) (\<lambda>el'. \<not> el_quit el')"
    and "\<not> el_quit el"
  shows "loop_rounds handle call script el = Inr None"
  using assms(1,3)
proof (induction script arbitrary: el)
  case Nil
  then show ?case by (simp add: loop_rounds.simps)
next
  case (Cons active rest)
  have "returns (fold_res handle active el) (\<lambda>el'. \<not> el_quit el')"
    by (rule fold_res_invariant) (use Cons.prems in auto)
  then obtain el1 where el1: "fold_res handle active el = Inr el1" "\<not> el_quit el1" by (rule returnsE)
  have "returns (EventLoop_doPendingFunctors call el1) (\<lambda>el'. \<not> el_quit el')"
    by (rule doPendingFunctors_invariant) (simp_all add: assms(2) el1)
  then obtain el2 where el2: "EventLoop_doPendingFunctors call el1 = Inr el2" "\<not> el_quit el2" by (rule returnsE)
  have "loop_rounds handle call rest el2 = Inr None" using Cons.prems(1) el2(2) by (intro Cons.IH) auto
  with Cons.prems el1 el2 show ?case by (subst loop_rounds.simps) simp
qed

text \<open>
  A \<open>quit\<close> that reaches the loop before \<open>loop()\<close> is lost: however many times it was
  asked, and whatever events arrive, \<open>loop()\<close> does not return unless a handler or a functor
  quits it again.
\<close>

lemma quit_before_loop_lost:
  assumes "\<And>h el. h \<in> set (concat script) \<Longrightarrow> \<not> el_quit el \<Longrightarrow> returns (handle h el) (\<lambda>el'. \<not> el_quit el')"
    and "\<And>f el. \<not> el_quit el \<Longrightarrow> returns (call f el) (\<lambda>el'. \<not> el_quit el')"
    and "\<not> el_looping el"
  shows "EventLoop_loop handle call script (fold EventLoop_quit tids el) = Inr None"
proof -
  have "\<not> el_looping (fold EventLoop_quit tids el)"
    using assms(3) by (induction tids arbitrary: el)
      (auto simp: EventLoop_quit_def EventLoop_wakeup_def Let_def)
  moreover have "loop_rounds handle call script
      ((fold EventLoop_quit tids el)\<lparr>el_looping := True, el_quit := False\<rparr>) = Inr None"
    by (rule loop_rounds_never) (simp_all add: assms)
  ultimately show ?thesis by (simp add: EventLoop_loop_def)
qed

lemma quit_before_loop_lost_instance:
  "EventLoop_loop (\<lambda>_. Inr) (\<lambda>_. Inr) [[()], []] (fold EventLoop_quit [1, 2] (small_loop [1])) = Inr None"
  by (rule quit_before_loop_lost) (simp_all add: small_loop_def)

section \<open>The loop among other threads\<close>

text \<open>
  Where the loop's thread is. Between two statements of the loop's thread any other thread may
  run one of its own: pushing a functor and waking the loop are two statements, so
  \<open>ls_owed\<close> counts the threads that have pushed (or asked to quit) and not yet written to the
  eventfd. \<open>ls_queued\<close> and \<open>ls_done\<close> record the functors queued and started so far.
\<close>

datatype 'f loop_pc =
    Before
  | AtCheck
  | AtPoll
  | Handling bool
  | Running "'f list"
  | Stopped

record 'f loop_state =
  ls_el :: "'f event_loop"
  ls_pc :: "'f loop_pc"
  ls_owed :: nat
  ls_queued :: "'f list"
  ls_done :: "'f list"

definition own_queue :: "'f \<Rightarrow> 'f loop_state \<Rightarrow> 'f loop_state" where
  "own_queue f s = s\<lparr>ls_el := EventLoop_queueInLoop (el_threadId (ls_el s)) f (ls_el s),
     ls_queued := ls_queued s @ [f]\<rparr>"

definition own_quit :: "'f loop_state \<Rightarrow> 'f loop_state" where
  "own_quit s = s\<lparr>ls_el := EventLoop_quit (el_threadId (ls_el s)) (ls_el s)\<rparr>"

inductive lstep :: "'f loop_state \<Rightarrow> 'f loop_state \<Rightarrow> bool" where
  start: "ls_pc s = Before \<Longrightarrow>
    lstep s (s\<lparr>ls_el := (ls_el s)\<lparr>el_looping := True, el_quit := False\<rparr>, ls_pc := AtCheck\<rparr>)"
| go: "ls_pc s = AtCheck \<Longrightarrow> \<not> el_quit (ls_el s) \<Longrightarrow> lstep s (s\<lparr>ls_pc := AtPoll\<rparr>)"
| stop: "ls_pc s = AtCheck \<Longrightarrow> el_quit (ls_el s) \<Longrightarrow>
    lstep s (s\<lparr>ls_el := (ls_el s)\<lparr>el_looping := False\<rparr>, ls_pc := Stopped\<rparr>)"
| poll: "ls_pc s = AtPoll \<Longrightarrow> (woken \<Longrightarrow> 0 < el_wakeups (ls_el s)) \<Longrightarrow>
    lstep s (s\<lparr>ls_pc := Handling woken\<rparr>)"
| handle_wakeup: "ls_pc s = Handling True \<Longrightarrow>
    lstep s (s\<lparr>ls_el := EventLoop_handleRead (ls_el s), ls_pc := Handling False\<rparr>)"
| handler_queues: "ls_pc s = Handling woken \<Longrightarrow> lstep s (own_queue f s)"
| handler_quits: "ls_pc s = Handling woken \<Longrightarrow> lstep s (own_quit s)"
| begin_functors: "ls_pc s = Handling False \<Longrightarrow>
    lstep s (s\<lparr>ls_el := (ls_el s)\<lparr>el_callingPending := True, el_pending := []\<rparr>,
               ls_pc := Running (el_pending (ls_el s))\<rparr>)"
| run_functor: "ls_pc s = Running (f # fs) \<Longrightarrow>
    lstep s (s\<lparr>ls_pc := Running fs, ls_done := ls_done s @ [f]\<rparr>)"
| functor_queues: "ls_pc s = Running fs \<Longrightarrow> lstep s (own_queue f s)"
| functor_quits: "ls_pc s = Running fs \<Longrightarrow> lstep s (own_quit s)"
| end_functors: "ls_pc s = Running [] \<Longrightarrow>
    lstep s (s\<lparr>ls_el := (ls_el s)\<lparr>el_callingPending := False\<rparr>, ls_pc := AtCheck\<rparr>)"
| other_push: "tid \<noteq> el_threadId (ls_el s) \<Longrightarrow>
    lstep s (s\<lparr>ls_el := push_functor f (ls_el s),
               ls_owed := ls_owed s + (if queue_wakes tid (push_functor f (ls_el s)) then 1 else 0),
               ls_queued := ls_queued s @ [f]\<rparr>)"
| other_quit: "tid \<noteq> el_threadId (ls_el s) \<Longrightarrow>
    lstep s (s\<lparr>ls_el := (ls_el s)\<lparr>el_quit := True\<rparr>,
               ls_owed := ls_owed s + (if EventLoop_isInLoopThread tid (ls_el s) then 0 else 1)\<rparr>)"
| other_wakeup: "0 < ls_owed s \<Longrightarrow>
    lstep s (s\<lparr>ls_el := EventLoop_wakeup (ls_el s), ls_owed := ls_owed s - 1\<rparr>)"

inductive_cases lstepE: "lstep s s'"

definition loop_init :: "'f loop_state \<Rightarrow> bool" where
  "loop_init s \<longleftrightarrow> ls_pc s = Before \<and> el_pending (ls_el s) = [] \<and> \<not> el_callingPending (ls_el s)
     \<and> \<not> el_quit (ls_el s) \<and> ls_owed s = 0 \<and> ls_queued s = [] \<and> ls_done s = []"

definition in_batch :: "'f loop_pc \<Rightarrow> 'f list" where
  "in_batch pc = (case pc of Running fs \<Rightarrow> fs | _ \<Rightarrow> [])"

text \<open>Somebody has woken the loop, or is about to.\<close>

definition wake_due :: "'f loop_state \<Rightarrow> bool" where
  "wake_due s \<longleftrightarrow> 0 < el_wakeups (ls_el s) \<or> 0 < ls_owed s"

fun loop_pc_inv :: "'f loop_pc \<Rightarrow> 'f loop_state \<Rightarrow> bool" where
  "loop_pc_inv AtPoll s \<longleftrightarrow> (el_pending (ls_el s) \<noteq> [] \<or> el_quit (ls_el s) \<longrightarrow> wake_due s)"
| "loop_pc_inv (Handling woken) s \<longleftrightarrow> True"
| "loop_pc_inv Stopped s \<longleftrightarrow> True"
| "loop_pc_inv pc s \<longleftrightarrow> (el_pending (ls_el s) \<noteq> [] \<longrightarrow> wake_due s)"

definition loop_inv :: "'f loop_state \<Rightarrow> bool" where
  "loop_inv s \<longleftrightarrow> ls_queued s = ls_done s @ in_batch (ls_pc s) @ el_pending (ls_el s)
     \<and> (el_callingPending (ls_el s) \<longleftrightarrow> (\<exists>fs. ls_pc s = Running fs))
     \<and> loop_pc_inv (ls_pc s) s"

lemmas loop_ops = own_queue_def own_quit_def EventLoop_queueInLoop_def queue_wakes_def EventLoop_quit_def
  EventLoop_isInLoopThread_def EventLoop_wakeup_def EventLoop_handleRead_def push_functor_def

lemma loop_inv_init: "loop_init s \<Longrightarrow> loop_inv s"
  by (simp add: loop_init_def loop_inv_def in_batch_def)

lemma loop_inv_step: "lstep s s' \<Longrightarrow> loop_inv s \<Longrightarrow> loop_inv s'"
  by (erule lstepE; cases "ls_pc s")
    (auto simp: loop_inv_def in_batch_def loop_ops wake_due_def Let_def)

lemma loop_inv_reachable: "lstep\<^sup>*\<^sup>* s s' \<Longrightarrow> loop_inv s \<Longrightarrow> loop_inv s'"
  by (induction rule: rtranclp_induct) (auto intro: loop_inv_step)


definition quiet_loop :: "nat loop_state" where
  "quiet_loop = \<lparr>ls_el = small_loop [], ls_pc = Before, ls_owed = 0, ls_queued = [], ls_done = []\<rparr>"

definition pushed_loop :: "nat loop_state" where
  "pushed_loop = \<lparr>ls_el = push_functor 7 ((small_loop [])\<lparr>el_looping := True, el_quit := False\<rparr>),
     ls_pc = AtPoll, ls_owed = 1, ls_queued = [7], ls_done = []\<rparr>"

lemma pushed_loop_reached: "lstep\<^sup>*\<^sup>* quiet_loop pushed_loop"
proof -
  let ?s1 = "quiet_loop\<lparr>ls_el := (ls_el quiet_loop)\<lparr>el_looping := True, el_quit := False\<rparr>, ls_pc := AtCheck\<rparr>"
  let ?s2 = "?s1\<lparr>ls_pc := AtPoll\<rparr>"
  have "lstep quiet_loop ?s1" by (rule lstep.start) (simp add: quiet_loop_def)
  moreover have "lstep ?s1 ?s2" by (rule lstep.go) simp_all
  moreover have "lstep ?s2 pushed_loop"
    using lstep.other_push [of 2 ?s2 7]
    by (simp add: pushed_loop_def quiet_loop_def small_loop_def queue_wakes_def push_functor_def
        EventLoop_isInLoopThread_def)
  ultimately show ?thesis by (meson converse_rtranclp_into_rtranclp rtranclp.rtrancl_refl)
qed


end
