(* ===== verification/TcpConnection.thy ===== *)
theory TcpConnection
  imports Socket Http_Context EventLoop
begin

text \<open>
  \<open>net/TcpConnection.h\<close> and \<open>net/TcpConnection.cpp\<close>. A \<open>conn_world\<close> is a connection
  together with what its operations touch: the poller of its loop, the bytes \<open>write(2)\<close> has
  accepted, the other system calls, and the functors handed to the loop. The answers of
  \<open>write(2)\<close> are a parameter of the world, one per call; the callbacks of the user are a
  parameter of the operations that run them.
\<close>

section \<open>State\<close>

datatype tcp_state = kDisconnected | kConnecting | kConnected | kDisconnecting

datatype conn_cb = HandleRead | HandleWrite | HandleClose | HandleError

record tcp_connection =
  tc_name :: string
  tc_state :: tcp_state
  tc_socket :: socket_t
  tc_channelAddr :: nat
  tc_channel :: "conn_cb channel_t"
  tc_localAddress :: sockaddr_in
  tc_peerAddress :: sockaddr_in
  tc_inputBuffer :: buffer_t
  tc_outputBuffer :: buffer_t
  tc_context :: http_context
  tc_hasWriteComplete :: bool
  tc_highWaterMark :: "nat option"

datatype write_answer = Wrote nat | WriteError int

text \<open>
  What a connection leaves for others, in order: functors for its loop, and the calls of the close
  callback with which it tells its owner that it closed.
\<close>

datatype conn_functor = SendInLoop string | ShutdownInLoop | WriteComplete | CloseCallback

record conn_world = tcp_connection +
  cw_epoll :: epoll_t
  cw_kernel :: "nat \<Rightarrow> nat \<Rightarrow> write_answer"
  cw_writes :: nat
  cw_wire :: string
  cw_sys :: "sys_call list"
  cw_queue :: "conn_functor list"

text \<open>The callbacks set by the server; an empty one is \<open>None\<close>.\<close>

record callbacks =
  cb_connection :: "(conn_world \<Rightarrow> conn_world res) option"
  cb_message :: "(int \<Rightarrow> conn_world \<Rightarrow> conn_world res) option"
  cb_close :: "(conn_world \<Rightarrow> conn_world res) option"

definition run_callback :: "('w \<Rightarrow> 'w res) option \<Rightarrow> 'w \<Rightarrow> 'w res" where
  "run_callback cb w = (case cb of None \<Rightarrow> Inl BadFunctionCall | Some f \<Rightarrow> f w)"

text \<open>An operation of the connection's channel.\<close>

definition with_channel ::
  "(nat \<Rightarrow> conn_cb channel_t \<times> epoll_t \<Rightarrow> (conn_cb channel_t \<times> epoll_t) res) \<Rightarrow> conn_world \<Rightarrow> conn_world res" where
  "with_channel f w =
     bind_res (f (tc_channelAddr w) (tc_channel w, cw_epoll w)) (\<lambda>(ch, ep).
       Inr (w\<lparr>tc_channel := ch, cw_epoll := ep\<rparr>))"

text \<open>\<open>write(2)\<close>: the accepted bytes join the stream.\<close>

definition sys_write :: "string \<Rightarrow> conn_world \<Rightarrow> write_answer \<times> conn_world" where
  "sys_write data w =
     (let a = cw_kernel w (cw_writes w) (length data) in
      (a, w\<lparr>cw_writes := cw_writes w + 1,
            cw_wire := cw_wire w @ (case a of Wrote n \<Rightarrow> take n data | WriteError e \<Rightarrow> [])\<rparr>))"

definition queue_functor :: "conn_functor \<Rightarrow> conn_world \<Rightarrow> conn_world" where
  "queue_functor f w = w\<lparr>cw_queue := cw_queue w @ [f]\<rparr>"

section \<open>Construction\<close>

definition TcpConnection_channel :: "nat \<Rightarrow> int \<Rightarrow> conn_cb channel_t" where
  "TcpConnection_channel loop fd =
     Channel_setErrorCallback (Some HandleError)
       (Channel_setCloseCallback (Some HandleClose)
         (Channel_setWriteCallback (Some HandleWrite)
           (Channel_setReadCallback (Some HandleRead) (Channel_new loop fd))))"

definition TcpConnection_new ::
  "nat \<Rightarrow> string \<Rightarrow> socket_t \<Rightarrow> nat \<Rightarrow> sockaddr_in \<Rightarrow> sockaddr_in \<Rightarrow> epoll_t \<Rightarrow> sys_call list
     \<Rightarrow> (nat \<Rightarrow> nat \<Rightarrow> write_answer) \<Rightarrow> conn_world res" where
  "TcpConnection_new loop name socket chan localAddress peerAddress ep sys kern =
     bind_res Buffer_new (\<lambda>inb. bind_res Buffer_new (\<lambda>outb.
       Inr \<lparr>tc_name = name, tc_state = kConnecting, tc_socket = fst (Socket_move socket),
            tc_channelAddr = chan, tc_channel = TcpConnection_channel loop (sockfd socket),
            tc_localAddress = localAddress, tc_peerAddress = peerAddress,
            tc_inputBuffer = inb, tc_outputBuffer = outb, tc_context = HttpContext_new,
            tc_hasWriteComplete = False, tc_highWaterMark = None, cw_epoll = ep, cw_kernel = kern, cw_writes = 0,
            cw_wire = [], cw_sys = Socket_setKeepAlive True (fst (Socket_move socket)) sys,
            cw_queue = []\<rparr>))"

text \<open>The destructor, with those of the channel and of the socket.\<close>

definition TcpConnection_delete :: "conn_world \<Rightarrow> sys_call list res" where
  "TcpConnection_delete w =
     cpp_assert (tc_state w = kDisconnected)
       (bind_res (Channel_delete (tc_channel w)) (\<lambda>_. Inr (Socket_delete (tc_socket w) (cw_sys w))))"

definition TcpConnection_setContext :: "http_context \<Rightarrow> conn_world \<Rightarrow> conn_world" where
  "TcpConnection_setContext ctx w = w\<lparr>tc_context := ctx\<rparr>"

definition TcpConnection_setWriteCompleteCallback :: "bool \<Rightarrow> conn_world \<Rightarrow> conn_world" where
  "TcpConnection_setWriteCompleteCallback cb w = w\<lparr>tc_hasWriteComplete := cb\<rparr>"

text \<open>The high water mark is recorded and never consulted.\<close>

definition TcpConnection_setHighWaterMarkCallback :: "nat \<Rightarrow> conn_world \<Rightarrow> conn_world" where
  "TcpConnection_setHighWaterMarkCallback highWaterMark w = w\<lparr>tc_highWaterMark := Some highWaterMark\<rparr>"

definition TcpConnection_setConnectionCallback :: "(conn_world \<Rightarrow> conn_world res) option \<Rightarrow> callbacks \<Rightarrow> callbacks" where
  "TcpConnection_setConnectionCallback cb cbs = cbs\<lparr>cb_connection := cb\<rparr>"

definition TcpConnection_setMessageCallback ::
  "(int \<Rightarrow> conn_world \<Rightarrow> conn_world res) option \<Rightarrow> callbacks \<Rightarrow> callbacks" where
  "TcpConnection_setMessageCallback cb cbs = cbs\<lparr>cb_message := cb\<rparr>"

definition TcpConnection_setCloseCallback :: "(conn_world \<Rightarrow> conn_world res) option \<Rightarrow> callbacks \<Rightarrow> callbacks" where
  "TcpConnection_setCloseCallback cb cbs = cbs\<lparr>cb_close := cb\<rparr>"

definition TcpConnection_getLoop :: "conn_world \<Rightarrow> nat" where
  "TcpConnection_getLoop w = ch_loop (tc_channel w)"

definition TcpConnection_setTcpNoDelay :: "bool \<Rightarrow> conn_world \<Rightarrow> conn_world" where
  "TcpConnection_setTcpNoDelay on w = w\<lparr>cw_sys := Socket_setTcpNoDelay on (tc_socket w) (cw_sys w)\<rparr>"

definition TcpConnection_setKeepAlive :: "bool \<Rightarrow> conn_world \<Rightarrow> conn_world" where
  "TcpConnection_setKeepAlive on w = w\<lparr>cw_sys := Socket_setKeepAlive on (tc_socket w) (cw_sys w)\<rparr>"

definition TcpConnection_connected :: "conn_world \<Rightarrow> bool" where
  "TcpConnection_connected w \<longleftrightarrow> tc_state w = kConnected"

definition TcpConnection_disconnected :: "conn_world \<Rightarrow> bool" where
  "TcpConnection_disconnected w \<longleftrightarrow> tc_state w = kDisconnected"

definition TcpConnection_setState :: "tcp_state \<Rightarrow> conn_world \<Rightarrow> conn_world" where
  "TcpConnection_setState s w = w\<lparr>tc_state := s\<rparr>"

section \<open>Sending and shutting down\<close>

definition TcpConnection_sendInLoop :: "string \<Rightarrow> conn_world \<Rightarrow> conn_world res" where
  "TcpConnection_sendInLoop message w =
     (if \<not> Channel_isWriting (tc_channel w) \<and> Buffer_readableBytes (tc_outputBuffer w) = 0
      then (let (a, w1) = sys_write message w;
                (n, w2) = (case a of
                    Wrote k \<Rightarrow>
                      (k, if k < length message then w1
                          else if tc_hasWriteComplete w1 then queue_functor WriteComplete w1 else w1)
                  | WriteError e \<Rightarrow> (0, w1)) in
            if n < length message
            then bind_res (Buffer_append (tc_outputBuffer w2) (drop n message)) (\<lambda>b.
                   let w3 = w2\<lparr>tc_outputBuffer := b\<rparr> in
                   if \<not> Channel_isWriting (tc_channel w3)
                   then with_channel Channel_enableWriting w3 else Inr w3)
            else Inr w2)
      else Inr w)"

definition TcpConnection_send :: "bool \<Rightarrow> string \<Rightarrow> conn_world \<Rightarrow> conn_world res" where
  "TcpConnection_send inLoop message w =
     (if tc_state w = kConnected
      then if inLoop then TcpConnection_sendInLoop message w
           else Inr (queue_functor (SendInLoop message) w)
      else Inr w)"

definition TcpConnection_send_bytes :: "bool \<Rightarrow> string \<Rightarrow> nat \<Rightarrow> conn_world \<Rightarrow> conn_world res" where
  "TcpConnection_send_bytes inLoop message len w =
     bind_res (mem_read message 0 len) (\<lambda>str. TcpConnection_send inLoop str w)"

definition TcpConnection_shutdownInLoop :: "conn_world \<Rightarrow> conn_world" where
  "TcpConnection_shutdownInLoop w =
     (if \<not> Channel_isWriting (tc_channel w)
      then w\<lparr>cw_sys := Socket_shutdownWrite (tc_socket w) (cw_sys w)\<rparr> else w)"

definition TcpConnection_shutdown :: "bool \<Rightarrow> conn_world \<Rightarrow> conn_world" where
  "TcpConnection_shutdown inLoop w =
     (if tc_state w = kConnected
      then let w1 = TcpConnection_setState kDisconnecting w in
           if inLoop then TcpConnection_shutdownInLoop w1 else queue_functor ShutdownInLoop w1
      else w)"

section \<open>Establishment, events and destruction\<close>

definition TcpConnection_connectionEstablished :: "callbacks \<Rightarrow> nat \<Rightarrow> conn_world \<Rightarrow> conn_world res" where
  "TcpConnection_connectionEstablished cbs this w =
     cpp_assert (tc_state w = kConnecting)
       (let w1 = TcpConnection_setState kConnected w;
            w2 = w1\<lparr>tc_channel := Channel_tie this (tc_channel w1)\<rparr> in
        bind_res (with_channel Channel_enableReading w2) (run_callback (cb_connection cbs)))"

definition TcpConnection_connectionDestroyed :: "callbacks \<Rightarrow> conn_world \<Rightarrow> conn_world res" where
  "TcpConnection_connectionDestroyed cbs w =
     bind_res
       (if tc_state w = kConnected
        then bind_res (with_channel Channel_disableAll (TcpConnection_setState kDisconnected w))
               (run_callback (cb_connection cbs))
        else Inr w)
       (with_channel Channel_remove)"

definition TcpConnection_handleClose :: "callbacks \<Rightarrow> conn_world \<Rightarrow> conn_world res" where
  "TcpConnection_handleClose cbs w =
     cpp_assert (tc_state w = kConnected \<or> tc_state w = kDisconnecting)
       (bind_res (with_channel Channel_disableAll (TcpConnection_setState kDisconnected w))
         (run_callback (cb_close cbs)))"

text \<open>\<open>handleError\<close> only reads the pending error and prints it.\<close>

definition TcpConnection_handleError :: "conn_world \<Rightarrow> conn_world" where
  "TcpConnection_handleError w = w"

definition TcpConnection_handleRead :: "callbacks \<Rightarrow> int \<Rightarrow> int + string \<Rightarrow> conn_world \<Rightarrow> conn_world res" where
  "TcpConnection_handleRead cbs receiveTime answer w =
     bind_res (Buffer_readFd (tc_inputBuffer w) answer) (\<lambda>(b, savedErrno, n).
       let w1 = w\<lparr>tc_inputBuffer := b\<rparr> in
       if 0 < n
       then run_callback (case cb_message cbs of None \<Rightarrow> None | Some f \<Rightarrow> Some (f receiveTime)) w1
       else if n = 0 then TcpConnection_handleClose cbs w1
       else Inr (TcpConnection_handleError w1))"

definition TcpConnection_handleWrite :: "conn_world \<Rightarrow> conn_world res" where
  "TcpConnection_handleWrite w =
     (if Channel_isWriting (tc_channel w)
      then bind_res (mem_read (buf_store (tc_outputBuffer w)) (Buffer_peek (tc_outputBuffer w))
               (Buffer_readableBytes (tc_outputBuffer w))) (\<lambda>data.
        let (a, w1) = sys_write data w in
        case a of
          WriteError e \<Rightarrow> Inr w1
        | Wrote n \<Rightarrow>
            if 0 < n
            then bind_res (Buffer_retrieve (tc_outputBuffer w1) n) (\<lambda>b.
              let w2 = w1\<lparr>tc_outputBuffer := b\<rparr> in
              if Buffer_readableBytes b = 0
              then bind_res (with_channel Channel_disableWriting w2) (\<lambda>w3.
                let w4 = (if tc_hasWriteComplete w3 then queue_functor WriteComplete w3 else w3) in
                Inr (if tc_state w4 = kDisconnecting then TcpConnection_shutdownInLoop w4 else w4))
              else Inr w2)
            else Inr w1)
      else Inr w)"

text \<open>The callbacks that the constructor binds to the channel; \<open>answer\<close> is what \<open>readv\<close>
  will deliver.\<close>

definition TcpConnection_call :: "callbacks \<Rightarrow> int + string \<Rightarrow> conn_cb \<Rightarrow> int \<Rightarrow> conn_world \<Rightarrow> conn_world res" where
  "TcpConnection_call cbs answer cb t w =
     (case cb of
        HandleRead \<Rightarrow> TcpConnection_handleRead cbs t answer w
      | HandleWrite \<Rightarrow> TcpConnection_handleWrite w
      | HandleClose \<Rightarrow> TcpConnection_handleClose cbs w
      | HandleError \<Rightarrow> Inr (TcpConnection_handleError w))"

text \<open>An event on the connection's channel, dispatched by \<open>Channel::handleEvent\<close>.\<close>

definition conn_event :: "callbacks \<Rightarrow> int + string \<Rightarrow> 32 word \<Rightarrow> conn_world \<Rightarrow> conn_world res" where
  "conn_event cbs answer revents w =
     bind_res
       (Channel_handleEvent (\<lambda>_. True)
          (\<lambda>cb t (ch, w). bind_res (TcpConnection_call cbs answer cb t (w\<lparr>tc_channel := ch\<rparr>))
             (\<lambda>w'. Inr (tc_channel w', w')))
          0 (Channel_setRevents revents (tc_channel w), w))
       (\<lambda>(ch, w'). Inr (w'\<lparr>tc_channel := ch\<rparr>))"

section \<open>Invariant\<close>

text \<open>The kernel accepts at most what it is given.\<close>

definition kernel_ok :: "(nat \<Rightarrow> nat \<Rightarrow> write_answer) \<Rightarrow> bool" where
  "kernel_ok k \<longleftrightarrow> (\<forall>i len n. k i len = Wrote n \<longrightarrow> n \<le> len)"

text \<open>Writing is watched exactly while the output buffer holds data.\<close>

definition conn_inv :: "conn_world \<Rightarrow> bool" where
  "conn_inv w \<longleftrightarrow> Buffer_inv (tc_outputBuffer w) \<and> kernel_ok (cw_kernel w)
     \<and> chan_synced (tc_channelAddr w) (tc_channel w) (cw_epoll w)
     \<and> (Channel_isWriting (tc_channel w) \<longleftrightarrow> Buffer_content (tc_outputBuffer w) \<noteq> [])"

text \<open>What the peer has been or will be sent.\<close>

definition out_stream :: "conn_world \<Rightarrow> string" where
  "out_stream w = cw_wire w @ Buffer_content (tc_outputBuffer w)"

definition channel_updated :: "32 word \<Rightarrow> conn_world \<Rightarrow> conn_world" where
  "channel_updated ev w =
     (let r = update_result (tc_channelAddr w)
                ((tc_channel w)\<lparr>ch_events := ev, ch_addedToLoop := True\<rparr>) (cw_epoll w) in
      w\<lparr>tc_channel := fst r, cw_epoll := snd r\<rparr>)"

lemma with_channel_ops:
  assumes "chan_synced (tc_channelAddr w) (tc_channel w) (cw_epoll w)"
  shows "with_channel Channel_enableReading w = Inr (channel_updated (ch_events (tc_channel w) OR kReadEvent) w)"
    and "with_channel Channel_enableWriting w = Inr (channel_updated (ch_events (tc_channel w) OR kWriteEvent) w)"
    and "with_channel Channel_disableWriting w = Inr (channel_updated (ch_events (tc_channel w) AND NOT kWriteEvent) w)"
    and "with_channel Channel_disableAll w = Inr (channel_updated 0 w)"
  using assms
  by (simp_all add: with_channel_def channel_ops Channel_update_eq channel_updated_def Let_def
      split_beta kNoneEvent_def)

lemma channel_updated_fields [simp]:
  "tc_name (channel_updated ev w) = tc_name w"
  "tc_state (channel_updated ev w) = tc_state w" "tc_socket (channel_updated ev w) = tc_socket w"
  "tc_outputBuffer (channel_updated ev w) = tc_outputBuffer w"
  "tc_inputBuffer (channel_updated ev w) = tc_inputBuffer w"
  "tc_channelAddr (channel_updated ev w) = tc_channelAddr w"
  "tc_context (channel_updated ev w) = tc_context w"
  "tc_hasWriteComplete (channel_updated ev w) = tc_hasWriteComplete w"
  "cw_wire (channel_updated ev w) = cw_wire w" "cw_sys (channel_updated ev w) = cw_sys w"
  "cw_queue (channel_updated ev w) = cw_queue w" "cw_kernel (channel_updated ev w) = cw_kernel w"
  "cw_writes (channel_updated ev w) = cw_writes w"
  "ch_events (tc_channel (channel_updated ev w)) = ev"
  "ch_revents (tc_channel (channel_updated ev w)) = ch_revents (tc_channel w)"
  "ch_fd (tc_channel (channel_updated ev w)) = ch_fd (tc_channel w)"
  "ch_loop (tc_channel (channel_updated ev w)) = ch_loop (tc_channel w)"
  by (simp_all add: channel_updated_def Let_def)

lemma channel_updated_synced:
  "chan_synced (tc_channelAddr w) (tc_channel w) (cw_epoll w) \<Longrightarrow>
   chan_synced (tc_channelAddr w) (tc_channel (channel_updated ev w)) (cw_epoll (channel_updated ev w))"
  by (auto simp: channel_updated_def Let_def intro!: update_result_synced)

lemma isWriting_bits [simp]:
  "has_bits (ev OR kWriteEvent) kWriteEvent" "\<not> has_bits (ev AND NOT kWriteEvent) kWriteEvent"
proof -
  show "has_bits (ev OR kWriteEvent) kWriteEvent"
    unfolding has_bits_or_left by (simp add: has_bits_def event_masks)
qed (rule has_bits_cleared)

section \<open>The stream of a connection\<close>

text \<open>A message is accepted when nothing of an earlier one is waiting; otherwise it is dropped.\<close>

definition accepted :: "string \<Rightarrow> conn_world \<Rightarrow> string list" where
  "accepted m w = (if Buffer_content (tc_outputBuffer w) = [] then [m] else [])"

lemma send_pending_dropped:
  "conn_inv w \<Longrightarrow> Buffer_content (tc_outputBuffer w) \<noteq> [] \<Longrightarrow> TcpConnection_sendInLoop m w = Inr w"
  by (simp add: TcpConnection_sendInLoop_def conn_inv_def)

lemma sys_write_cases:
  assumes "kernel_ok (cw_kernel w)" and "sys_write data w = (a, w1)"
  obtains (wrote) k where "a = Wrote k" "k \<le> length data"
      "w1 = w\<lparr>cw_writes := cw_writes w + 1, cw_wire := cw_wire w @ take k data\<rparr>"
  | (failed) e where "a = WriteError e" "w1 = w\<lparr>cw_writes := cw_writes w + 1\<rparr>"
  using assms by (cases a) (auto simp: sys_write_def kernel_ok_def Let_def)

text \<open>The channel as the constructor and \<open>connectionEstablished\<close> leave it.\<close>

definition wired :: "conn_cb channel_t \<Rightarrow> bool" where
  "wired ch \<longleftrightarrow> ch_readCallback ch = Some HandleRead \<and> ch_writeCallback ch = Some HandleWrite
     \<and> ch_closeCallback ch = Some HandleClose \<and> ch_errorCallback ch = Some HandleError
     \<and> (ch_tied ch \<longrightarrow> ch_tie ch \<noteq> None)"

lemma wired_updated [simp]: "wired (tc_channel (channel_updated ev w)) = wired (tc_channel w)"
  by (simp add: wired_def channel_updated_def update_result_def Let_def)

text \<open>What the rest of an operation may rely on: the parts a write leaves alone.\<close>

definition same_conn :: "conn_world \<Rightarrow> conn_world \<Rightarrow> bool" where
  "same_conn w w' \<longleftrightarrow> tc_name w' = tc_name w \<and> tc_socket w' = tc_socket w
     \<and> tc_channelAddr w' = tc_channelAddr w \<and> tc_inputBuffer w' = tc_inputBuffer w
     \<and> tc_context w' = tc_context w \<and> cw_kernel w' = cw_kernel w
     \<and> ch_revents (tc_channel w') = ch_revents (tc_channel w) \<and> wired (tc_channel w') = wired (tc_channel w)"

lemma store_remaining:
  assumes inv: "conn_inv w" and empty: "Buffer_content (tc_outputBuffer w) = []"
    and room: "Buffer_room (tc_outputBuffer w) (length rest)" and "rest \<noteq> []"
  shows "returns (bind_res (Buffer_append (tc_outputBuffer w) rest) (\<lambda>b.
            let w3 = w\<lparr>tc_outputBuffer := b\<rparr> in
            if \<not> Channel_isWriting (tc_channel w3)
            then with_channel Channel_enableWriting w3 else Inr w3))
    (\<lambda>w'. conn_inv w' \<and> Buffer_content (tc_outputBuffer w') = rest \<and> cw_wire w' = cw_wire w
       \<and> same_conn w w' \<and> tc_state w' = tc_state w \<and> cw_sys w' = cw_sys w
       \<and> length (buf_store (tc_outputBuffer w')) \<le> length (buf_store (tc_outputBuffer w)) + length rest)"
proof -
  from inv have b: "Buffer_inv (tc_outputBuffer w)" and nw: "\<not> Channel_isWriting (tc_channel w)"
    using empty by (simp_all add: conn_inv_def)
  from append_ok [OF b room] obtain b' where b': "Buffer_append (tc_outputBuffer w) rest = Inr b'"
    "Buffer_inv b'" "Buffer_content b' = rest"
    "length (buf_store b') \<le> length (buf_store (tc_outputBuffer w)) + length rest"
    using empty by (auto elim: returnsE)
  have synced: "chan_synced (tc_channelAddr w) (tc_channel w) (cw_epoll w)"
    using inv by (simp add: conn_inv_def)
  then have "with_channel Channel_enableWriting (w\<lparr>tc_outputBuffer := b'\<rparr>) =
      Inr (channel_updated (ch_events (tc_channel w) OR kWriteEvent) (w\<lparr>tc_outputBuffer := b'\<rparr>))"
    by (subst with_channel_ops) simp_all
  moreover have "chan_synced (tc_channelAddr w)
      (tc_channel (channel_updated ev (w\<lparr>tc_outputBuffer := b'\<rparr>))) (cw_epoll (channel_updated ev (w\<lparr>tc_outputBuffer := b'\<rparr>)))" for ev
    using channel_updated_synced [of "w\<lparr>tc_outputBuffer := b'\<rparr>" ev] synced by simp
  ultimately show ?thesis
    using b' nw inv \<open>rest \<noteq> []\<close> by (simp add: conn_inv_def Channel_isWriting_def same_conn_def)
qed

lemma sendInLoop_ok:
  assumes inv: "conn_inv w" and room: "Buffer_room (tc_outputBuffer w) (length m)"
  shows "returns (TcpConnection_sendInLoop m w) (\<lambda>w'. conn_inv w' \<and> same_conn w w'
    \<and> out_stream w' = out_stream w @ concat (accepted m w) \<and> tc_state w' = tc_state w \<and> cw_sys w' = cw_sys w
    \<and> length (buf_store (tc_outputBuffer w')) \<le> length (buf_store (tc_outputBuffer w)) + length m)"
proof (cases "Buffer_content (tc_outputBuffer w) = []")
  case False
  then show ?thesis
    using send_pending_dropped [OF inv False] inv by (simp add: accepted_def same_conn_def)
next
  case empty: True
  with inv have can: "\<not> Channel_isWriting (tc_channel w)" "Buffer_readableBytes (tc_outputBuffer w) = 0"
    by (simp_all add: conn_inv_def)
  obtain a w1 where a: "sys_write m w = (a, w1)" by (cases "sys_write m w")
  have k: "kernel_ok (cw_kernel w)" using inv by (simp add: conn_inv_def)
  have rest: "returns (bind_res (Buffer_append (tc_outputBuffer w2) (drop n m)) (\<lambda>b.
            let w3 = w2\<lparr>tc_outputBuffer := b\<rparr> in
            if \<not> Channel_isWriting (tc_channel w3)
            then with_channel Channel_enableWriting w3 else Inr w3))
      (\<lambda>w'. conn_inv w' \<and> same_conn w w' \<and> out_stream w' = out_stream w @ m \<and> tc_state w' = tc_state w
        \<and> cw_sys w' = cw_sys w
        \<and> length (buf_store (tc_outputBuffer w')) \<le> length (buf_store (tc_outputBuffer w)) + length m)"
    if "n < length m" "w2 = w\<lparr>cw_writes := c, cw_wire := cw_wire w @ take n m\<rparr>" for n c w2
  proof (rule returns_mono [OF store_remaining])
    show "conn_inv w2" "Buffer_content (tc_outputBuffer w2) = []" "drop n m \<noteq> []"
      "Buffer_room (tc_outputBuffer w2) (length (drop n m))"
      using inv empty room that by (simp_all add: conn_inv_def Buffer_room_def)
  qed (use empty that in \<open>auto simp: out_stream_def same_conn_def\<close>)
  from k a show ?thesis
  proof (cases rule: sys_write_cases)
    case (wrote n)
    show ?thesis
    proof (cases "n < length m")
      case True
      then show ?thesis
        using rest [OF True wrote(3)]
        by (simp add: TcpConnection_sendInLoop_def accepted_def a can wrote(1) empty)
    next
      case False
      then show ?thesis
        using a can wrote inv empty
        by (auto simp: TcpConnection_sendInLoop_def accepted_def queue_functor_def conn_inv_def
            out_stream_def same_conn_def Channel_isWriting_def)
    qed
  next
    case (failed e)
    show ?thesis
    proof (cases "m = []")
      case True
      then show ?thesis
        using a can failed inv empty
        by (auto simp: TcpConnection_sendInLoop_def accepted_def conn_inv_def out_stream_def
            same_conn_def Channel_isWriting_def)
    next
      case False
      then show ?thesis
        using a can failed rest [of 0 w1 "cw_writes w + 1"] empty
        by (simp add: TcpConnection_sendInLoop_def accepted_def)
    qed
  qed
qed

lemma shutdownInLoop_fields [simp]:
  "tc_outputBuffer (TcpConnection_shutdownInLoop w) = tc_outputBuffer w"
  "tc_channel (TcpConnection_shutdownInLoop w) = tc_channel w"
  "tc_channelAddr (TcpConnection_shutdownInLoop w) = tc_channelAddr w"
  "cw_epoll (TcpConnection_shutdownInLoop w) = cw_epoll w"
  "cw_kernel (TcpConnection_shutdownInLoop w) = cw_kernel w"
  "cw_wire (TcpConnection_shutdownInLoop w) = cw_wire w"
  "tc_state (TcpConnection_shutdownInLoop w) = tc_state w"
  "tc_name (TcpConnection_shutdownInLoop w) = tc_name w"
  "tc_socket (TcpConnection_shutdownInLoop w) = tc_socket w"
  "tc_inputBuffer (TcpConnection_shutdownInLoop w) = tc_inputBuffer w"
  "tc_context (TcpConnection_shutdownInLoop w) = tc_context w"
  by (simp_all add: TcpConnection_shutdownInLoop_def)

lemma conn_inv_queue [simp]:
  "conn_inv (w\<lparr>cw_queue := q\<rparr>) = conn_inv w" "conn_inv (TcpConnection_setState s w) = conn_inv w"
  "conn_inv (TcpConnection_shutdownInLoop w) = conn_inv w" "conn_inv (w\<lparr>cw_writes := c\<rparr>) = conn_inv w"
  "conn_inv (w\<lparr>cw_wire := bytes\<rparr>) = conn_inv w"
  by (simp_all add: conn_inv_def TcpConnection_setState_def)

text \<open>A drained connection stops watching for writing, and goes on with a shutdown it postponed.\<close>

definition drained :: "conn_world \<Rightarrow> conn_world" where
  "drained w =
     (let w3 = channel_updated (ch_events (tc_channel w) AND NOT kWriteEvent) w;
          w4 = (if tc_hasWriteComplete w3 then queue_functor WriteComplete w3 else w3) in
      if tc_state w4 = kDisconnecting then TcpConnection_shutdownInLoop w4 else w4)"

lemma handleWrite_ok:
  assumes inv: "conn_inv w"
  shows "returns (TcpConnection_handleWrite w) (\<lambda>w'. conn_inv w' \<and> same_conn w w'
    \<and> out_stream w' = out_stream w \<and> tc_state w' = tc_state w
    \<and> length (buf_store (tc_outputBuffer w')) = length (buf_store (tc_outputBuffer w))
    \<and> cw_sys w' = cw_sys w @
        (if Buffer_content (tc_outputBuffer w) \<noteq> [] \<and> Buffer_content (tc_outputBuffer w') = []
            \<and> tc_state w = kDisconnecting
         then [SysShutdown (sockfd (tc_socket w)) SHUT_RD] else []))"
proof (cases "Channel_isWriting (tc_channel w)")
  case False
  then show ?thesis using inv by (simp add: TcpConnection_handleWrite_def conn_inv_def same_conn_def)
next
  case True
  let ?data = "Buffer_content (tc_outputBuffer w)"
  have b: "Buffer_inv (tc_outputBuffer w)" and k: "kernel_ok (cw_kernel w)" and ne: "?data \<noteq> []"
    and synced: "chan_synced (tc_channelAddr w) (tc_channel w) (cw_epoll w)"
    using inv True by (simp_all add: conn_inv_def)
  have data: "mem_read (buf_store (tc_outputBuffer w)) (Buffer_peek (tc_outputBuffer w))
      (Buffer_readableBytes (tc_outputBuffer w)) = Inr ?data"
    using toString_ok [OF b] by (simp add: Buffer_toString_def)
  obtain a w1 where a: "sys_write ?data w = (a, w1)" by (cases "sys_write ?data w")
  from k a show ?thesis
  proof (cases rule: sys_write_cases)
    case (failed e)
    then show ?thesis
      using True data a inv ne
      by (simp add: TcpConnection_handleWrite_def same_conn_def out_stream_def)
  next
    case (wrote n)
    show ?thesis
    proof (cases "n = 0")
      case zero: True
      then show ?thesis
        using True data a inv ne wrote
        by (simp add: TcpConnection_handleWrite_def same_conn_def out_stream_def)
    next
      case False
      from retrieve_ok [OF b wrote(2)] obtain b' where b':
        "Buffer_retrieve (tc_outputBuffer w) n = Inr b'" "Buffer_inv b'"
        "Buffer_content b' = drop n ?data" "buf_store b' = buf_store (tc_outputBuffer w)"
        by (auto elim: returnsE)
      let ?w2 = "w1\<lparr>tc_outputBuffer := b'\<rparr>"
      have s2: "chan_synced (tc_channelAddr ?w2) (tc_channel ?w2) (cw_epoll ?w2)"
        using synced wrote by simp
      show ?thesis
      proof (cases "drop n ?data = []")
        case all_sent: True
        then have "TcpConnection_handleWrite w = Inr (drained ?w2)"
          using True data a wrote False b' with_channel_ops(3) [OF s2]
          by (simp add: TcpConnection_handleWrite_def drained_def Let_def)
        moreover have "conn_inv (channel_updated (ch_events (tc_channel ?w2) AND NOT kWriteEvent) ?w2)"
          using channel_updated_synced [OF s2] b' k all_sent wrote
          by (simp add: conn_inv_def Channel_isWriting_def)
        ultimately show ?thesis
          using b' wrote all_sent ne
          by (auto simp: drained_def Let_def queue_functor_def same_conn_def out_stream_def
              TcpConnection_shutdownInLoop_def Socket_shutdownWrite_def Channel_isWriting_def
              conn_inv_def)
      next
        case notdone: False
        then have "TcpConnection_handleWrite w = Inr ?w2"
          using True data a wrote False b' by (simp add: TcpConnection_handleWrite_def)
        then show ?thesis
          using inv b' wrote notdone ne True
          by (auto simp: conn_inv_def same_conn_def out_stream_def)
      qed
    qed
  qed
qed

text \<open>What a call puts on the wire; a kernel that takes some of what it is given.\<close>

definition takes_some :: "(nat \<Rightarrow> nat \<Rightarrow> write_answer) \<Rightarrow> bool" where
  "takes_some k \<longleftrightarrow> (\<forall>i len. \<exists>n. k i len = Wrote n \<and> n \<le> len \<and> (0 < len \<longrightarrow> 0 < n))"

lemma sys_write_wire: "sys_write m w = (a, w1) \<Longrightarrow> \<exists>s. cw_wire w1 = cw_wire w @ s"
  by (auto simp: sys_write_def Let_def split: write_answer.splits)

lemma with_channel_wire: "with_channel f w = Inr w' \<Longrightarrow> cw_wire w' = cw_wire w"
  by (auto simp: with_channel_def bind_res_eq_Inr)

lemma sendInLoop_wire:
  assumes "TcpConnection_sendInLoop m w = Inr w'"
  shows "\<exists>s. cw_wire w' = cw_wire w @ s"
proof -
  obtain a w1 where a: "sys_write m w = (a, w1)" by (cases "sys_write m w")
  with assms have "cw_wire w' = cw_wire w1 \<or> w' = w"
    by (auto simp: TcpConnection_sendInLoop_def queue_functor_def Let_def bind_res_eq_Inr
        dest!: with_channel_wire split: write_answer.splits if_splits)
  with sys_write_wire [OF a] show ?thesis by auto
qed

lemma handleWrite_progress:
  assumes inv: "conn_inv w" and "takes_some (cw_kernel w)" and "Buffer_content (tc_outputBuffer w) \<noteq> []"
    and w': "TcpConnection_handleWrite w = Inr w'"
  shows "length (Buffer_content (tc_outputBuffer w')) < length (Buffer_content (tc_outputBuffer w))"
proof -
  let ?data = "Buffer_content (tc_outputBuffer w)"
  have b: "Buffer_inv (tc_outputBuffer w)" and writing: "Channel_isWriting (tc_channel w)"
    using inv assms(3) by (simp_all add: conn_inv_def)
  obtain n where n: "cw_kernel w (cw_writes w) (length ?data) = Wrote n" "n \<le> length ?data" "0 < n"
    using assms(2,3) unfolding takes_some_def by (metis length_greater_0_conv)
  then obtain w1 where a: "sys_write ?data w = (Wrote n, w1)" "tc_outputBuffer w1 = tc_outputBuffer w"
    by (simp add: sys_write_def)
  from retrieve_ok [OF b n(2)] obtain b' where b': "Buffer_retrieve (tc_outputBuffer w) n = Inr b'"
    "Buffer_content b' = drop n ?data" by (auto elim: returnsE)
  have data: "mem_read (buf_store (tc_outputBuffer w)) (Buffer_peek (tc_outputBuffer w))
      (Buffer_readableBytes (tc_outputBuffer w)) = Inr ?data"
    using toString_ok [OF b] by (simp add: Buffer_toString_def)
  have "Buffer_content (tc_outputBuffer w') = drop n ?data"
    using w' b' unfolding TcpConnection_handleWrite_def data bind_res_Inr Let_def a(1)
    by (auto simp: writing a(2) n(3) bind_res_eq_Inr with_channel_def queue_functor_def split: if_splits)
  with n(2,3) show ?thesis by simp
qed

text \<open>What happens to the output of a connection: messages to send and write events.\<close>

datatype out_op = SendMessage string | WriteEvent

fun out_step :: "out_op \<Rightarrow> conn_world \<Rightarrow> conn_world res" where
  "out_step (SendMessage m) w = TcpConnection_send True m w"
| "out_step WriteEvent w = TcpConnection_handleWrite w"

fun sent_messages :: "out_op list \<Rightarrow> string list" where
  "sent_messages [] = []"
| "sent_messages (SendMessage m # ops) = m # sent_messages ops"
| "sent_messages (WriteEvent # ops) = sent_messages ops"

lemma out_step_ok:
  assumes "conn_inv w" and "tc_state w = kConnected"
    and "Buffer_room (tc_outputBuffer w) (length (concat (sent_messages [x])) + n)"
  shows "returns (out_step x w) (\<lambda>w'. conn_inv w' \<and> tc_state w' = kConnected \<and> cw_sys w' = cw_sys w
    \<and> Buffer_room (tc_outputBuffer w') n
    \<and> (\<exists>ms. subseq ms (sent_messages [x]) \<and> out_stream w' = out_stream w @ concat ms))"
proof (cases x)
  case (SendMessage m)
  then have room: "Buffer_room (tc_outputBuffer w) (length m + n)" using assms(3) by simp
  then have "Buffer_room (tc_outputBuffer w) (length m)" by (simp add: Buffer_room_def)
  from sendInLoop_ok [OF assms(1) this] show ?thesis
    unfolding SendMessage
    by (rule_tac returns_mono, simp add: TcpConnection_send_def assms(2))
      (use room assms(2) in \<open>auto simp: accepted_def Buffer_room_def intro!: exI [of _ "accepted m w"]\<close>)
next
  case WriteEvent
  from handleWrite_ok [OF assms(1)] show ?thesis
    unfolding WriteEvent
    by (rule_tac returns_mono, simp)
      (use assms(2,3) WriteEvent in \<open>auto simp: Buffer_room_def intro!: exI [of _ "[]"]\<close>)
qed


text \<open>A connection whose channel has been registered for reading and has had the events \<open>revents\<close>.\<close>

definition demo_conn :: "(nat \<Rightarrow> nat \<Rightarrow> write_answer) \<Rightarrow> 32 word \<Rightarrow> tcp_state \<Rightarrow> conn_world" where
  "demo_conn kern revents st = channel_updated kReadEvent
     \<lparr>tc_name = ''tinyWS#1'', tc_state = st, tc_socket = Socket_of 3, tc_channelAddr = 7,
      tc_channel = Channel_setRevents revents (TcpConnection_channel 1 3), tc_localAddress = zero_address,
      tc_peerAddress = zero_address, tc_inputBuffer = text_buffer [], tc_outputBuffer = text_buffer [],
      tc_context = HttpContext_new, tc_hasWriteComplete = False, tc_highWaterMark = None, cw_epoll = Epoll_new,
      cw_kernel = kern, cw_writes = 0, cw_wire = [], cw_sys = [], cw_queue = []\<rparr>"

lemma demo_conn_ok:
  assumes "kernel_ok kern"
  shows "conn_inv (demo_conn kern revents st)" and "tc_state (demo_conn kern revents st) = st"
    and "ch_statusInEpoll (tc_channel (demo_conn kern revents st)) = kAdded"
    and "ch_revents (tc_channel (demo_conn kern revents st)) = revents"
    and "tc_outputBuffer (demo_conn kern revents st) = text_buffer []"
    and "tc_inputBuffer (demo_conn kern revents st) = text_buffer []"
    and "cw_wire (demo_conn kern revents st) = []" and "cw_sys (demo_conn kern revents st) = []"
    and "tc_socket (demo_conn kern revents st) = Socket_of 3"
    and "tc_context (demo_conn kern revents st) = HttpContext_new"
proof -
  let ?w = "\<lparr>tc_name = ''tinyWS#1'', tc_state = st, tc_socket = Socket_of 3, tc_channelAddr = 7,
      tc_channel = Channel_setRevents revents (TcpConnection_channel 1 3), tc_localAddress = zero_address,
      tc_peerAddress = zero_address, tc_inputBuffer = text_buffer [], tc_outputBuffer = text_buffer [],
      tc_context = HttpContext_new, tc_hasWriteComplete = False, tc_highWaterMark = None, cw_epoll = Epoll_new,
      cw_kernel = kern, cw_writes = 0, cw_wire = [], cw_sys = [], cw_queue = []\<rparr>"
  note wiring = TcpConnection_channel_def Channel_setErrorCallback_def Channel_setCloseCallback_def
    Channel_setWriteCallback_def Channel_setReadCallback_def Channel_setRevents_def Channel_new_def
  have "chan_synced (tc_channelAddr ?w) (tc_channel ?w) (cw_epoll ?w)"
    using Epoll_new_inv
    by (simp add: chan_synced_def registered_as_def wiring status_defs poller_entry_def Epoll_new_def
        smap_get_def)
  from channel_updated_synced [OF this, of kReadEvent] show "conn_inv (demo_conn kern revents st)"
    using assms
    by (simp add: demo_conn_def conn_inv_def Channel_isWriting_def has_bits_def event_masks)
  show "ch_statusInEpoll (tc_channel (demo_conn kern revents st)) = kAdded"
    by (simp add: demo_conn_def channel_updated_def update_result_def wiring status_defs)
qed (simp_all add: demo_conn_def Channel_setRevents_def)

text \<open>A kernel that takes at most three bytes at a time.\<close>

definition slow_kernel :: "nat \<Rightarrow> nat \<Rightarrow> write_answer" where
  "slow_kernel i len = Wrote (min 3 len)"

lemma slow_kernel_ok: "kernel_ok slow_kernel"
  by (simp add: kernel_ok_def slow_kernel_def)

lemma demo_room: "n \<le> 2 ^ 62 \<Longrightarrow> Buffer_room (text_buffer []) n"
  by (simp add: Buffer_room_def text_buffer_def vec_max_def)


lemma write_events_ok:
  "conn_inv w \<Longrightarrow> returns (fold_res out_step (replicate n WriteEvent) w) (\<lambda>w'. conn_inv w' \<and> out_stream w' = out_stream w)"
  by (rule fold_res_invariant [where P = "\<lambda>w'. conn_inv w' \<and> out_stream w' = out_stream w"])
    (auto intro: returns_mono [OF handleWrite_ok])

text \<open>
  C36. A message sent while bytes of an earlier one are waiting is lost: when the kernel took only
  a part of the first message, the second \<open>send\<close> succeeds, but however many write events
  follow, what the peer receives is the first message alone.
\<close>

theorem send_while_pending_lost:
  assumes "conn_inv w" and "tc_state w = kConnected" and "Buffer_content (tc_outputBuffer w) = []"
    and part: "cw_kernel w (cw_writes w) (length m1) = Wrote k" "k < length m1"
    and "Buffer_room (tc_outputBuffer w) (length m1)"
  shows "returns (fold_res out_step (SendMessage m1 # SendMessage m2 # replicate n WriteEvent) w)
    (\<lambda>w'. out_stream w' = cw_wire w @ m1)"
proof -
  from sendInLoop_ok [OF assms(1,6)] obtain w1 where w1: "TcpConnection_sendInLoop m1 w = Inr w1"
    "conn_inv w1" "out_stream w1 = cw_wire w @ m1" "tc_state w1 = kConnected"
    using assms(2,3) by (auto simp: accepted_def out_stream_def elim: returnsE)
  have "Buffer_content (tc_outputBuffer w1) \<noteq> []"
  proof
    assume empty: "Buffer_content (tc_outputBuffer w1) = []"
    have "\<not> Channel_isWriting (tc_channel w)" "Buffer_readableBytes (tc_outputBuffer w) = 0"
      using assms(1,3) by (simp_all add: conn_inv_def)
    then have "cw_wire w1 = cw_wire w @ take k m1"
      using w1(1) part
      by (auto simp: TcpConnection_sendInLoop_def sys_write_def Let_def bind_res_eq_Inr with_channel_def
          split: if_splits)
    with w1(3) empty part(2) show False by (simp add: out_stream_def)
  qed
  then have "TcpConnection_sendInLoop m2 w1 = Inr w1" by (rule send_pending_dropped [OF w1(2)])
  with w1 assms(2) show ?thesis
    by (auto simp: TcpConnection_send_def intro: returns_mono [OF write_events_ok])
qed

theorem send_while_pending_lost_witness:
  "returns (fold_res out_step (SendMessage ''hello'' # SendMessage ''lost'' # replicate 9 WriteEvent)
     (demo_conn slow_kernel 0 kConnected)) (\<lambda>w'. out_stream w' = ''hello'')"
  by (rule returns_mono [OF send_while_pending_lost [OF demo_conn_ok(1,2) [OF slow_kernel_ok], where k = 3]])
    (auto simp: demo_conn_ok [OF slow_kernel_ok], simp_all add: demo_conn_def slow_kernel_def)

text \<open>
  C27. A graceful close waits for the output: \<open>shutdown\<close> makes no system call while bytes are
  waiting, and then the write event that drains the buffer makes exactly one. The call shuts down
  the reading side (\<open>SHUT_RD\<close>): the peer is never told that nothing more will come.
\<close>

theorem shutdown_after_drain:
  assumes "conn_inv w" and "tc_state w = kConnected"
  shows "tc_state (TcpConnection_shutdown True w) = kDisconnecting
    \<and> cw_sys (TcpConnection_shutdown True w) = cw_sys w @
        (if Buffer_content (tc_outputBuffer w) = [] then [SysShutdown (sockfd (tc_socket w)) SHUT_RD] else [])
    \<and> returns (TcpConnection_handleWrite (TcpConnection_shutdown True w)) (\<lambda>w'.
        out_stream w' = out_stream w \<and> tc_state w' = kDisconnecting
        \<and> cw_sys w' = cw_sys w @
          (if Buffer_content (tc_outputBuffer w') = [] then [SysShutdown (sockfd (tc_socket w)) SHUT_RD] else []))"
proof -
  let ?w = "TcpConnection_shutdown True w"
  have sh: "tc_state ?w = kDisconnecting" "conn_inv ?w" "tc_outputBuffer ?w = tc_outputBuffer w"
    "cw_wire ?w = cw_wire w" "tc_socket ?w = tc_socket w"
    "cw_sys ?w = cw_sys w @
        (if Buffer_content (tc_outputBuffer w) = [] then [SysShutdown (sockfd (tc_socket w)) SHUT_RD] else [])"
    using assms
    by (auto simp: TcpConnection_shutdown_def TcpConnection_setState_def TcpConnection_shutdownInLoop_def
        Socket_shutdownWrite_def conn_inv_def Let_def)
  have "Buffer_content (tc_outputBuffer w) = [] \<Longrightarrow> TcpConnection_handleWrite ?w = Inr ?w"
    using sh(2,3) by (simp add: TcpConnection_handleWrite_def conn_inv_def)
  with handleWrite_ok [OF sh(2)] sh show ?thesis
    by (cases "Buffer_content (tc_outputBuffer w) = []") (auto simp: out_stream_def elim!: returns_mono)
qed

theorem shutdown_after_drain_witness:
  "cw_sys (TcpConnection_shutdown True (demo_conn slow_kernel 0 kConnected)) = [SysShutdown 3 SHUT_RD]"
  using shutdown_after_drain [OF demo_conn_ok(1,2) [OF slow_kernel_ok]]
  by (simp add: demo_conn_ok [OF slow_kernel_ok] Socket_of_def)

section \<open>Disconnection\<close>

text \<open>A close callback that leaves the connection to its loop, as the server's does, and only
  queues \<open>fs\<close>.\<close>

definition passive_close :: "conn_functor list \<Rightarrow> callbacks \<Rightarrow> bool" where
  "passive_close fs cbs \<longleftrightarrow> (\<exists>f. cb_close cbs = Some f \<and>
     (\<forall>w. f w = Inr (w\<lparr>cw_queue := cw_queue w @ fs\<rparr>)))"

lemma readFd_eof:
  assumes "Buffer_inv b"
  shows "Buffer_readFd b (Inr []) = Inr (b, None, 0)"
proof -
  have "sz_add (writerIndex b) 0 = writerIndex b" "writerIndex b \<le> length (buf_store b)"
    using assms by (auto simp: Buffer_inv_def sz_add_def)
  then show ?thesis by (simp add: Buffer_readFd_def Buffer_beginWrite_def)
qed

lemma handleClose_ok:
  assumes "passive_close fs cbs" and "tc_state w = kConnected \<or> tc_state w = kDisconnecting"
    and "chan_synced (tc_channelAddr w) (tc_channel w) (cw_epoll w)"
  shows "returns (TcpConnection_handleClose cbs w) (\<lambda>w'. tc_state w' = kDisconnected
    \<and> ch_revents (tc_channel w') = ch_revents (tc_channel w)
    \<and> ch_loop (tc_channel w') = ch_loop (tc_channel w) \<and> tc_name w' = tc_name w
    \<and> cw_queue w' = cw_queue w @ fs)"
proof -
  let ?w = "TcpConnection_setState kDisconnected w"
  have "chan_synced (tc_channelAddr ?w) (tc_channel ?w) (cw_epoll ?w)"
    using assms(3) by (simp add: TcpConnection_setState_def)
  note with_channel_ops(4) [OF this]
  moreover obtain f where "cb_close cbs = Some f" "\<And>w. f w = Inr (w\<lparr>cw_queue := cw_queue w @ fs\<rparr>)"
    using assms(1) by (auto simp: passive_close_def)
  ultimately show ?thesis
    using assms(2)
    by (simp add: TcpConnection_handleClose_def run_callback_def) (simp add: TcpConnection_setState_def)
qed

text \<open>The read event with which the kernel reports the end of the stream.\<close>

lemma eof_event:
  assumes "chan_synced (tc_channelAddr w) (tc_channel w) (cw_epoll w)" and "Buffer_inv (tc_inputBuffer w)"
    and "wired (tc_channel w)" and "tc_state w = kConnected \<or> tc_state w = kDisconnecting"
    and "passive_close fs cbs" and "has_bits r EPOLLIN" and "\<not> has_bits r EPOLLOUT"
  shows "returns (conn_event cbs (Inr []) r w) (\<lambda>w'. tc_state w' = kDisconnected
    \<and> ch_revents (tc_channel w') = r \<and> r \<noteq> 0
    \<and> ch_loop (tc_channel w') = ch_loop (tc_channel w) \<and> tc_name w' = tc_name w
    \<and> cw_queue w' = cw_queue w @ fs)"
proof -
  let ?ch = "(tc_channel w)\<lparr>ch_revents := r, ch_eventHandling := True\<rparr>"
  let ?w = "w\<lparr>tc_channel := ?ch\<rparr>"
  have "chan_synced (tc_channelAddr ?w) (tc_channel ?w) (cw_epoll ?w)"
    using assms(1) by simp
  from handleClose_ok [OF assms(5) _ this] assms(4) obtain w1 where w1:
    "TcpConnection_handleClose cbs ?w = Inr w1" "tc_state w1 = kDisconnected"
    "ch_revents (tc_channel w1) = r" "ch_loop (tc_channel w1) = ch_loop (tc_channel w)"
    "tc_name w1 = tc_name w" "cw_queue w1 = cw_queue w @ fs"
    by (auto elim: returnsE)
  have "TcpConnection_handleRead cbs 0 (Inr []) ?w = Inr w1"
    using readFd_eof [OF assms(2)] w1(1) by (simp add: TcpConnection_handleRead_def)
  then have "conn_event cbs (Inr []) r w =
      Inr (w1\<lparr>tc_channel := (tc_channel w1)\<lparr>ch_eventHandling := False\<rparr>\<rparr>)"
    using assms(3,6,7) w1(3)
    by (auto simp: conn_event_def Channel_handleEvent_def Channel_handleEventWithGuard_def wired_def
        Channel_setRevents_def call_if_def TcpConnection_call_def TcpConnection_handleError_def
        has_bits_or Let_def split: option.splits)
  moreover have "r \<noteq> 0" using assms(6) by auto
  ultimately show ?thesis using w1 by simp
qed

lemma destroyed_after_event:
  "tc_state w = kDisconnected \<Longrightarrow> ch_revents (tc_channel w) \<noteq> 0 \<Longrightarrow>
   TcpConnection_connectionDestroyed cbs w = Inl AssertFailed"
  by (simp add: TcpConnection_connectionDestroyed_def with_channel_def Channel_remove_def
      Channel_isNoneEvent_def kNoneEvent_def)

text \<open>
  A client that disconnects brings the server down: the read event with which the kernel
  reports the end of the stream closes the connection, and the destruction that follows aborts
  on the assertion in \<open>Channel::remove\<close>.
\<close>

lemma client_disconnect_aborts:
  assumes "conn_inv w" and "Buffer_inv (tc_inputBuffer w)" and "wired (tc_channel w)"
    and "tc_state w = kConnected \<or> tc_state w = kDisconnecting" and "passive_close fs cbs"
    and "has_bits r EPOLLIN" and "\<not> has_bits r EPOLLOUT"
  shows "returns (conn_event cbs (Inr []) r w) (\<lambda>w'. tc_state w' = kDisconnected
    \<and> TcpConnection_connectionDestroyed cbs w' = Inl AssertFailed)"
  by (rule returns_mono [OF eof_event [OF _ assms(2-7)]])
    (use assms(1) in \<open>auto simp: conn_inv_def destroyed_after_event\<close>)

definition demo_callbacks :: callbacks where
  "demo_callbacks = \<lparr>cb_connection = Some Inr, cb_message = None, cb_close = Some Inr\<rparr>"

lemma demo_wired: "wired (tc_channel (demo_conn kern revents st))"
  by (simp add: wired_def demo_conn_def channel_updated_def update_result_def Let_def
      TcpConnection_channel_def Channel_setErrorCallback_def Channel_setCloseCallback_def
      Channel_setWriteCallback_def Channel_setReadCallback_def Channel_setRevents_def Channel_new_def)

lemma client_disconnect_aborts_instance:
  "returns (conn_event demo_callbacks (Inr []) EPOLLIN (demo_conn slow_kernel 0 kConnected)) (\<lambda>w'.
     TcpConnection_connectionDestroyed demo_callbacks w' = Inl AssertFailed)"
  by (rule returns_mono [OF client_disconnect_aborts [where fs = "[]", OF demo_conn_ok(1) [OF slow_kernel_ok] _ demo_wired]])
    (auto simp: demo_conn_ok [OF slow_kernel_ok] passive_close_def demo_callbacks_def has_bits_def epoll_bits)

end
