(* ===== verification/Connection_Life.thy ===== *)
theory Connection_Life
  imports TcpConnection
begin

text \<open>
  The life of a connection of \<open>net/TcpConnection.cpp\<close> under everything its loop, its owner and
  the user's callbacks do: the order of its states, what no operation changes, what it leaves in
  the queue of its loop, and its destruction. The locale \<open>conn_relation\<close> lifts any relation
  between the worlds before and after a callback to the dispatch of a whole event.
\<close>

section \<open>Life cycle\<close>

inductive state_step :: "tcp_state \<Rightarrow> tcp_state \<Rightarrow> bool" where
  established: "state_step kConnecting kConnected"
| shutting_down: "state_step kConnected kDisconnecting"
| closed: "state_step kConnected kDisconnected"
| closed_after_shutdown: "state_step kDisconnecting kDisconnected"

inductive_cases disconnected_stepE: "state_step kDisconnected s"

lemma disconnected_final: "state_step\<^sup>*\<^sup>* kDisconnected s \<Longrightarrow> s = kDisconnected"
  by (induction rule: rtranclp_induct) (auto elim: disconnected_stepE)

text \<open>The states in the order of a connection's life: what the steps reach is what lies above.\<close>

fun life_rank :: "tcp_state \<Rightarrow> nat" where
  "life_rank kConnecting = 0"
| "life_rank kConnected = 1"
| "life_rank kDisconnecting = 2"
| "life_rank kDisconnected = 3"

instantiation tcp_state :: linorder
begin

definition less_eq_tcp_state :: "tcp_state \<Rightarrow> tcp_state \<Rightarrow> bool" where
  "s \<le> t \<longleftrightarrow> life_rank s \<le> life_rank t"

definition less_tcp_state :: "tcp_state \<Rightarrow> tcp_state \<Rightarrow> bool" where
  "s < t \<longleftrightarrow> life_rank s < life_rank t"

instance
proof
  fix s t :: tcp_state
  show "s \<le> t \<Longrightarrow> t \<le> s \<Longrightarrow> s = t"
    by (cases s; cases t) (simp_all add: less_eq_tcp_state_def)
qed (auto simp: less_eq_tcp_state_def less_tcp_state_def)

end

lemma state_step_less: "state_step s t \<Longrightarrow> s < t"
  by (erule state_step.cases) (simp_all add: less_tcp_state_def)

lemma life_order: "state_step\<^sup>*\<^sup>* s t \<longleftrightarrow> s \<le> t"
proof
  show "s \<le> t" if "state_step\<^sup>*\<^sup>* s t"
    using that by (induction rule: rtranclp_induct) (auto dest: state_step_less)
  have to_final: "state_step\<^sup>*\<^sup>* s kDisconnected" for s
    using state_step.intros by (cases s) (meson converse_rtranclp_into_rtranclp rtranclp.rtrancl_refl)+
  show "state_step\<^sup>*\<^sup>* s t" if "s \<le> t"
    using that to_final state_step.intros
    by (cases s; cases t) (auto simp: less_eq_tcp_state_def intro: converse_rtranclp_into_rtranclp)
qed

section \<open>What the operations of a connection keep\<close>

text \<open>
  What a step does to the poller of the loop: if the channel, the poller and the kernel agree they
  still do, and nothing changes for the other descriptors.
\<close>

abbreviation conn_synced :: "conn_world \<Rightarrow> bool" where
  "conn_synced w \<equiv> chan_synced (tc_channelAddr w) (tc_channel w) (cw_epoll w)"

definition poller_frame :: "conn_world \<Rightarrow> conn_world \<Rightarrow> bool" where
  "poller_frame w w' \<longleftrightarrow> (conn_synced w \<longrightarrow> conn_synced w'
     \<and> (\<forall>fd. fd \<noteq> ch_fd (tc_channel w) \<longrightarrow> poller_entry (cw_epoll w') fd = poller_entry (cw_epoll w) fd))"

definition same_identity :: "conn_world \<Rightarrow> conn_world \<Rightarrow> bool" where
  "same_identity w w' \<longleftrightarrow> tc_name w' = tc_name w \<and> tc_channelAddr w' = tc_channelAddr w
     \<and> ch_loop (tc_channel w') = ch_loop (tc_channel w) \<and> ch_fd (tc_channel w') = ch_fd (tc_channel w)"

text \<open>
  The inner steps of an event keep the identity of the connection and its state, and leave
  nothing behind but write-complete functors.
\<close>

definition conn_frame :: "conn_world \<Rightarrow> conn_world \<Rightarrow> bool" where
  "conn_frame w w' \<longleftrightarrow> same_identity w w' \<and> poller_frame w w' \<and> tc_state w' = tc_state w
     \<and> (\<exists>n. cw_queue w' = cw_queue w @ replicate n WriteComplete)"

lemma poller_frame_trans:
  "same_identity a b \<Longrightarrow> poller_frame a b \<Longrightarrow> poller_frame b c \<Longrightarrow> poller_frame a c"
  by (auto simp: poller_frame_def same_identity_def)

lemma conn_frame_refl [simp]: "conn_frame w w"
  by (simp add: conn_frame_def same_identity_def poller_frame_def)

lemma conn_frame_trans: "conn_frame a b \<Longrightarrow> conn_frame b c \<Longrightarrow> conn_frame a c"
  unfolding conn_frame_def
  by (auto simp: replicate_add [symmetric] intro: poller_frame_trans) (simp_all add: same_identity_def)

lemma Channel_update_place:
  assumes "Channel_update p s = Inr s'"
  shows "ch_loop (fst s') = ch_loop (fst s) \<and> ch_fd (fst s') = ch_fd (fst s)"
  using assms
  by (auto simp: Channel_update_def EventLoop_updateChannel_def Epoll_updateChannel_def
      Channel_setStatusInEpoll_def Let_def bind_res_eq_Inr split: if_splits)

lemma channel_updated_poller: "conn_synced w \<Longrightarrow> poller_frame w (channel_updated ev w)"
  using update_result_frame [of "cw_epoll w" _ "(tc_channel w)\<lparr>ch_events := ev, ch_addedToLoop := True\<rparr>"]
  by (auto simp: poller_frame_def channel_updated_synced chan_synced_def [of _ "tc_channel w"])
    (auto simp: channel_updated_def Let_def)

lemma with_channel_frame:
  assumes "with_channel f w = Inr w'"
    and "f \<in> {Channel_enableReading, Channel_enableWriting, Channel_disableWriting, Channel_disableAll}"
  shows "conn_frame w w'"
proof -
  from assms(1) obtain ch ep where f: "f (tc_channelAddr w) (tc_channel w, cw_epoll w) = Inr (ch, ep)"
    and w': "w' = w\<lparr>tc_channel := ch, cw_epoll := ep\<rparr>"
    by (auto simp: with_channel_def bind_res_eq_Inr)
  have "ch_loop ch = ch_loop (tc_channel w) \<and> ch_fd ch = ch_fd (tc_channel w)"
    using assms(2) Channel_update_place f by (auto simp: channel_ops) fastforce+
  moreover have "poller_frame w w'" if "conn_synced w"
    using assms with_channel_ops [OF that] channel_updated_poller [OF that] by auto
  ultimately show ?thesis
    by (auto simp: w' conn_frame_def same_identity_def poller_frame_def)
qed

lemma with_channel_remove_frame:
  assumes "with_channel Channel_remove w = Inr w'"
  shows "conn_frame w w'"
proof -
  let ?ch = "(tc_channel w)\<lparr>ch_addedToLoop := False\<rparr>"
  from assms obtain ch ep where r: "Epoll_removeChannel (tc_channelAddr w) (?ch, cw_epoll w) = Inr (ch, ep)"
    and w': "w' = w\<lparr>tc_channel := ch, cw_epoll := ep\<rparr>"
    by (auto simp: with_channel_def Channel_remove_def EventLoop_removeChannel_def bind_res_eq_Inr split: if_splits)
  have "ch_loop ch = ch_loop (tc_channel w) \<and> ch_fd ch = ch_fd (tc_channel w)"
    using r by (auto simp: Epoll_removeChannel_def Channel_setStatusInEpoll_def Let_def)
  moreover have "poller_frame w w'"
    using removeChannel_synced [of "tc_channelAddr w" ?ch "cw_epoll w"] r
    by (auto simp: poller_frame_def w')
  ultimately show ?thesis by (simp add: w' conn_frame_def same_identity_def)
qed

lemmas frame_defs = conn_frame_def same_identity_def poller_frame_def

lemma sys_write_frame: "conn_frame w (snd (sys_write d w))"
  by (simp add: sys_write_def Let_def frame_defs)

lemma write_complete_frame:
  "conn_frame w (if b then queue_functor WriteComplete w else w)"
  by (auto simp: queue_functor_def frame_defs intro: exI [of _ 0] exI [of _ 1])

lemma conn_frame_updates [simp]:
  "conn_frame w (w\<lparr>tc_outputBuffer := b\<rparr>)" "conn_frame w (w\<lparr>tc_inputBuffer := b\<rparr>)"
  "conn_frame w (TcpConnection_shutdownInLoop w)"
  "conn_frame w (w\<lparr>tc_channel := (tc_channel w)\<lparr>ch_eventHandling := h\<rparr>\<rparr>)"
  "conn_frame w (w\<lparr>tc_channel := Channel_setRevents r (tc_channel w)\<rparr>)"
  "conn_frame w (w\<lparr>tc_channel := Channel_tie this (tc_channel w)\<rparr>)"
  by (simp_all add: frame_defs TcpConnection_shutdownInLoop_def Channel_setRevents_def Channel_tie_def chan_synced_def)

lemma sendInLoop_frame:
  assumes "TcpConnection_sendInLoop m w = Inr w'"
  shows "conn_frame w w'"
proof -
  have store: "conn_frame w w'"
    if "conn_frame w w2" and "bind_res (Buffer_append (tc_outputBuffer w2) d) (\<lambda>b.
          let w3 = w2\<lparr>tc_outputBuffer := b\<rparr> in
          if \<not> Channel_isWriting (tc_channel w3) then with_channel Channel_enableWriting w3 else Inr w3) = Inr w'"
    for w2 d
  proof -
    from that(2) obtain b where b: "(let w3 = w2\<lparr>tc_outputBuffer := b\<rparr> in
        if \<not> Channel_isWriting (tc_channel w3) then with_channel Channel_enableWriting w3 else Inr w3) = Inr w'"
      by (rule bind_resE)
    have "conn_frame (w2\<lparr>tc_outputBuffer := b\<rparr>) w'"
      using b with_channel_frame [of Channel_enableWriting "w2\<lparr>tc_outputBuffer := b\<rparr>" w']
      unfolding Let_def by (cases "Channel_isWriting (tc_channel (w2\<lparr>tc_outputBuffer := b\<rparr>))") simp_all
    with that(1) conn_frame_updates(1) [of w2 b] show ?thesis by (blast intro: conn_frame_trans)
  qed
  obtain a w1 where a: "sys_write m w = (a, w1)" by (cases "sys_write m w")
  have w1: "conn_frame w w1" using sys_write_frame [of w m] by (simp add: a)
  have w2: "conn_frame w (if tc_hasWriteComplete w1 then queue_functor WriteComplete w1 else w1)"
    using w1 write_complete_frame by (rule conn_frame_trans)
  show ?thesis
    using assms w1 w2
    by (auto simp: TcpConnection_sendInLoop_def a split: if_splits write_answer.splits intro: store)
qed

lemma drain_frame:
  assumes "with_channel Channel_disableWriting w = Inr w3"
    and "(let w4 = (if tc_hasWriteComplete w3 then queue_functor WriteComplete w3 else w3) in
            Inr (if tc_state w4 = kDisconnecting then TcpConnection_shutdownInLoop w4 else w4)) = (Inr w' :: conn_world res)"
  shows "conn_frame w w'"
proof -
  let ?w4 = "if tc_hasWriteComplete w3 then queue_functor WriteComplete w3 else w3"
  have "conn_frame w w3" using with_channel_frame [OF assms(1)] by simp
  moreover have "conn_frame w3 ?w4" by (rule write_complete_frame)
  moreover have "conn_frame ?w4 w'"
    using assms(2) unfolding Let_def sum.inject
    by (cases "tc_state ?w4 = kDisconnecting") (auto simp del: if_split)
  ultimately show ?thesis by (blast intro: conn_frame_trans)
qed

lemma handleWrite_frame:
  assumes "TcpConnection_handleWrite w = Inr w'"
  shows "conn_frame w w'"
proof (cases "Channel_isWriting (tc_channel w)")
  case False
  with assms show ?thesis by (simp add: TcpConnection_handleWrite_def)
next
  case True
  with assms obtain data where d: "(let (a, w1) = sys_write data w in
        case a of
          WriteError e \<Rightarrow> Inr w1
        | Wrote n \<Rightarrow>
            if 0 < n
            then bind_res (Buffer_retrieve (tc_outputBuffer w1) n) (\<lambda>b.
              let w2 = w1\<lparr>tc_outputBuffer := b\<rparr> in
              if Buffer_readableBytes b = 0
              then bind_res (with_channel Channel_disableWriting w2) (\<lambda>w3.
                let w4 = (if tc_hasWriteComplete w3 then queue_functor WriteComplete w3 else w3) in
                Inr (if tc_state w4 = kDisconnecting then TcpConnection_shutdownInLoop w4 else w4))
              else Inr w2)
            else Inr w1) = Inr w'"
    unfolding TcpConnection_handleWrite_def by (simp only: if_True) (erule bind_resE)
  obtain a w1 where a: "sys_write data w = (a, w1)" by (cases "sys_write data w")
  have w1: "conn_frame w w1" using sys_write_frame [of w data] by (simp add: a)
  have "conn_frame w1 w'"
  proof (cases a)
    case (WriteError e)
    with d a show ?thesis by simp
  next
    case (Wrote n)
    show ?thesis
    proof (cases "n = 0")
      case True
      with d a Wrote show ?thesis by simp
    next
      case False
      with d a Wrote obtain b where b: "(let w2 = w1\<lparr>tc_outputBuffer := b\<rparr> in
              if Buffer_readableBytes b = 0
              then bind_res (with_channel Channel_disableWriting w2) (\<lambda>w3.
                let w4 = (if tc_hasWriteComplete w3 then queue_functor WriteComplete w3 else w3) in
                Inr (if tc_state w4 = kDisconnecting then TcpConnection_shutdownInLoop w4 else w4))
              else Inr w2) = Inr w'"
        by (auto elim: bind_resE)
      have w2: "conn_frame w1 (w1\<lparr>tc_outputBuffer := b\<rparr>)" by simp
      show ?thesis
      proof (cases "Buffer_readableBytes b = 0")
        case True
        with b have "bind_res (with_channel Channel_disableWriting (w1\<lparr>tc_outputBuffer := b\<rparr>)) (\<lambda>w3.
            let w4 = (if tc_hasWriteComplete w3 then queue_functor WriteComplete w3 else w3) in
            Inr (if tc_state w4 = kDisconnecting then TcpConnection_shutdownInLoop w4 else w4)) = Inr w'"
          by (simp only: Let_def simp_thms if_True)
        then obtain w3 where "with_channel Channel_disableWriting (w1\<lparr>tc_outputBuffer := b\<rparr>) = Inr w3"
          "(let w4 = (if tc_hasWriteComplete w3 then queue_functor WriteComplete w3 else w3) in
            Inr (if tc_state w4 = kDisconnecting then TcpConnection_shutdownInLoop w4 else w4)) = (Inr w' :: conn_world res)"
          by (rule bind_resE)
        from w2 drain_frame [OF this] show ?thesis by (rule conn_frame_trans)
      next
        case False
        with b w2 show ?thesis by simp
      qed
    qed
  qed
  with w1 show ?thesis by (rule conn_frame_trans)
qed

text \<open>
  A relation between worlds that the callbacks (those that are \<open>ok\<close>) respect and that contains the inner steps and the
  changes of state: every operation of the loop respects it.
\<close>

locale conn_relation =
  fixes R :: "conn_world \<Rightarrow> conn_world \<Rightarrow> bool" and ok :: "callbacks \<Rightarrow> bool"
  assumes frame_R: "conn_frame w w' \<Longrightarrow> R w w'"
    and R_trans: "R w w' \<Longrightarrow> R w' w'' \<Longrightarrow> R w w''"
    and state_R: "state_step (tc_state w) s \<Longrightarrow> R w (TcpConnection_setState s w)"
    and connection_R: "ok cbs \<Longrightarrow> cb_connection cbs = Some f \<Longrightarrow> f w = Inr w' \<Longrightarrow> R w w'"
    and message_R: "ok cbs \<Longrightarrow> cb_message cbs = Some g \<Longrightarrow> g t w = Inr w' \<Longrightarrow> R w w'"
    and close_R: "ok cbs \<Longrightarrow> cb_close cbs = Some f \<Longrightarrow> tc_state w = kDisconnected \<Longrightarrow> f w = Inr w' \<Longrightarrow> R w w'"
begin

lemma run_connection_R: "ok cbs \<Longrightarrow> run_callback (cb_connection cbs) w = Inr w' \<Longrightarrow> R w w'"
  by (auto simp: run_callback_def connection_R split: option.splits)

lemma setState_then:
  assumes "with_channel f (TcpConnection_setState s w) = Inr w1"
    and "f \<in> {Channel_enableReading, Channel_enableWriting, Channel_disableWriting, Channel_disableAll}"
    and "state_step (tc_state w) s" and "tc_state w1 = s \<Longrightarrow> R w1 w'"
  shows "R w w'"
proof -
  have frame: "conn_frame (TcpConnection_setState s w) w1" using assms(1,2) by (rule with_channel_frame)
  then have "tc_state w1 = s" by (simp add: conn_frame_def TcpConnection_setState_def)
  with assms(4) frame_R [OF frame] state_R [OF assms(3)] show ?thesis by (blast intro: R_trans)
qed

lemma handleClose_R:
  assumes "ok cbs" and "TcpConnection_handleClose cbs w = Inr w'"
  shows "R w w'"
proof -
  from assms(2) obtain w1 where st: "tc_state w = kConnected \<or> tc_state w = kDisconnecting"
    and w1: "with_channel Channel_disableAll (TcpConnection_setState kDisconnected w) = Inr w1"
    "run_callback (cb_close cbs) w1 = Inr w'"
    by (auto simp: TcpConnection_handleClose_def bind_res_eq_Inr split: if_splits)
  have "state_step (tc_state w) kDisconnected" using st by (auto intro: state_step.intros)
  moreover have "R w1 w'" if "tc_state w1 = kDisconnected"
    using w1(2) that close_R [OF assms(1)] by (auto simp: run_callback_def split: option.splits)
  ultimately show ?thesis using setState_then [OF w1(1)] by simp
qed

lemma handleRead_R:
  assumes "ok cbs" and "TcpConnection_handleRead cbs t answer w = Inr w'"
  shows "R w w'"
proof -
  from assms(2) obtain r where r: "Buffer_readFd (tc_inputBuffer w) answer = Inr r"
    by (auto simp: TcpConnection_handleRead_def elim: bind_resE)
  obtain b e n where ben: "r = (b, e, n)" by (cases r)
  have read: "R w (w\<lparr>tc_inputBuffer := b\<rparr>)" by (rule frame_R) simp
  have "(if 0 < n then run_callback (case cb_message cbs of None \<Rightarrow> None | Some f \<Rightarrow> Some (f t)) (w\<lparr>tc_inputBuffer := b\<rparr>)
      else if n = 0 then TcpConnection_handleClose cbs (w\<lparr>tc_inputBuffer := b\<rparr>)
      else Inr (w\<lparr>tc_inputBuffer := b\<rparr>)) = Inr w'"
    using assms(2) r ben
    by (auto simp: TcpConnection_handleRead_def TcpConnection_handleError_def Let_def split: if_splits)
  then have "R (w\<lparr>tc_inputBuffer := b\<rparr>) w' \<or> w' = w\<lparr>tc_inputBuffer := b\<rparr>"
    using message_R [OF assms(1)] handleClose_R [OF assms(1)]
    by (auto simp: run_callback_def split: if_splits option.splits)
  with read show ?thesis by (blast intro: R_trans)
qed

lemma call_R:
  assumes "ok cbs" and "TcpConnection_call cbs answer cb t w = Inr w'"
  shows "R w w'"
  using assms(2) handleRead_R [OF assms(1)] handleClose_R [OF assms(1)]
  by (cases cb) (auto simp: TcpConnection_call_def TcpConnection_handleError_def
      intro: frame_R handleWrite_frame)

text \<open>The world during a dispatch, where the channel is carried next to it.\<close>

abbreviation dispatched :: "conn_cb channel_t \<times> conn_world \<Rightarrow> conn_world" where
  "dispatched s \<equiv> (snd s)\<lparr>tc_channel := fst s\<rparr>"

lemma event_R:
  assumes "ok cbs" and "conn_event cbs answer revents w = Inr w'"
  shows "R w w'"
proof -
  let ?call = "\<lambda>cb t (ch, w). bind_res (TcpConnection_call cbs answer cb t (w\<lparr>tc_channel := ch\<rparr>))
             (\<lambda>w'. Inr (tc_channel w', w'))"
  define Q where "Q s s' = R (dispatched s) (dispatched s')" for s s'
  have Q_refl: "Q s s" for s unfolding Q_def by (rule frame_R) simp
  have Q_trans: "Q a b \<Longrightarrow> Q b c \<Longrightarrow> Q a c" for a b c unfolding Q_def by (rule R_trans)
  have mark: "Q s ((fst s)\<lparr>ch_eventHandling := h\<rparr>, snd s)" for s h
    unfolding Q_def by (rule frame_R) (simp add: frame_defs)
  have call: "Q s s'" if "?call cb t s = Inr s'" for cb t s s'
  proof -
    from that have "TcpConnection_call cbs answer cb t (dispatched s) = Inr (snd s')" "fst s' = tc_channel (snd s')"
      by (auto simp: split_beta bind_res_eq_Inr)
    from call_R [OF assms(1) this(1)] this(2) show ?thesis by (simp add: Q_def)
  qed
  have part: "Q s s'" if "(if b then call_if ?call cb t s else Inr s) = Inr s'" for b cb t s s'
    using that call Q_refl by (auto simp: call_if_def split: if_splits option.splits)
  have guard: "Q s s'" if "Channel_handleEventWithGuard ?call t s = Inr s'" for t s s'
  proof -
    from that obtain s2 s3 s4 s5 where
      "Q ((fst s)\<lparr>ch_eventHandling := True\<rparr>, snd s) s2" "Q s2 s3" "Q s3 s4" "Q s4 s5"
      "s' = ((fst s5)\<lparr>ch_eventHandling := False\<rparr>, snd s5)"
      unfolding Channel_handleEventWithGuard_def Let_def
      by (fastforce elim!: bind_resE dest!: part)
    with mark show ?thesis by (metis Q_trans)
  qed
  let ?s = "(Channel_setRevents revents (tc_channel w), w)"
  from assms(2) obtain s where s: "Channel_handleEvent (\<lambda>_. True) ?call 0 ?s = Inr s" "w' = dispatched s"
    by (auto simp: conn_event_def bind_res_eq_Inr)
  have "R w (dispatched ?s)" by (rule frame_R) simp
  moreover have "R (dispatched ?s) (dispatched s)"
    using s(1) guard [of 0 ?s s] frame_R [OF conn_frame_refl] unfolding Q_def
    by (auto simp: Channel_handleEvent_def split: if_splits option.splits)
  ultimately show ?thesis unfolding s(2) by (rule R_trans)
qed

lemma established_R:
  assumes "ok cbs" and "TcpConnection_connectionEstablished cbs this w = Inr w'"
  shows "R w w'"
proof -
  let ?w = "w\<lparr>tc_channel := Channel_tie this (tc_channel w)\<rparr>"
  have comm: "(TcpConnection_setState kConnected w)\<lparr>tc_channel := ch\<rparr>
      = TcpConnection_setState kConnected (w\<lparr>tc_channel := ch\<rparr>)" for ch
    by (simp add: TcpConnection_setState_def)
  have sel: "tc_channel (TcpConnection_setState kConnected w) = tc_channel w"
    by (simp add: TcpConnection_setState_def)
  have "TcpConnection_connectionEstablished cbs this w = cpp_assert (tc_state w = kConnecting)
      (bind_res (with_channel Channel_enableReading (TcpConnection_setState kConnected ?w))
        (run_callback (cb_connection cbs)))"
    by (simp only: TcpConnection_connectionEstablished_def Let_def comm sel)
  with assms(2) obtain st: "tc_state w = kConnecting"
    and "bind_res (with_channel Channel_enableReading (TcpConnection_setState kConnected ?w))
      (run_callback (cb_connection cbs)) = Inr w'"
    by (simp del: bind_res_Inr bind_res_Inl split: if_splits)
  from this(2) obtain w1 where w1: "with_channel Channel_enableReading (TcpConnection_setState kConnected ?w) = Inr w1"
    "run_callback (cb_connection cbs) w1 = Inr w'"
    by (auto elim: bind_resE)
  have "R w ?w" by (rule frame_R) simp
  moreover have "R ?w w'"
    using setState_then [OF w1(1)] st state_step.established run_connection_R [OF assms(1) w1(2)] by simp
  ultimately show ?thesis by (rule R_trans)
qed

lemma destroyed_R:
  assumes "ok cbs" and "TcpConnection_connectionDestroyed cbs w = Inr w'"
  shows "R w w'"
proof -
  from assms(2) obtain w1 where w1: "(if tc_state w = kConnected
        then bind_res (with_channel Channel_disableAll (TcpConnection_setState kDisconnected w))
               (run_callback (cb_connection cbs))
        else Inr w) = Inr w1" "with_channel Channel_remove w1 = Inr w'"
    by (auto simp: TcpConnection_connectionDestroyed_def bind_res_eq_Inr)
  have "R w w1"
  proof (cases "tc_state w = kConnected")
    case True
    with w1 obtain w2 where w2: "with_channel Channel_disableAll (TcpConnection_setState kDisconnected w) = Inr w2"
      "run_callback (cb_connection cbs) w2 = Inr w1" by (auto elim: bind_resE)
    from setState_then [OF w2(1)] True state_step.closed run_connection_R [OF assms(1) w2(2)] show ?thesis by simp
  qed (use w1 frame_R [OF conn_frame_refl] in simp)
  with frame_R [OF with_channel_remove_frame [OF w1(2)]] show ?thesis by (blast intro: R_trans)
qed

end

section \<open>The order of the states\<close>

definition advances :: "conn_world \<Rightarrow> conn_world \<Rightarrow> bool" where
  "advances w w' \<longleftrightarrow> state_step\<^sup>*\<^sup>* (tc_state w) (tc_state w')"

definition polite :: "callbacks \<Rightarrow> bool" where
  "polite cbs \<longleftrightarrow> (\<forall>f w w'. cb_connection cbs = Some f \<longrightarrow> f w = Inr w' \<longrightarrow> advances w w')
     \<and> (\<forall>f t w w'. cb_message cbs = Some f \<longrightarrow> f t w = Inr w' \<longrightarrow> advances w w')
     \<and> (\<forall>f w w'. cb_close cbs = Some f \<longrightarrow> f w = Inr w' \<longrightarrow> advances w w')"

lemma advances_refl [simp]: "advances w w"
  by (simp add: advances_def)

lemma advances_trans: "advances a b \<Longrightarrow> advances b c \<Longrightarrow> advances a c"
  by (auto simp: advances_def)

lemma conn_frame_advances: "conn_frame w w' \<Longrightarrow> advances w w'"
  by (simp add: conn_frame_def advances_def)

lemma setState_advances: "state_step (tc_state w) s \<Longrightarrow> advances w (TcpConnection_setState s w)"
  by (auto simp: advances_def TcpConnection_setState_def)

interpretation life: conn_relation advances polite
proof
  show "conn_frame w w' \<Longrightarrow> advances w w'" for w w' by (rule conn_frame_advances)
  show "advances w w' \<Longrightarrow> advances w' w'' \<Longrightarrow> advances w w''" for w w' w'' by (rule advances_trans)
  show "state_step (tc_state w) s \<Longrightarrow> advances w (TcpConnection_setState s w)" for w s
    by (rule setState_advances)
qed (auto simp: polite_def)

text \<open>What the loop and the owner do to a connection. \<open>inLoop\<close> is whether the caller runs in the
  loop's thread.\<close>

fun run_conn_functor :: "conn_functor \<Rightarrow> conn_world \<Rightarrow> conn_world res" where
  "run_conn_functor (SendInLoop m) w = TcpConnection_sendInLoop m w"
| "run_conn_functor ShutdownInLoop w = Inr (TcpConnection_shutdownInLoop w)"
| "run_conn_functor WriteComplete w = Inr w"
| "run_conn_functor CloseCallback w = Inr w"

datatype conn_op =
    Established nat
  | Send bool string
  | Shutdown bool
  | Event "int + string" "32 word"
  | RunFunctor conn_functor
  | Destroyed

fun conn_do :: "callbacks \<Rightarrow> conn_op \<Rightarrow> conn_world \<Rightarrow> conn_world res" where
  "conn_do cbs (Established this) w = TcpConnection_connectionEstablished cbs this w"
| "conn_do cbs (Send inLoop m) w = TcpConnection_send inLoop m w"
| "conn_do cbs (Shutdown inLoop) w = Inr (TcpConnection_shutdown inLoop w)"
| "conn_do cbs (Event answer revents) w = conn_event cbs answer revents w"
| "conn_do cbs (RunFunctor f) w = run_conn_functor f w"
| "conn_do cbs Destroyed w = TcpConnection_connectionDestroyed cbs w"

lemma functor_frame: "run_conn_functor f w = Inr w' \<Longrightarrow> conn_frame w w'"
  by (cases f) (auto intro: sendInLoop_frame)

lemma send_advances: "TcpConnection_send inLoop m w = Inr w' \<Longrightarrow> advances w w'"
  by (auto simp: TcpConnection_send_def queue_functor_def advances_def conn_frame_def
      dest!: sendInLoop_frame split: if_splits)

lemma shutdown_advances: "advances w (TcpConnection_shutdown inLoop w)"
  using state_step.shutting_down
  by (auto simp: TcpConnection_shutdown_def TcpConnection_setState_def TcpConnection_shutdownInLoop_def
      queue_functor_def advances_def Let_def)

lemma conn_do_advances:
  assumes "polite cbs" and "conn_do cbs x w = Inr w'"
  shows "advances w w'"
  using assms(2) life.event_R [OF assms(1)] life.established_R [OF assms(1)] life.destroyed_R [OF assms(1)]
  by (cases x) (auto intro: conn_frame_advances functor_frame send_advances shutdown_advances)

text \<open>
  C26. The life cycle: whatever the loop, the owner and the callbacks do to a connection, in any
  order, its state only grows in the order connecting, connected, disconnecting, disconnected; once
  disconnected it stays so, and a later close or establishment fails an assertion.
\<close>

theorem connection_life_cycle:
  assumes "polite cbs" and "fold_res (conn_do cbs) ops w = Inr w'"
  shows "tc_state w \<le> tc_state w'
    \<and> (tc_state w = kDisconnected \<longrightarrow> tc_state w' = kDisconnected
         \<and> TcpConnection_handleClose cbs w' = Inl AssertFailed
         \<and> TcpConnection_connectionEstablished cbs this w' = Inl AssertFailed
         \<and> TcpConnection_send inLoop m w' = Inr w')"
proof -
  have "advances w w'"
    using assms(2)
  proof (induction ops arbitrary: w)
    case Nil
    then show ?case by simp
  next
    case (Cons x ops)
    then obtain w1 where "conn_do cbs x w = Inr w1" "fold_res (conn_do cbs) ops w1 = Inr w'"
      by (auto elim: bind_resE)
    with Cons.IH conn_do_advances [OF assms(1)] show ?case by (metis advances_trans)
  qed
  then have steps: "state_step\<^sup>*\<^sup>* (tc_state w) (tc_state w')" by (simp add: advances_def)
  then have "tc_state w' = kDisconnected" if "tc_state w = kDisconnected"
    using that disconnected_final [of "tc_state w'"] by simp
  with steps [unfolded life_order] show ?thesis
    by (auto simp: TcpConnection_handleClose_def TcpConnection_connectionEstablished_def
        TcpConnection_send_def)
qed

theorem connection_life_cycle_witness:
  "\<exists>w'. fold_res (conn_do demo_callbacks) [Send True ''hi'', Shutdown True] (demo_conn slow_kernel 0 kConnected)
       = Inr w' \<and> kConnected \<le> tc_state w'"
proof -
  have "polite demo_callbacks" by (auto simp: polite_def demo_callbacks_def)
  moreover have "returns (TcpConnection_sendInLoop ''hi'' (demo_conn slow_kernel 0 kConnected)) (\<lambda>_. True)"
    by (rule returns_mono [OF sendInLoop_ok [OF demo_conn_ok(1) [OF slow_kernel_ok]]])
      (simp_all add: demo_conn_ok [OF slow_kernel_ok] demo_room)
  then obtain w' where "fold_res (conn_do demo_callbacks) [Send True ''hi'', Shutdown True]
      (demo_conn slow_kernel 0 kConnected) = Inr w'"
    by (auto simp: TcpConnection_send_def demo_conn_ok [OF slow_kernel_ok] elim!: returnsE)
  ultimately show ?thesis
    using connection_life_cycle [of demo_callbacks _ "demo_conn slow_kernel 0 kConnected" w']
    by (metis demo_conn_ok(2) slow_kernel_ok)
qed

section \<open>What a connection leaves behind\<close>

text \<open>
  How a world evolves while the loop works on it: the identity stays, the state advances, the
  poller stays in agreement with the channel, and what is left behind are write-complete functors
  and, once disconnected, calls of the close callback.
\<close>

definition evolves :: "conn_world \<Rightarrow> conn_world \<Rightarrow> bool" where
  "evolves w w' \<longleftrightarrow> same_identity w w' \<and> poller_frame w w' \<and> advances w w'
     \<and> (\<exists>fs. cw_queue w' = cw_queue w @ fs
          \<and> (\<forall>f\<in>set fs. f = WriteComplete \<or> (f = CloseCallback \<and> tc_state w' = kDisconnected)))"

text \<open>Callbacks that do to a connection only what its interface offers.\<close>

definition respectful :: "callbacks \<Rightarrow> bool" where
  "respectful cbs \<longleftrightarrow> (\<forall>f w w'. cb_connection cbs = Some f \<longrightarrow> f w = Inr w' \<longrightarrow> evolves w w')
     \<and> (\<forall>f t w w'. cb_message cbs = Some f \<longrightarrow> f t w = Inr w' \<longrightarrow> evolves w w')
     \<and> (\<forall>f w w'. cb_close cbs = Some f \<longrightarrow> tc_state w = kDisconnected \<longrightarrow> f w = Inr w' \<longrightarrow> evolves w w')"

lemma advances_final: "advances w w' \<Longrightarrow> tc_state w = kDisconnected \<Longrightarrow> tc_state w' = kDisconnected"
  by (auto simp: advances_def dest: disconnected_final)

lemma same_identity_trans: "same_identity a b \<Longrightarrow> same_identity b c \<Longrightarrow> same_identity a c"
  by (simp add: same_identity_def)

lemma evolves_trans:
  assumes "evolves a b" and "evolves b c"
  shows "evolves a c"
proof -
  from assms obtain fs gs where q: "cw_queue c = cw_queue a @ fs @ gs"
    "\<forall>f\<in>set fs. f = WriteComplete \<or> (f = CloseCallback \<and> tc_state b = kDisconnected)"
    "\<forall>f\<in>set gs. f = WriteComplete \<or> (f = CloseCallback \<and> tc_state c = kDisconnected)"
    and r: "same_identity a b" "same_identity b c" "poller_frame a b" "poller_frame b c" "advances a b" "advances b c"
    by (auto simp: evolves_def)
  from q(2) r(6) have "\<forall>f\<in>set fs. f = WriteComplete \<or> (f = CloseCallback \<and> tc_state c = kDisconnected)"
    by (auto dest: advances_final)
  with q have "\<forall>f\<in>set (fs @ gs). f = WriteComplete \<or> (f = CloseCallback \<and> tc_state c = kDisconnected)" by auto
  with q(1) r show ?thesis
    unfolding evolves_def by (blast intro: same_identity_trans poller_frame_trans advances_trans)
qed

lemma conn_frame_evolves: "conn_frame w w' \<Longrightarrow> evolves w w'"
  using conn_frame_advances [of w w'] by (auto simp: conn_frame_def evolves_def)

lemma setState_evolves: "state_step (tc_state w) s \<Longrightarrow> evolves w (TcpConnection_setState s w)"
  using setState_advances [of w s]
  by (simp add: evolves_def) (simp add: same_identity_def poller_frame_def TcpConnection_setState_def)

interpretation world: conn_relation evolves respectful
proof
  show "conn_frame w w' \<Longrightarrow> evolves w w'" for w w' by (rule conn_frame_evolves)
  show "evolves w w' \<Longrightarrow> evolves w' w'' \<Longrightarrow> evolves w w''" for w w' w'' by (rule evolves_trans)
  show "state_step (tc_state w) s \<Longrightarrow> evolves w (TcpConnection_setState s w)" for w s
    by (rule setState_evolves)
qed (auto simp: respectful_def)

text \<open>
  One operation on a connection with nothing left behind yet, by the loop or by another thread: a
  close callback comes from a connection that is disconnected, a message to be sent in the loop
  from one that is connected.
\<close>

definition conn_step :: "conn_world \<Rightarrow> conn_world \<Rightarrow> bool" where
  "conn_step w w' \<longleftrightarrow> same_identity w w' \<and> poller_frame w w' \<and> advances w w'
     \<and> (CloseCallback \<in> set (cw_queue w') \<longrightarrow> tc_state w' = kDisconnected)
     \<and> (\<forall>m. SendInLoop m \<in> set (cw_queue w') \<longrightarrow> tc_state w' = kConnected)"

lemma evolves_step: "cw_queue w = [] \<Longrightarrow> evolves w w' \<Longrightarrow> conn_step w w'"
  by (auto simp: evolves_def conn_step_def)

lemma functor_step: "cw_queue w = [] \<Longrightarrow> run_conn_functor f w = Inr w' \<Longrightarrow> conn_step w w'"
  by (blast intro: evolves_step conn_frame_evolves functor_frame)

lemma send_step:
  assumes "cw_queue w = []" and "TcpConnection_send inLoop m w = Inr w'"
  shows "conn_step w w'"
proof (cases "tc_state w = kConnected \<and> \<not> inLoop")
  case True
  with assms show ?thesis
    by (auto simp: TcpConnection_send_def queue_functor_def conn_step_def same_identity_def
        poller_frame_def advances_def)
next
  case False
  with assms(2) have "conn_frame w w'"
    by (auto simp: TcpConnection_send_def intro: sendInLoop_frame split: if_splits)
  with assms(1) show ?thesis by (blast intro: evolves_step conn_frame_evolves)
qed

lemma shutdown_step:
  assumes "cw_queue w = []"
  shows "conn_step w (TcpConnection_shutdown inLoop w)"
  using assms shutdown_advances [of w inLoop]
  by (simp add: conn_step_def)
    (auto simp: TcpConnection_shutdown_def TcpConnection_setState_def TcpConnection_shutdownInLoop_def
      queue_functor_def same_identity_def poller_frame_def Let_def)

section \<open>Destruction\<close>

lemma with_channel_remove:
  "with_channel Channel_remove w =
     (if ch_revents (tc_channel w) = 0
      then Inr (w\<lparr>tc_channel := (tc_channel w)\<lparr>ch_addedToLoop := False, ch_statusInEpoll := kNew\<rparr>,
                 cw_epoll := snd (projr (Epoll_removeChannel (tc_channelAddr w)
                    ((tc_channel w)\<lparr>ch_addedToLoop := False\<rparr>, cw_epoll w)))\<rparr>)
      else Inl AssertFailed)"
  by (simp add: with_channel_def Channel_remove_def Channel_isNoneEvent_def kNoneEvent_def
      EventLoop_removeChannel_def Epoll_removeChannel_def Channel_setStatusInEpoll_def Let_def)

text \<open>
  Destroying a connection whose channel never had an event: a connected one is taken down and
  can be deleted, which closes its descriptor; one that is shutting down stays in that state, so
  that its destructor fails an assertion. After any event the destruction itself aborts.
\<close>

lemma connectionDestroyed_cases:
  assumes "conn_inv w" and "cb_connection cbs = Some Inr" and "\<not> ch_eventHandling (tc_channel w)"
    and "0 \<le> sockfd (tc_socket w)"
  shows "(ch_revents (tc_channel w) \<noteq> 0 \<longrightarrow> TcpConnection_connectionDestroyed cbs w = Inl AssertFailed)
    \<and> (ch_revents (tc_channel w) = 0 \<longrightarrow>
        returns (TcpConnection_connectionDestroyed cbs w) (\<lambda>w'.
          TcpConnection_delete w' =
            (if tc_state w = kConnected \<or> tc_state w = kDisconnected
             then Inr (cw_sys w @ [SysClose (sockfd (tc_socket w))]) else Inl AssertFailed)))"
proof -
  let ?w = "TcpConnection_setState kDisconnected w"
  have s: "chan_synced (tc_channelAddr ?w) (tc_channel ?w) (cw_epoll ?w)"
    using assms(1) by (simp add: conn_inv_def TcpConnection_setState_def)
  have sel: "tc_channel ?w = tc_channel w" "tc_socket ?w = tc_socket w" "cw_sys ?w = cw_sys w"
    "tc_state ?w = kDisconnected"
    by (simp_all add: TcpConnection_setState_def)
  have handling: "ch_eventHandling (tc_channel (channel_updated ev ?w)) = ch_eventHandling (tc_channel w)" for ev
    by (simp add: channel_updated_def update_result_def Let_def sel)
  note defs = TcpConnection_connectionDestroyed_def run_callback_def with_channel_ops(4) [OF s]
    with_channel_remove TcpConnection_delete_def Channel_delete_def Socket_delete_def Socket_isValid_def
  show ?thesis
    using assms(2-4) handling sel by (cases "tc_state w") (simp_all add: defs)
qed

lemma connectionDestroyed_cases_instance:
  "returns (TcpConnection_connectionDestroyed demo_callbacks (demo_conn slow_kernel 0 kDisconnecting))
     (\<lambda>w'. TcpConnection_delete w' = Inl AssertFailed)
   \<and> returns (TcpConnection_connectionDestroyed demo_callbacks (demo_conn slow_kernel 0 kConnected))
     (\<lambda>w'. TcpConnection_delete w' = Inr [SysClose 3])"
proof -
  have "\<not> ch_eventHandling (tc_channel (demo_conn slow_kernel 0 st))" for st
    by (simp add: demo_conn_def channel_updated_def update_result_def Let_def Channel_setRevents_def
        TcpConnection_channel_def Channel_setErrorCallback_def Channel_setCloseCallback_def
        Channel_setWriteCallback_def Channel_setReadCallback_def Channel_new_def)
  note * = connectionDestroyed_cases [OF demo_conn_ok(1) [OF slow_kernel_ok] _ this, of demo_callbacks]
  show ?thesis
    using * [of kDisconnecting] * [of kConnected]
    by (simp add: demo_conn_ok [OF slow_kernel_ok] demo_callbacks_def Socket_of_def)
qed

end
