(* ===== verification/EventLoopThread.thy ===== *)
theory EventLoopThread
  imports Prelude
begin

text \<open>
  \<open>net/EventLoopThread.cpp\<close> and \<open>net/EventLoopThreadPool.cpp\<close>: a loop that runs in a thread
  of its own, and the loops among which a server deals its connections out. A loop is an address
  here. The two threads that meet in \<open>startThread\<close> are a step relation; the pool runs in the
  thread of the base loop, as it asserts.
\<close>

section \<open>EventLoopThread\<close>

text \<open>
  The creating thread and the created one, which share \<open>loop_\<close> under a mutex. \<open>et_loop\<close> is
  the member \<open>loop_\<close>, \<open>et_alive\<close> whether the loop on the thread's stack exists, and
  \<open>et_initialised\<close> whether the callback has run on it. The loop on the stack is at \<open>addr\<close>.
\<close>

datatype starter_pc = NotStarted | AwaitLoop | Returned "nat option"

datatype thread_pc = NotRunning | InConstructor | InCallback | Publishing | InLoop | Exited

record loop_thread =
  et_starter :: starter_pc
  et_thread :: thread_pc
  et_loop :: "nat option"
  et_exiting :: bool
  et_alive :: bool
  et_initialised :: bool

definition EventLoopThread_new :: loop_thread where
  "EventLoopThread_new = \<lparr>et_starter = NotStarted, et_thread = NotRunning, et_loop = None,
     et_exiting = False, et_alive = False, et_initialised = False\<rparr>"

inductive et_step :: "nat \<Rightarrow> loop_thread \<Rightarrow> loop_thread \<Rightarrow> bool" for addr where
  start_thread: "et_starter s = NotStarted \<Longrightarrow>
    et_step addr s (s\<lparr>et_starter := AwaitLoop, et_thread := InConstructor\<rparr>)"
| loop_seen: "et_starter s = AwaitLoop \<Longrightarrow> et_loop s \<noteq> None \<Longrightarrow>
    et_step addr s (s\<lparr>et_starter := Returned (et_loop s)\<rparr>)"
| construct: "et_thread s = InConstructor \<Longrightarrow>
    et_step addr s (s\<lparr>et_thread := InCallback, et_alive := True\<rparr>)"
| run_callback: "et_thread s = InCallback \<Longrightarrow>
    et_step addr s (s\<lparr>et_thread := Publishing, et_initialised := True\<rparr>)"
| publish: "et_thread s = Publishing \<Longrightarrow> et_step addr s (s\<lparr>et_thread := InLoop, et_loop := Some addr\<rparr>)"
| loop_returns: "et_thread s = InLoop \<Longrightarrow> et_step addr s (s\<lparr>et_thread := Exited, et_alive := False\<rparr>)"

inductive_cases et_stepE: "et_step addr s s'"

text \<open>
  The destructor quits the loop it points to and joins the thread, which has then left its loop;
  \<open>None\<close> is a call on a loop that no longer exists.
\<close>

definition EventLoopThread_delete :: "loop_thread \<Rightarrow> loop_thread option" where
  "EventLoopThread_delete s0 =
     (let s = s0\<lparr>et_exiting := True\<rparr> in
      if et_loop s \<noteq> None
      then if et_alive s then Some (s\<lparr>et_thread := Exited, et_alive := False\<rparr>) else None
      else Some s)"

definition et_inv :: "nat \<Rightarrow> loop_thread \<Rightarrow> bool" where
  "et_inv addr s \<longleftrightarrow>
     et_loop s = (if et_thread s \<in> {InLoop, Exited} then Some addr else None)
     \<and> et_initialised s = (et_thread s \<in> {Publishing, InLoop, Exited})
     \<and> et_alive s = (et_thread s \<in> {InCallback, Publishing, InLoop})
     \<and> (case et_starter s of
          NotStarted \<Rightarrow> et_thread s = NotRunning
        | AwaitLoop \<Rightarrow> et_thread s \<noteq> NotRunning
        | Returned p \<Rightarrow> p = Some addr \<and> et_thread s \<in> {InLoop, Exited})"

lemma et_inv_step: "et_step addr s s' \<Longrightarrow> et_inv addr s \<Longrightarrow> et_inv addr s'"
  by (erule et_stepE) (simp_all add: et_inv_def split: starter_pc.splits if_splits)

lemma et_inv_reachable: "(et_step addr)\<^sup>*\<^sup>* s s' \<Longrightarrow> et_inv addr s \<Longrightarrow> et_inv addr s'"
  by (induction rule: rtranclp_induct) (auto intro: et_inv_step)


definition exited_thread :: loop_thread where
  "exited_thread = \<lparr>et_starter = Returned (Some 9), et_thread = Exited, et_loop = Some 9,
     et_exiting = False, et_alive = False, et_initialised = True\<rparr>"

lemma exited_thread_reached: "(et_step 9)\<^sup>*\<^sup>* EventLoopThread_new exited_thread"
proof -
  let ?s1 = "EventLoopThread_new\<lparr>et_starter := AwaitLoop, et_thread := InConstructor\<rparr>"
  let ?s2 = "?s1\<lparr>et_thread := InCallback, et_alive := True\<rparr>"
  let ?s3 = "?s2\<lparr>et_thread := Publishing, et_initialised := True\<rparr>"
  let ?s4 = "?s3\<lparr>et_thread := InLoop, et_loop := Some 9\<rparr>"
  let ?s5 = "?s4\<lparr>et_starter := Returned (et_loop ?s4)\<rparr>"
  have "et_step 9 EventLoopThread_new ?s1" by (rule et_step.start_thread) (simp add: EventLoopThread_new_def)
  moreover have "et_step 9 ?s1 ?s2" by (rule et_step.construct) simp
  moreover have "et_step 9 ?s2 ?s3" by (rule et_step.run_callback) simp
  moreover have "et_step 9 ?s3 ?s4" by (rule et_step.publish) simp
  moreover have "et_step 9 ?s4 ?s5" by (rule et_step.loop_seen) simp_all
  moreover have "et_step 9 ?s5 exited_thread"
    using et_step.loop_returns [of ?s5 9] by (simp add: EventLoopThread_new_def exited_thread_def)
  ultimately show ?thesis by (meson converse_rtranclp_into_rtranclp rtranclp.rtrancl_refl)
qed


section \<open>EventLoopThreadPool\<close>

record thread_pool =
  etp_baseLoop :: nat
  etp_started :: bool
  etp_numThreads :: int
  etp_next :: nat
  etp_loops :: "nat list"

definition EventLoopThreadPool_new :: "nat \<Rightarrow> thread_pool" where
  "EventLoopThreadPool_new base = \<lparr>etp_baseLoop = base, etp_started = False, etp_numThreads = 0,
     etp_next = 0, etp_loops = []\<rparr>"

definition EventLoopThreadPool_setThreadNum :: "int \<Rightarrow> thread_pool \<Rightarrow> thread_pool res" where
  "EventLoopThreadPool_setThreadNum n p = cpp_assert (0 \<le> n) (Inr (p\<lparr>etp_numThreads := n\<rparr>))"

text \<open>
  \<open>alloc i\<close> is the loop that the \<open>i\<close>-th started thread returns; the second component of the
  result lists the loops on which the initialisation callback was run.
\<close>

definition EventLoopThreadPool_start ::
  "bool \<Rightarrow> (nat \<Rightarrow> nat) \<Rightarrow> thread_pool \<Rightarrow> (thread_pool \<times> nat list) res" where
  "EventLoopThreadPool_start cb alloc p =
     cpp_assert (\<not> etp_started p)
       (let loops = map alloc [0..<nat (etp_numThreads p)];
            p1 = p\<lparr>etp_started := True, etp_loops := etp_loops p @ loops\<rparr> in
        Inr (p1, if cb then (if etp_numThreads p = 0 then [etp_baseLoop p] else loops) else []))"

definition EventLoopThreadPool_getNextLoop :: "thread_pool \<Rightarrow> (nat \<times> thread_pool) res" where
  "EventLoopThreadPool_getNextLoop p =
     (if etp_loops p \<noteq> []
      then if etp_next p < length (etp_loops p)
           then let loop = etp_loops p ! etp_next p; next1 = etp_next p + 1;
                    next2 = (if length (etp_loops p) \<le> next1 then 0 else next1) in
                Inr (loop, p\<lparr>etp_next := next2\<rparr>)
           else Inl OutOfBounds
      else Inr (etp_baseLoop p, p))"

primrec next_loops :: "nat \<Rightarrow> thread_pool \<Rightarrow> (nat list \<times> thread_pool) res" where
  "next_loops 0 p = Inr ([], p)"
| "next_loops (Suc k) p =
     bind_res (EventLoopThreadPool_getNextLoop p) (\<lambda>(l, p1).
       bind_res (next_loops k p1) (\<lambda>(ls, p2). Inr (l # ls, p2)))"

lemma getNextLoop_cycle:
  assumes "etp_loops p \<noteq> []" and "etp_next p = j mod length (etp_loops p)"
  shows "EventLoopThreadPool_getNextLoop p =
    Inr (etp_loops p ! (j mod length (etp_loops p)), p\<lparr>etp_next := Suc j mod length (etp_loops p)\<rparr>)"
proof -
  let ?n = "length (etp_loops p)"
  have "j mod ?n < ?n" using assms(1) by simp
  moreover have "(if ?n \<le> j mod ?n + 1 then 0 else j mod ?n + 1) = Suc j mod ?n"
    using calculation by (auto simp: mod_Suc)
  ultimately show ?thesis
    unfolding EventLoopThreadPool_getNextLoop_def Let_def assms(2)
    using assms(1) by (simp del: One_nat_def)
qed

lemma next_loops_cycle:
  "etp_loops p \<noteq> [] \<Longrightarrow> etp_next p = j mod length (etp_loops p) \<Longrightarrow>
   returns (next_loops k p) (\<lambda>(ls, p'). ls = map (\<lambda>i. etp_loops p ! ((j + i) mod length (etp_loops p))) [0..<k])"
proof (induction k arbitrary: p j)
  case 0
  then show ?case by simp
next
  case (Suc k)
  let ?p = "p\<lparr>etp_next := Suc j mod length (etp_loops p)\<rparr>"
  have "returns (next_loops k ?p) (\<lambda>(ls, p').
      ls = map (\<lambda>i. etp_loops p ! ((Suc j + i) mod length (etp_loops p))) [0..<k])"
    using Suc.IH [of ?p "Suc j"] Suc.prems by simp
  moreover have "map f [0..<Suc k] = f 0 # map (\<lambda>i. f (Suc i)) [0..<k]" for f :: "nat \<Rightarrow> nat"
    by (simp add: upt_conv_Cons map_Suc_upt [symmetric] comp_def del: upt_Suc)
  ultimately show ?case
    by (auto simp: getNextLoop_cycle [OF Suc.prems] returns_iff bind_res_eq_Inr simp del: upt_Suc)
qed

text \<open>
  Connections are dealt out to the loops in turn: after \<open>start\<close> with \<open>n\<close> threads the
  \<open>i\<close>-th call of \<open>getNextLoop\<close> answers loop \<open>i mod n\<close>, and the base loop when there is no
  thread; the initialisation callback has run once on every loop that can be answered.
\<close>

lemma round_robin:
  assumes "0 \<le> n"
  shows "returns (bind_res (EventLoopThreadPool_setThreadNum n (EventLoopThreadPool_new base))
      (EventLoopThreadPool_start True alloc)) (\<lambda>(p, inits).
    returns (next_loops k p) (\<lambda>(ls, p').
      ls = map (\<lambda>i. if n = 0 then base else alloc (i mod nat n)) [0..<k] \<and> set ls \<subseteq> set inits)
    \<and> length inits = (if n = 0 then 1 else nat n))"
proof (cases "n = 0")
  case True
  let ?p = "\<lparr>etp_baseLoop = base, etp_started = True, etp_numThreads = 0, etp_next = 0, etp_loops = []\<rparr>"
  have "next_loops k ?p = Inr (replicate k base, ?p)"
    by (induction k) (simp_all add: EventLoopThreadPool_getNextLoop_def)
  then show ?thesis
    using True by (simp add: EventLoopThreadPool_setThreadNum_def EventLoopThreadPool_start_def
        EventLoopThreadPool_new_def map_replicate_const set_replicate_conv_if)
next
  case False
  let ?loops = "map alloc [0..<nat n]"
  let ?p = "\<lparr>etp_baseLoop = base, etp_started = True, etp_numThreads = n, etp_next = 0, etp_loops = ?loops\<rparr>"
  have ne: "?loops \<noteq> []" "0 < nat n" using False assms by auto
  from next_loops_cycle [of ?p 0 k] ne have "returns (next_loops k ?p) (\<lambda>(ls, p').
      ls = map (\<lambda>i. alloc (i mod nat n)) [0..<k] \<and> set ls \<subseteq> alloc ` {0..<nat n})"
    by (auto elim!: returns_mono)
  then show ?thesis
    using False assms by (simp add: EventLoopThreadPool_setThreadNum_def EventLoopThreadPool_start_def
        EventLoopThreadPool_new_def Let_def)
qed

lemma round_robin_instance:
  "returns (bind_res (EventLoopThreadPool_setThreadNum 2 (EventLoopThreadPool_new 50))
      (EventLoopThreadPool_start True (\<lambda>i. 60 + i))) (\<lambda>(p, inits).
    returns (next_loops 5 p) (\<lambda>(ls, p'). ls = [60, 61, 60, 61, 60]))"
  by (rule returns_mono [OF round_robin [where k = 5]])
    (auto simp: upt_rec elim!: returns_mono)

end
