(* ===== verification/TcpServer.thy ===== *)
theory TcpServer
  imports Acceptor Connection_Life EventLoopThread
begin

text \<open>
  \<open>net/TcpServer.h\<close> and \<open>net/TcpServer.cpp\<close>. A \<open>srv_world\<close> is a server with what its
  operations touch: the connections that exist, at their addresses, the poller of every loop, the
  functors queued in the loops and the system calls. A thread is named by the loop it runs, so
  \<open>runInLoop\<close> is a direct call when the caller is that loop. Connections are shared: the map and
  the queued functors hold them, and the last one to let go deletes them.
\<close>

section \<open>State\<close>

text \<open>
  A functor queued in a loop, with the connection it is bound to: establish it, remove it from the
  map, destroy it through a \<open>shared_ptr\<close>, destroy it through a bare pointer, or what the
  connection itself has queued.
\<close>

datatype srv_functor =
  Establish nat | RemoveInLoop nat | Destroy nat | DestroyRaw nat | OnConnection nat conn_functor

fun functor_conn :: "srv_functor \<Rightarrow> nat" where
  "functor_conn (Establish a) = a"
| "functor_conn (RemoveInLoop a) = a"
| "functor_conn (Destroy a) = a"
| "functor_conn (DestroyRaw a) = a"
| "functor_conn (OnConnection a f) = a"

text \<open>Whether the functor is bound to a \<open>shared_ptr\<close>; \<open>sendInLoop\<close> is bound to \<open>this\<close>.\<close>

fun holds_conn :: "srv_functor \<Rightarrow> bool" where
  "holds_conn (DestroyRaw a) = False"
| "holds_conn (OnConnection a (SendInLoop m)) = False"
| "holds_conn f = True"

record srv_conn =
  sc_conn :: conn_world
  sc_callbacks :: callbacks

record tcp_server =
  ts_loop :: nat
  ts_name :: string
  ts_acceptor :: "unit acceptor_t"
  ts_acceptorAddr :: nat
  ts_threadPool :: thread_pool
  ts_started :: "32 atomic"
  ts_nextConnectionId :: int
  ts_connectionMap :: "(string \<times> nat) list"
  ts_connectionCallback :: "(conn_world \<Rightarrow> conn_world res) option"
  ts_messageCallback :: "(int \<Rightarrow> conn_world \<Rightarrow> conn_world res) option"
  ts_threadInit :: bool

record srv_world = tcp_server +
  sw_conns :: "nat \<Rightarrow> srv_conn option"
  sw_epoll :: "nat \<Rightarrow> epoll_t"
  sw_queue :: "(nat \<times> srv_functor) list"
  sw_spent :: "(nat \<times> nat) list"
  sw_sys :: "sys_call list"

text \<open>
  \<open>sw_spent\<close> are the references held by the functors a loop has run in its current round: they go
  when the round ends.
\<close>

section \<open>Shared connections\<close>

abbreviation conn_loop :: "conn_world \<Rightarrow> nat" where
  "conn_loop w \<equiv> TcpConnection_getLoop w"

abbreviation registered :: "srv_world \<Rightarrow> nat \<Rightarrow> bool" where
  "registered s a \<equiv> a \<in> snd ` set (ts_connectionMap s)"

definition owned :: "srv_world \<Rightarrow> nat \<Rightarrow> bool" where
  "owned s a \<longleftrightarrow> registered s a
     \<or> (\<exists>t\<in>set (sw_queue s). holds_conn (snd t) \<and> functor_conn (snd t) = a)
     \<or> a \<in> snd ` set (sw_spent s)"

text \<open>The last owner of a connection gives it up: its destructor runs.\<close>

definition release_conn :: "nat \<Rightarrow> srv_world \<Rightarrow> srv_world res" where
  "release_conn a s =
     (case sw_conns s a of
        None \<Rightarrow> Inl OutOfBounds
      | Some sc \<Rightarrow>
          bind_res (TcpConnection_delete ((sc_conn sc)\<lparr>cw_sys := sw_sys s\<rparr>)) (\<lambda>sys.
            Inr (s\<lparr>sw_conns := (sw_conns s)(a := None), sw_sys := sys\<rparr>)))"

text \<open>An owner that has just let go.\<close>

definition give_up :: "nat \<Rightarrow> srv_world \<Rightarrow> srv_world res" where
  "give_up a s = (if owned s a then Inr s else release_conn a s)"

definition queue_in :: "nat \<Rightarrow> srv_functor \<Rightarrow> srv_world \<Rightarrow> srv_world" where
  "queue_in loop f s = s\<lparr>sw_queue := sw_queue s @ [(loop, f)]\<rparr>"

section \<open>Removing a connection\<close>

definition TcpServer_removeConnectionInLoop :: "nat \<Rightarrow> srv_world \<Rightarrow> srv_world res" where
  "TcpServer_removeConnectionInLoop a s =
     (case sw_conns s a of
        None \<Rightarrow> Inl OutOfBounds
      | Some sc \<Rightarrow>
          let n = smap_count (ts_connectionMap s) (tc_name (sc_conn sc));
              s1 = s\<lparr>ts_connectionMap := smap_erase (tc_name (sc_conn sc)) (ts_connectionMap s)\<rparr> in
          cpp_assert (n = 1) (Inr (queue_in (conn_loop (sc_conn sc)) (Destroy a) s1)))"

text \<open>\<open>removeConnection\<close>, called by the thread \<open>caller\<close>, moves to the server's loop.\<close>

definition TcpServer_removeConnection :: "nat \<Rightarrow> nat \<Rightarrow> srv_world \<Rightarrow> srv_world res" where
  "TcpServer_removeConnection caller a s =
     (if caller = ts_loop s then TcpServer_removeConnectionInLoop a s
      else Inr (queue_in (ts_loop s) (RemoveInLoop a) s))"

section \<open>Running on a connection\<close>

text \<open>
  What a connection leaves behind, taken up in order: a call of the close callback goes to the
  server, a functor into the queue of the connection's loop.
\<close>

definition close_callback :: "conn_world \<Rightarrow> conn_world res" where
  "close_callback w = Inr (queue_functor CloseCallback w)"

definition take_up :: "nat \<Rightarrow> nat \<Rightarrow> nat \<Rightarrow> conn_functor \<Rightarrow> srv_world \<Rightarrow> srv_world res" where
  "take_up caller loop a f s =
     (if f = CloseCallback then TcpServer_removeConnection caller a s
      else Inr (queue_in loop (OnConnection a f) s))"

text \<open>
  An operation of the connection at \<open>a\<close> by the thread \<open>caller\<close>, with the poller of the
  connection's loop and the system calls.
\<close>

definition with_conn ::
  "nat \<Rightarrow> nat \<Rightarrow> (callbacks \<Rightarrow> conn_world \<Rightarrow> conn_world res) \<Rightarrow> srv_world \<Rightarrow> srv_world res" where
  "with_conn caller a f s =
     (case sw_conns s a of
        None \<Rightarrow> Inl OutOfBounds
      | Some sc \<Rightarrow>
          let l = conn_loop (sc_conn sc) in
          bind_res (f (sc_callbacks sc)
              ((sc_conn sc)\<lparr>cw_epoll := sw_epoll s l, cw_sys := sw_sys s, cw_queue := []\<rparr>)) (\<lambda>w.
            fold_res (take_up caller l a) (cw_queue w)
              (s\<lparr>sw_conns := (sw_conns s)(a \<mapsto> sc\<lparr>sc_conn := w\<rparr>),
                 sw_epoll := (sw_epoll s)(l := cw_epoll w), sw_sys := cw_sys w\<rparr>)))"

text \<open>A functor run by the loop \<open>l\<close>.\<close>

fun run_functor :: "nat \<Rightarrow> srv_functor \<Rightarrow> srv_world \<Rightarrow> srv_world res" where
  "run_functor l (Establish a) s = with_conn l a (\<lambda>cbs. TcpConnection_connectionEstablished cbs a) s"
| "run_functor l (RemoveInLoop a) s = TcpServer_removeConnectionInLoop a s"
| "run_functor l (Destroy a) s = with_conn l a TcpConnection_connectionDestroyed s"
| "run_functor l (DestroyRaw a) s = with_conn l a TcpConnection_connectionDestroyed s"
| "run_functor l (OnConnection a f) s = with_conn l a (\<lambda>cbs. run_conn_functor f) s"

text \<open>\<open>runInLoop\<close>, called by the server's own loop.\<close>

definition run_in :: "nat \<Rightarrow> srv_functor \<Rightarrow> srv_world \<Rightarrow> srv_world res" where
  "run_in loop f s = (if loop = ts_loop s then run_functor loop f s else Inr (queue_in loop f s))"

text \<open>A loop runs the oldest functor that was queued in it, and ends its round.\<close>

definition take_functor :: "nat \<times> srv_functor \<Rightarrow> srv_world \<Rightarrow> srv_world" where
  "take_functor t s = s\<lparr>sw_queue := remove1 t (sw_queue s),
     sw_spent := (if holds_conn (snd t) then (fst t, functor_conn (snd t)) # sw_spent s else sw_spent s)\<rparr>"

definition loop_runs :: "nat \<Rightarrow> srv_world \<Rightarrow> srv_world res" where
  "loop_runs l s =
     (case filter (\<lambda>t. fst t = l) (sw_queue s) of
        [] \<Rightarrow> Inr s
      | t # ts \<Rightarrow> run_functor l (snd t) (take_functor t s))"

definition round_ends :: "nat \<Rightarrow> srv_world \<Rightarrow> srv_world res" where
  "round_ends l s =
     fold_res (\<lambda>t s. give_up (snd t) (s\<lparr>sw_spent := remove1 t (sw_spent s)\<rparr>))
       (filter (\<lambda>t. fst t = l) (sw_spent s)) s"

section \<open>Operations\<close>

definition TcpServer_new ::
  "nat \<Rightarrow> int \<Rightarrow> sockaddr_in \<Rightarrow> string \<Rightarrow> nat \<Rightarrow> (nat \<Rightarrow> epoll_t) \<Rightarrow> srv_world" where
  "TcpServer_new loop listenFd addr name acAddr pollers =
     (let (ac, sys) = Acceptor_new loop listenFd addr [] in
      \<lparr>ts_loop = loop, ts_name = name,
       ts_acceptor = Acceptor_setNewConnectionCallback (Some ()) ac, ts_acceptorAddr = acAddr,
       ts_threadPool = EventLoopThreadPool_new loop, ts_started = Atomic_new,
       ts_nextConnectionId = 1, ts_connectionMap = [], ts_connectionCallback = None,
       ts_messageCallback = None, ts_threadInit = False,
       sw_conns = Map.empty, sw_epoll = pollers, sw_queue = [], sw_spent = [], sw_sys = sys\<rparr>)"

definition TcpServer_setThreadNumber :: "int \<Rightarrow> srv_world \<Rightarrow> srv_world res" where
  "TcpServer_setThreadNumber threadNumber s =
     cpp_assert (0 \<le> threadNumber)
       (bind_res (EventLoopThreadPool_setThreadNum threadNumber (ts_threadPool s)) (\<lambda>p.
         Inr (s\<lparr>ts_threadPool := p\<rparr>)))"

definition TcpServer_setConnectionCallback :: "(conn_world \<Rightarrow> conn_world res) option \<Rightarrow> srv_world \<Rightarrow> srv_world" where
  "TcpServer_setConnectionCallback cb s = s\<lparr>ts_connectionCallback := cb\<rparr>"

definition TcpServer_setMessageCallback ::
  "(int \<Rightarrow> conn_world \<Rightarrow> conn_world res) option \<Rightarrow> srv_world \<Rightarrow> srv_world" where
  "TcpServer_setMessageCallback cb s = s\<lparr>ts_messageCallback := cb\<rparr>"

definition TcpServer_setThreadInitCallback :: "bool \<Rightarrow> srv_world \<Rightarrow> srv_world" where
  "TcpServer_setThreadInitCallback cb s = s\<lparr>ts_threadInit := cb\<rparr>"

definition TcpServer_start :: "(nat \<Rightarrow> nat) \<Rightarrow> srv_world \<Rightarrow> srv_world res" where
  "TcpServer_start alloc s =
     (let (before, st) = Atomic_getAndSet 1 (ts_started s); s1 = s\<lparr>ts_started := st\<rparr> in
      if before = 0
      then bind_res (EventLoopThreadPool_start (ts_threadInit s1) alloc (ts_threadPool s1)) (\<lambda>(p, inits).
           bind_res (Acceptor_listen (ts_acceptorAddr s1) (ts_acceptor s1, sw_epoll s1 (ts_loop s1), sw_sys s1))
             (\<lambda>(ac, ep, sys).
               Inr (s1\<lparr>ts_threadPool := p, ts_acceptor := ac,
                       sw_epoll := (sw_epoll s1)(ts_loop s1 := ep), sw_sys := sys\<rparr>)))
      else Inr s1)"

definition connection_name :: "string \<Rightarrow> int \<Rightarrow> string" where
  "connection_name nm i = nm @ snprintf 32 (''#'' @ show_int i)"

definition no_callbacks :: callbacks where
  "no_callbacks = \<lparr>cb_connection = None, cb_message = None, cb_close = None\<rparr>"

lemmas callback_setters = no_callbacks_def TcpConnection_setConnectionCallback_def
  TcpConnection_setMessageCallback_def TcpConnection_setCloseCallback_def

text \<open>
  A new connection is allocated at \<open>a\<close>, its channel at \<open>chan\<close>; \<open>local\<close> is the answer of
  \<open>getsockname(2)\<close> and \<open>kern\<close> those of \<open>write(2)\<close>.
\<close>

definition TcpServer_newConnection ::
  "nat \<times> nat \<times> sockaddr_in option \<times> (nat \<Rightarrow> nat \<Rightarrow> write_answer) \<Rightarrow> socket_t \<Rightarrow> sockaddr_in
     \<Rightarrow> srv_world \<Rightarrow> srv_world res" where
  "TcpServer_newConnection env socket peerAddress s =
     (case env of (a, chan, local, kern) \<Rightarrow>
      let connectionName = connection_name (ts_name s) (ts_nextConnectionId s) in
      bind_res (int32_res (ts_nextConnectionId s + 1)) (\<lambda>next.
      bind_res (EventLoopThreadPool_getNextLoop (ts_threadPool s)) (\<lambda>(ioLoop, pool).
      bind_res (TcpConnection_new ioLoop connectionName socket chan (InternetAddress_getLocalAddress local)
                  peerAddress (sw_epoll s ioLoop) (sw_sys s) kern) (\<lambda>conn.
      let cbs = TcpConnection_setCloseCallback (Some close_callback)
                  (TcpConnection_setMessageCallback (ts_messageCallback s)
                    (TcpConnection_setConnectionCallback (ts_connectionCallback s) no_callbacks)) in
      run_in ioLoop (Establish a)
        (s\<lparr>ts_nextConnectionId := next, ts_threadPool := pool,
           ts_connectionMap := smap_put connectionName a (ts_connectionMap s),
           sw_conns := (sw_conns s)(a \<mapsto> \<lparr>sc_conn = conn, sc_callbacks = cbs\<rparr>),
           sw_sys := cw_sys conn\<rparr>)))))"

text \<open>An event on a connection, in its loop, and what any thread may ask of it.\<close>

definition TcpServer_event :: "nat \<Rightarrow> int + string \<Rightarrow> 32 word \<Rightarrow> srv_world \<Rightarrow> srv_world res" where
  "TcpServer_event a answer revents s =
     (case sw_conns s a of
        None \<Rightarrow> Inl OutOfBounds
      | Some sc \<Rightarrow> with_conn (conn_loop (sc_conn sc)) a (\<lambda>cbs. conn_event cbs answer revents) s)"

definition send_from :: "nat \<Rightarrow> nat \<Rightarrow> string \<Rightarrow> srv_world \<Rightarrow> srv_world res" where
  "send_from caller a m s = with_conn caller a (\<lambda>cbs w. TcpConnection_send (caller = conn_loop w) m w) s"

definition shutdown_from :: "nat \<Rightarrow> nat \<Rightarrow> srv_world \<Rightarrow> srv_world res" where
  "shutdown_from caller a s = with_conn caller a (\<lambda>cbs w. Inr (TcpConnection_shutdown (caller = conn_loop w) w)) s"

text \<open>
  The destructor: its body, then the members in reverse order of declaration, where the map is
  the last owner of the connections in it.
\<close>

definition TcpServer_delete :: "srv_world \<Rightarrow> srv_world res" where
  "TcpServer_delete s =
     bind_res (fold_res (\<lambda>(nm, a) s1.
         case sw_conns s1 a of
           None \<Rightarrow> Inl OutOfBounds
         | Some sc \<Rightarrow> run_in (conn_loop (sc_conn sc)) (DestroyRaw a) s1) (ts_connectionMap s) s) (\<lambda>s2.
     bind_res (fold_res (\<lambda>(nm, a) s1. give_up a (s1\<lparr>ts_connectionMap := smap_erase nm (ts_connectionMap s1)\<rparr>))
         (ts_connectionMap s2) s2) (\<lambda>s3.
     bind_res (Acceptor_delete (ts_acceptorAddr s3)
         (ts_acceptor s3, sw_epoll s3 (ts_loop s3), sw_sys s3)) (\<lambda>(ep, sys).
       Inr (s3\<lparr>sw_epoll := (sw_epoll s3)(ts_loop s3 := ep), sw_sys := sys\<rparr>))))"

section \<open>Starting\<close>

text \<open>
  \<open>start\<close> takes effect once: the first call starts the pool with the configured number of
  loops and makes the acceptor listen; calling it again, any number of times, changes nothing.
\<close>

lemma start_once:
  assumes "ts_started s = 0" and "\<not> etp_started (ts_threadPool s)"
    and "chan_synced (ts_acceptorAddr s) (ac_channel (ts_acceptor s)) (sw_epoll s (ts_loop s))"
  shows "returns (TcpServer_start alloc s) (\<lambda>s1.
    etp_started (ts_threadPool s1) \<and> ac_isListening (ts_acceptor s1)
    \<and> etp_loops (ts_threadPool s1) = etp_loops (ts_threadPool s) @ map alloc [0..<nat (etp_numThreads (ts_threadPool s))]
    \<and> sw_sys s1 = Socket_listen (ac_socket (ts_acceptor s)) (sw_sys s)
    \<and> fold_res (\<lambda>alloc. TcpServer_start alloc) allocs s1 = Inr s1)"
proof -
  obtain ch ep where "Channel_enableReading (ts_acceptorAddr s) (ac_channel (ts_acceptor s), sw_epoll s (ts_loop s)) = Inr (ch, ep)"
    using assms(3) by (simp add: Channel_enableReading_def Channel_update_eq) (metis surj_pair)
  then have "returns (TcpServer_start alloc s) (\<lambda>s1. ts_started s1 = 1
    \<and> etp_started (ts_threadPool s1) \<and> ac_isListening (ts_acceptor s1)
    \<and> etp_loops (ts_threadPool s1) = etp_loops (ts_threadPool s) @ map alloc [0..<nat (etp_numThreads (ts_threadPool s))]
    \<and> sw_sys s1 = Socket_listen (ac_socket (ts_acceptor s)) (sw_sys s))"
    using assms by (simp add: TcpServer_start_def Atomic_getAndSet_def EventLoopThreadPool_start_def
        Acceptor_listen_def Let_def)
  moreover have "fold_res (\<lambda>alloc. TcpServer_start alloc) allocs s1 = Inr s1" if "ts_started s1 = 1" for s1
  proof -
    have "TcpServer_start al s1 = Inr s1" for al
      using that by (cases s1) (simp add: TcpServer_start_def Atomic_getAndSet_def)
    then show ?thesis by (induction allocs) simp_all
  qed
  ultimately show ?thesis by (auto elim!: returns_mono)
qed

lemma new_acceptor_synced:
  assumes "Epoll_inv (pollers loop)" and "poller_entry (pollers loop) fd = (None, None)"
  shows "chan_synced a (ac_channel (ts_acceptor (TcpServer_new loop fd addr nm a pollers))) (pollers loop)"
  using assms
  by (simp add: TcpServer_new_def Acceptor_new_def Acceptor_setNewConnectionCallback_def Let_def Socket_of_def
      Acceptor_createNonblocking_def Channel_setReadCallback_def Channel_new_def chan_synced_def
      registered_as_def status_defs)

lemma start_once_instance:
  "returns (bind_res (TcpServer_setThreadNumber 2 (TcpServer_new 10 4 zero_address ''web'' 11 (\<lambda>_. Epoll_new)))
      (TcpServer_start (\<lambda>i. 20 + i))) (\<lambda>s1. etp_loops (ts_threadPool s1) = [20, 21]
        \<and> fold_res (\<lambda>alloc. TcpServer_start alloc) [id, id] s1 = Inr s1)"
proof -
  let ?s = "TcpServer_new 10 4 zero_address ''web'' 11 (\<lambda>_. Epoll_new)"
  let ?s1 = "?s\<lparr>ts_threadPool := (EventLoopThreadPool_new 10)\<lparr>etp_numThreads := 2\<rparr>\<rparr>"
  have "TcpServer_setThreadNumber 2 ?s = Inr ?s1"
    by (simp add: TcpServer_setThreadNumber_def EventLoopThreadPool_setThreadNum_def TcpServer_new_def split_beta)
  moreover have "returns (TcpServer_start (\<lambda>i. 20 + i) ?s1) (\<lambda>s1. etp_loops (ts_threadPool s1) = [20, 21]
        \<and> fold_res (\<lambda>alloc. TcpServer_start alloc) [id, id] s1 = Inr s1)"
  proof (rule returns_mono [OF start_once [where allocs = "[id, id]"]])
    have "poller_entry Epoll_new 4 = (None, None)" by (simp add: poller_entry_def Epoll_new_def smap_get_def)
    from new_acceptor_synced [of "\<lambda>_. Epoll_new", OF Epoll_new_inv this, of 11 10 zero_address "''web''"]
    show "chan_synced (ts_acceptorAddr ?s1) (ac_channel (ts_acceptor ?s1)) (sw_epoll ?s1 (ts_loop ?s1))"
      by (simp add: TcpServer_new_def split_beta)
  qed (auto simp: TcpServer_new_def Atomic_new_def EventLoopThreadPool_new_def split_beta upt_rec numeral_2_eq_2)
  ultimately show ?thesis by simp
qed

section \<open>A small server\<close>

text \<open>A server whose pool has one loop of its own, as \<open>start\<close> leaves it.\<close>

definition demo_server :: "nat list \<Rightarrow> srv_world" where
  "demo_server loops =
     (TcpServer_new 10 4 zero_address ''web'' 11 (\<lambda>_. Epoll_new))
       \<lparr>ts_threadPool := \<lparr>etp_baseLoop = 10, etp_started = True, etp_numThreads = int (length loops),
          etp_next = 0, etp_loops = loops\<rparr>, ts_connectionCallback := Some Inr\<rparr>"

lemma demo_server_fields [simp]:
  "ts_loop (demo_server ls) = 10" "ts_connectionMap (demo_server ls) = []"
  "ts_nextConnectionId (demo_server ls) = 1" "ts_name (demo_server ls) = ''web''"
  "sw_conns (demo_server ls) = Map.empty" "sw_queue (demo_server ls) = []" "sw_spent (demo_server ls) = []"
  "ts_connectionCallback (demo_server ls) = Some Inr" "sw_epoll (demo_server ls) = (\<lambda>_. Epoll_new)"
  "ts_threadPool (demo_server ls) = \<lparr>etp_baseLoop = 10, etp_started = True,
     etp_numThreads = int (length ls), etp_next = 0, etp_loops = ls\<rparr>"
  by (simp_all add: demo_server_def TcpServer_new_def split_beta)

lemma demo_names: "connection_name ''web'' 1 = ''web#1''" "connection_name ''web'' 2 = ''web#2''"
  by code_simp+

section \<open>Destruction\<close>

text \<open>
  A server whose connections live in other loops cannot be destroyed: the destruction of a
  connection is only queued, with a bare pointer, and the map, its last owner, then deletes a
  connection that is not disconnected.
\<close>

lemma TcpServer_delete_threaded:
  assumes "ts_connectionMap s = [(nm, a)]" and "\<not> owned (s\<lparr>ts_connectionMap := []\<rparr>) a"
    and "sw_conns s a = Some sc"
    and "conn_loop (sc_conn sc) \<noteq> ts_loop s" and "tc_state (sc_conn sc) \<noteq> kDisconnected"
  shows "TcpServer_delete s = Inl AssertFailed"
proof -
  have erase: "smap_erase nm [(nm, a)] = []" by (simp add: smap_erase_def)
  show ?thesis
    using assms
    by (auto simp: TcpServer_delete_def run_in_def queue_in_def give_up_def owned_def release_conn_def
        TcpConnection_delete_def erase)
qed

end
