(* ===== verification/Server_Registry.thy ===== *)
theory Server_Registry
  imports TcpServer
begin

text \<open>
  The connections of a server (\<open>net/TcpServer.cpp\<close>) while connections arrive, have events, are
  used by any thread, close, and while the loops run what was queued in them, in any order. The
  invariant says who holds a connection, what may be queued about it, and that its channel agrees
  with the poller of its loop.
\<close>

section \<open>What happens to a server\<close>

datatype srv_op =
    NewConnection "nat \<times> nat \<times> sockaddr_in option \<times> (nat \<Rightarrow> nat \<Rightarrow> write_answer)" socket_t sockaddr_in
  | ConnEvent nat "int + string" "32 word"
  | SendFrom nat nat string
  | ShutdownFrom nat nat
  | LoopRuns nat
  | RoundEnds nat

fun srv_do :: "srv_op \<Rightarrow> srv_world \<Rightarrow> srv_world res" where
  "srv_do (NewConnection env sock peer) s = TcpServer_newConnection env sock peer s"
| "srv_do (ConnEvent a answer revents) s = TcpServer_event a answer revents s"
| "srv_do (SendFrom caller a m) s = send_from caller a m s"
| "srv_do (ShutdownFrom caller a) s = shutdown_from caller a s"
| "srv_do (LoopRuns l) s = loop_runs l s"
| "srv_do (RoundEnds l) s = round_ends l s"

text \<open>The allocator and the kernel hand out addresses and descriptors that are not in use.\<close>

fun admissible :: "srv_op \<Rightarrow> srv_world \<Rightarrow> bool" where
  "admissible (NewConnection env sock peer) s \<longleftrightarrow> sw_conns s (fst env) = None
     \<and> (\<forall>b sc. sw_conns s b = Some sc \<longrightarrow> ch_fd (tc_channel (sc_conn sc)) \<noteq> sockfd sock)
     \<and> (\<forall>l. poller_entry (sw_epoll s l) (sockfd sock) = (None, None))"
| "admissible x s \<longleftrightarrow> True"

fun admissible_run :: "srv_op list \<Rightarrow> srv_world \<Rightarrow> bool" where
  "admissible_run [] s \<longleftrightarrow> True"
| "admissible_run (x # xs) s \<longleftrightarrow> admissible x s
     \<and> (case srv_do x s of Inl e \<Rightarrow> True | Inr s' \<Rightarrow> admissible_run xs s')"

section \<open>Invariant\<close>

text \<open>
  Every entry of the map is a live connection filed under its own name, and the names are those
  of numbers already given out.
\<close>

definition srv_inv :: "srv_world \<Rightarrow> bool" where
  "srv_inv s \<longleftrightarrow> smap_inv (ts_connectionMap s) \<and> 1 \<le> ts_nextConnectionId s \<and> ts_nextConnectionId s < 2 ^ 31
     \<and> (\<forall>nm a. smap_get (ts_connectionMap s) nm = Some a \<longrightarrow>
          (\<exists>sc. sw_conns s a = Some sc \<and> tc_name (sc_conn sc) = nm)
          \<and> (\<exists>i. 1 \<le> i \<and> i < ts_nextConnectionId s \<and> nm = connection_name (ts_name s) i))"

text \<open>The callbacks that the server gives to a connection.\<close>

definition server_callbacks :: "srv_world \<Rightarrow> callbacks" where
  "server_callbacks s = \<lparr>cb_connection = ts_connectionCallback s, cb_message = ts_messageCallback s,
     cb_close = Some close_callback\<rparr>"

text \<open>A queued functor is about a live connection and in the right loop.\<close>

definition functor_ok :: "srv_world \<Rightarrow> nat \<times> srv_functor \<Rightarrow> bool" where
  "functor_ok s t \<longleftrightarrow> (\<exists>sc. sw_conns s (functor_conn (snd t)) = Some sc
     \<and> (case snd t of
          RemoveInLoop a \<Rightarrow> fst t = ts_loop s \<and> tc_state (sc_conn sc) = kDisconnected
        | DestroyRaw a \<Rightarrow> False
        | _ \<Rightarrow> fst t = conn_loop (sc_conn sc)))"

text \<open>
  A functor that does not hold its connection is safe: the connection is registered, or a functor
  behind it in the same loop holds it.
\<close>

fun safe_queue :: "(nat \<Rightarrow> bool) \<Rightarrow> (nat \<times> srv_functor) list \<Rightarrow> bool" where
  "safe_queue R [] \<longleftrightarrow> True"
| "safe_queue R (t # q) \<longleftrightarrow> safe_queue R q
     \<and> (holds_conn (snd t) \<or> R (functor_conn (snd t)) \<or> (fst t, Destroy (functor_conn (snd t))) \<in> set q)"

definition conn_ok :: "srv_world \<Rightarrow> nat \<Rightarrow> srv_conn \<Rightarrow> bool" where
  "conn_ok s a sc \<longleftrightarrow> respectful (sc_callbacks sc)
     \<and> chan_synced (tc_channelAddr (sc_conn sc)) (tc_channel (sc_conn sc)) (sw_epoll s (conn_loop (sc_conn sc)))
     \<and> (registered s a \<or> tc_state (sc_conn sc) = kDisconnected)
     \<and> (\<exists>i. 1 \<le> i \<and> i < ts_nextConnectionId s \<and> tc_name (sc_conn sc) = connection_name (ts_name s) i)"

text \<open>The key of a connection in the pollers: its loop and its descriptor.\<close>

definition conn_key :: "srv_conn \<Rightarrow> nat \<times> int" where
  "conn_key sc = (conn_loop (sc_conn sc), ch_fd (tc_channel (sc_conn sc)))"

definition server_inv :: "srv_world \<Rightarrow> bool" where
  "server_inv s \<longleftrightarrow> srv_inv s \<and> respectful (server_callbacks s) \<and> (\<forall>l. Epoll_inv (sw_epoll s l))
     \<and> (\<forall>a. sw_conns s a \<noteq> None \<longleftrightarrow> owned s a)
     \<and> (\<forall>a sc. sw_conns s a = Some sc \<longrightarrow> conn_ok s a sc)
     \<and> (\<forall>a b sc sd. sw_conns s a = Some sc \<longrightarrow> sw_conns s b = Some sd \<longrightarrow>
          conn_key sc = conn_key sd \<or> tc_name (sc_conn sc) = tc_name (sc_conn sd) \<longrightarrow> a = b)
     \<and> (\<forall>t\<in>set (sw_queue s). functor_ok s t) \<and> safe_queue (registered s) (sw_queue s)"

lemma server_invD:
  assumes "server_inv s"
  shows "srv_inv s" "respectful (server_callbacks s)" "Epoll_inv (sw_epoll s l)"
    "sw_conns s a \<noteq> None \<longleftrightarrow> owned s a" "sw_conns s a = Some sc \<Longrightarrow> conn_ok s a sc"
    "sw_conns s a = Some sc \<Longrightarrow> sw_conns s b = Some sd \<Longrightarrow> conn_key sc = conn_key sd \<or> tc_name (sc_conn sc) = tc_name (sc_conn sd) \<Longrightarrow> a = b"
    "t \<in> set (sw_queue s) \<Longrightarrow> functor_ok s t" "safe_queue (registered s) (sw_queue s)"
  using assms unfolding server_inv_def by blast+

section \<open>The queue\<close>

lemma safe_queue_snoc:
  assumes "safe_queue R q" and "holds_conn (snd t) \<or> R (functor_conn (snd t))"
  shows "safe_queue R (q @ [t])"
  using assms by (induction q) auto

lemma safe_queue_take:
  assumes "safe_queue R q" and "filter (\<lambda>u. fst u = l) q = t # ts"
  shows "safe_queue R (remove1 t q)
    \<and> (holds_conn (snd t) \<or> R (functor_conn (snd t)) \<or> (l, Destroy (functor_conn (snd t))) \<in> set (remove1 t q))"
  using assms
proof (induction q)
  case Nil
  then show ?case by simp
next
  case (Cons u q)
  show ?case
  proof (cases "fst u = l")
    case True
    with Cons.prems show ?thesis by auto
  next
    case False
    with Cons.prems have t: "filter (\<lambda>u. fst u = l) q = t # ts" by simp
    then have "t \<in> set (filter (\<lambda>u. fst u = l) q)" by simp
    then have "fst t = l" by simp
    with False have "u \<noteq> t" "(fst u, Destroy a) \<noteq> t" for a by auto
    with Cons.IH [OF _ t] Cons.prems(1) show ?thesis by (auto simp: in_set_remove1)
  qed
qed

text \<open>When a connection leaves the map its destruction goes to the end of its loop's queue.\<close>

lemma safe_queue_unregister:
  assumes "safe_queue R q" and "\<And>b. R b \<Longrightarrow> R' b \<or> b = a"
    and "\<And>t. t \<in> set q \<Longrightarrow> functor_conn (snd t) = a \<Longrightarrow> holds_conn (snd t) \<or> fst t = l"
  shows "safe_queue R' (q @ [(l, Destroy a)])"
  using assms
proof (induction q)
  case Nil
  then show ?case by simp
next
  case (Cons t q)
  from Cons.IH Cons.prems have "safe_queue R' (q @ [(l, Destroy a)])" by simp
  moreover from Cons.prems(1) have "holds_conn (snd t) \<or> R (functor_conn (snd t))
      \<or> (fst t, Destroy (functor_conn (snd t))) \<in> set q" by simp
  moreover have "holds_conn (snd t) \<or> R' (functor_conn (snd t)) \<or> (fst t, Destroy (functor_conn (snd t))) = (l, Destroy a)"
    if "R (functor_conn (snd t))"
    using Cons.prems(2) [OF that] Cons.prems(3) [of t] by auto
  ultimately show ?case by auto
qed

lemma safe_queue_cong: "(\<And>a. R a \<Longrightarrow> R' a) \<Longrightarrow> safe_queue R q \<Longrightarrow> safe_queue R' q"
  by (induction q) auto

lemma safe_functor_owned:
  assumes "safe_queue (registered s) (sw_queue s)" and "t \<in> set (sw_queue s)"
  shows "owned s (functor_conn (snd t))"
proof -
  have "holds_conn (snd t) \<or> R (functor_conn (snd t)) \<or> (fst t, Destroy (functor_conn (snd t))) \<in> set q"
    if "safe_queue R q" "t \<in> set q" for R q
    using that by (induction q) auto
  from this [OF assms] show ?thesis
    unfolding owned_def using assms(2) by (metis functor_conn.simps(3) holds_conn.simps(5) snd_conv)
qed

lemma owned_queue_in: "owned (queue_in l f s) a \<longleftrightarrow> owned s a \<or> (holds_conn f \<and> functor_conn f = a)"
  by (auto simp: owned_def queue_in_def)

lemma queue_in_inv:
  assumes inv: "server_inv s" and "functor_ok s (l, f)" and "holds_conn f \<or> registered s (functor_conn f)"
  shows "server_inv (queue_in l f s)"
proof -
  let ?s = "queue_in l f s"
  have fields: "ts_connectionMap ?s = ts_connectionMap s" "sw_conns ?s = sw_conns s" "sw_epoll ?s = sw_epoll s"
    "ts_loop ?s = ts_loop s" "sw_queue ?s = sw_queue s @ [(l, f)]"
    by (simp_all add: queue_in_def)
  have "functor_ok ?s t = functor_ok s t" for t unfolding functor_ok_def fields ..
  moreover have "conn_ok ?s = conn_ok s" unfolding conn_ok_def fields by (simp add: queue_in_def)
  moreover have "srv_inv ?s = srv_inv s" by (simp add: srv_inv_def queue_in_def)
  moreover have "server_callbacks ?s = server_callbacks s" by (simp add: server_callbacks_def queue_in_def)
  moreover have "sw_conns s (functor_conn f) \<noteq> None" using assms(2) by (auto simp: functor_ok_def)
  ultimately show ?thesis
    using inv assms(2,3) unfolding server_inv_def fields owned_queue_in
    by (auto simp: safe_queue_snoc)
qed

section \<open>What an operation may change\<close>

text \<open>
  An operation that concerns the connections in \<open>A\<close> leaves the others and their pollers alone; no
  connection changes its identity and no name is given to another connection.
\<close>

definition effect_on :: "nat set \<Rightarrow> srv_world \<Rightarrow> srv_world \<Rightarrow> bool" where
  "effect_on A s s' \<longleftrightarrow> ts_loop s' = ts_loop s \<and> ts_name s' = ts_name s
     \<and> ts_nextConnectionId s' = ts_nextConnectionId s
     \<and> ts_connectionCallback s' = ts_connectionCallback s \<and> ts_messageCallback s' = ts_messageCallback s
     \<and> ts_threadPool s' = ts_threadPool s
     \<and> (\<forall>nm. smap_get (ts_connectionMap s') nm \<in> {None, smap_get (ts_connectionMap s) nm})
     \<and> (\<forall>b. b \<notin> A \<longrightarrow> sw_conns s' b = sw_conns s b)
     \<and> (\<forall>b sc'. sw_conns s' b = Some sc' \<longrightarrow> (\<exists>sc. sw_conns s b = Some sc \<and> conn_key sc' = conn_key sc
          \<and> same_identity (sc_conn sc) (sc_conn sc') \<and> advances (sc_conn sc) (sc_conn sc')))
     \<and> (\<forall>l fd. (\<forall>b\<in>A. \<forall>sc. sw_conns s b = Some sc \<longrightarrow> conn_key sc \<noteq> (l, fd)) \<longrightarrow>
          poller_entry (sw_epoll s' l) fd = poller_entry (sw_epoll s l) fd)"

lemma effect_on_refl: "effect_on A s s"
  by (simp add: effect_on_def same_identity_def)

lemma effect_on_trans:
  assumes "effect_on A s s'" and "effect_on A s' s''"
  shows "effect_on A s s''"
proof -
  have "\<exists>sc. sw_conns s b = Some sc \<and> conn_key sc'' = conn_key sc
      \<and> same_identity (sc_conn sc) (sc_conn sc'') \<and> advances (sc_conn sc) (sc_conn sc'')"
    if "sw_conns s'' b = Some sc''" for b sc''
  proof -
    from that assms(2) obtain sc' where "sw_conns s' b = Some sc'" "conn_key sc'' = conn_key sc'"
      "same_identity (sc_conn sc') (sc_conn sc'')" "advances (sc_conn sc') (sc_conn sc'')"
      unfolding effect_on_def by blast
    moreover from this(1) assms(1) obtain sc where "sw_conns s b = Some sc" "conn_key sc' = conn_key sc"
      "same_identity (sc_conn sc) (sc_conn sc')" "advances (sc_conn sc) (sc_conn sc')"
      unfolding effect_on_def by blast
    ultimately show ?thesis by (metis advances_trans same_identity_trans)
  qed
  moreover have "poller_entry (sw_epoll s'' l) fd = poller_entry (sw_epoll s l) fd"
    if no: "\<forall>b\<in>A. \<forall>sc. sw_conns s b = Some sc \<longrightarrow> conn_key sc \<noteq> (l, fd)" for l fd
  proof -
    have "\<forall>b\<in>A. \<forall>sc. sw_conns s' b = Some sc \<longrightarrow> conn_key sc \<noteq> (l, fd)"
      using no assms(1) unfolding effect_on_def by metis
    with assms(2) have "poller_entry (sw_epoll s'' l) fd = poller_entry (sw_epoll s' l) fd"
      unfolding effect_on_def by blast
    also have "\<dots> = poller_entry (sw_epoll s l) fd" using no assms(1) unfolding effect_on_def by blast
    finally show ?thesis .
  qed
  moreover have "smap_get (ts_connectionMap s'') nm \<in> {None, smap_get (ts_connectionMap s) nm}" for nm
  proof -
    have "smap_get (ts_connectionMap s'') nm \<in> {None, smap_get (ts_connectionMap s') nm}"
      "smap_get (ts_connectionMap s') nm \<in> {None, smap_get (ts_connectionMap s) nm}"
      using assms unfolding effect_on_def by blast+
    then show ?thesis by auto
  qed
  ultimately show ?thesis using assms unfolding effect_on_def by simp
qed

lemma queue_in_effect: "effect_on A s (queue_in l f s)"
  by (simp add: effect_on_def queue_in_def same_identity_def)

section \<open>Leaving the map\<close>

lemma registered_get: "smap_inv (ts_connectionMap s) \<Longrightarrow> registered s a \<longleftrightarrow> (\<exists>nm. smap_get (ts_connectionMap s) nm = Some a)"
  by (force simp: smap_get_def smap_inv_def strict_sorted_iff)

lemma registered_name:
  assumes "srv_inv s" and "sw_conns s a = Some sc"
  shows "registered s a \<longleftrightarrow> smap_get (ts_connectionMap s) (tc_name (sc_conn sc)) = Some a"
  using assms registered_get [of s a] unfolding srv_inv_def by (metis option.inject)

lemma registered_erase:
  assumes inv: "server_inv s" and a: "sw_conns s a = Some sc"
  shows "registered (s\<lparr>ts_connectionMap := smap_erase (tc_name (sc_conn sc)) (ts_connectionMap s)\<rparr>) b
    \<longleftrightarrow> registered s b \<and> b \<noteq> a"
proof -
  let ?nm = "tc_name (sc_conn sc)"
  have s: "srv_inv s" and m: "smap_inv (ts_connectionMap s)"
    using server_invD(1) [OF inv] by (auto simp: srv_inv_def)
  have "registered (s\<lparr>ts_connectionMap := smap_erase ?nm (ts_connectionMap s)\<rparr>) b
      \<longleftrightarrow> (\<exists>nm. nm \<noteq> ?nm \<and> smap_get (ts_connectionMap s) nm = Some b)"
    using registered_get [of "s\<lparr>ts_connectionMap := smap_erase ?nm (ts_connectionMap s)\<rparr>" b] smap.inv_erase [OF m]
    by (auto simp: smap_get_erase)
  also have "\<dots> \<longleftrightarrow> registered s b \<and> b \<noteq> a"
  proof (cases "registered s b")
    case True
    then obtain nm where nm: "smap_get (ts_connectionMap s) nm = Some b" using registered_get [OF m] by blast
    then obtain sd where sd: "sw_conns s b = Some sd" "tc_name (sc_conn sd) = nm"
      using s unfolding srv_inv_def by blast
    have "nm' = nm" if "smap_get (ts_connectionMap s) nm' = Some b" for nm'
      using that sd s unfolding srv_inv_def by (metis option.inject)
    moreover have "nm = ?nm \<longleftrightarrow> b = a" using server_invD(6) [OF inv sd(1) a] sd a by auto
    ultimately show ?thesis using nm True by blast
  next
    case False
    then show ?thesis using registered_get [OF m] by blast
  qed
  finally show ?thesis .
qed

lemma removeConnectionInLoop_inv:
  assumes inv: "server_inv s" and a: "sw_conns s a = Some sc" "tc_state (sc_conn sc) = kDisconnected"
    and ok: "TcpServer_removeConnectionInLoop a s = Inr s'"
  shows "server_inv s' \<and> effect_on A s s' \<and> sw_conns s' = sw_conns s \<and> sw_epoll s' = sw_epoll s \<and> sw_sys s' = sw_sys s"
proof -
  let ?nm = "tc_name (sc_conn sc)"
  let ?s = "s\<lparr>ts_connectionMap := smap_erase ?nm (ts_connectionMap s)\<rparr>"
  from ok a have s': "s' = queue_in (conn_loop (sc_conn sc)) (Destroy a) ?s"
    by (auto simp: TcpServer_removeConnectionInLoop_def smap_count_def Let_def split: if_splits)
  have fields: "ts_connectionMap s' = smap_erase ?nm (ts_connectionMap s)" "sw_conns s' = sw_conns s"
    "sw_epoll s' = sw_epoll s" "ts_loop s' = ts_loop s" "ts_name s' = ts_name s"
    "ts_nextConnectionId s' = ts_nextConnectionId s" "sw_sys s' = sw_sys s"
    "sw_queue s' = sw_queue s @ [(conn_loop (sc_conn sc), Destroy a)]" "sw_spent s' = sw_spent s"
    "server_callbacks s' = server_callbacks s"
    by (simp_all add: s' queue_in_def server_callbacks_def)
  have reg: "registered s' b \<longleftrightarrow> registered s b \<and> b \<noteq> a" for b
    using registered_erase [OF inv a(1), of b] by (simp add: s' queue_in_def)
  have s: "srv_inv s" by (rule server_invD(1) [OF inv])
  then have "srv_inv s'"
    by (auto simp: srv_inv_def fields smap.inv_erase smap_get_erase split: if_splits)
  moreover have "owned s' b \<longleftrightarrow> owned s b" for b
  proof (cases "b = a")
    case True
    have "owned s a" using server_invD(4) [OF inv] a(1) by blast
    moreover have "owned s' a" by (auto simp: owned_def fields)
    ultimately show ?thesis using True by simp
  next
    case False
    with reg [of b] show ?thesis unfolding owned_def fields(8,9) by auto
  qed
  moreover have "conn_ok s' b sd" if "sw_conns s b = Some sd" for b sd
    using server_invD(5) [OF inv that] that a reg [of b] unfolding conn_ok_def fields(3,5,6) by auto
  moreover have "functor_ok s' t" if "t \<in> set (sw_queue s @ [(conn_loop (sc_conn sc), Destroy a)])" for t
  proof (cases "t \<in> set (sw_queue s)")
    case True
    from server_invD(7) [OF inv True] show ?thesis unfolding functor_ok_def fields .
  next
    case False
    with that a(1) show ?thesis by (simp add: fields functor_ok_def)
  qed
  moreover have "safe_queue (registered s') (sw_queue s @ [(conn_loop (sc_conn sc), Destroy a)])"
  proof (rule safe_queue_unregister [OF server_invD(8) [OF inv]])
    show "registered s b \<Longrightarrow> registered s' b \<or> b = a" for b by (simp add: reg)
    show "holds_conn (snd t) \<or> fst t = conn_loop (sc_conn sc)"
      if "t \<in> set (sw_queue s)" "functor_conn (snd t) = a" for t
      using server_invD(7) [OF inv that(1)] that(2) a(1)
      by (cases "snd t") (auto simp: functor_ok_def)
  qed
  ultimately have "server_inv s'"
    using inv unfolding server_inv_def fields(2,3,8,10) by blast
  moreover have "effect_on A s s'"
    unfolding s' effect_on_def by (simp add: smap_get_erase same_identity_def queue_in_def)
  ultimately show ?thesis by (simp add: fields)
qed

text \<open>A close callback, run by the loop of a disconnected connection.\<close>

lemma removeConnection_inv:
  assumes inv: "server_inv s" and a: "sw_conns s a = Some sc" "tc_state (sc_conn sc) = kDisconnected"
    and ok: "TcpServer_removeConnection caller a s = Inr s'"
  shows "server_inv s' \<and> effect_on A s s' \<and> sw_conns s' = sw_conns s \<and> sw_epoll s' = sw_epoll s \<and> sw_sys s' = sw_sys s"
proof (cases "caller = ts_loop s")
  case True
  with ok show ?thesis
    using removeConnectionInLoop_inv [OF inv a, of s'] by (simp add: TcpServer_removeConnection_def)
next
  case False
  with ok have s': "s' = queue_in (ts_loop s) (RemoveInLoop a) s" by (simp add: TcpServer_removeConnection_def)
  have "functor_ok s (ts_loop s, RemoveInLoop a)" using a by (simp add: functor_ok_def)
  from queue_in_inv [OF inv this] show ?thesis
    unfolding s' using queue_in_effect by (simp add: queue_in_def)
qed

section \<open>Operations of one connection\<close>

lemma take_up_inv:
  assumes inv: "server_inv s" and a: "sw_conns s a = Some sc"
    and f: "f = CloseCallback \<longrightarrow> tc_state (sc_conn sc) = kDisconnected"
      "\<And>m. f = SendInLoop m \<Longrightarrow> tc_state (sc_conn sc) = kConnected"
    and ok: "take_up caller (conn_loop (sc_conn sc)) a f s = Inr s'"
  shows "server_inv s' \<and> effect_on A s s' \<and> sw_conns s' = sw_conns s"
proof (cases "f = CloseCallback")
  case True
  with ok f show ?thesis using removeConnection_inv [OF inv a, of caller s'] by (simp add: take_up_def)
next
  case False
  with ok have s': "s' = queue_in (conn_loop (sc_conn sc)) (OnConnection a f) s" by (simp add: take_up_def)
  have "functor_ok s (conn_loop (sc_conn sc), OnConnection a f)" using a by (simp add: functor_ok_def)
  moreover have "holds_conn (OnConnection a f) \<or> registered s (functor_conn (OnConnection a f))"
    using f(2) server_invD(5) [OF inv a] by (cases f) (auto simp: conn_ok_def)
  ultimately show ?thesis
    unfolding s' using queue_in_inv [OF inv] queue_in_effect by (simp add: queue_in_def)
qed

lemma take_up_all_inv:
  assumes "server_inv s" and "sw_conns s a = Some sc"
    and "CloseCallback \<in> set fs \<longrightarrow> tc_state (sc_conn sc) = kDisconnected"
    and "\<forall>m. SendInLoop m \<in> set fs \<longrightarrow> tc_state (sc_conn sc) = kConnected"
    and "fold_res (take_up caller (conn_loop (sc_conn sc)) a) fs s = Inr s'"
  shows "server_inv s' \<and> effect_on A s s' \<and> sw_conns s' = sw_conns s"
  using assms
proof (induction fs arbitrary: s)
  case Nil
  then show ?case by (simp add: effect_on_refl)
next
  case (Cons f fs)
  then obtain s1 where s1: "take_up caller (conn_loop (sc_conn sc)) a f s = Inr s1"
    "fold_res (take_up caller (conn_loop (sc_conn sc)) a) fs s1 = Inr s'"
    by (auto elim: bind_resE)
  have "server_inv s1 \<and> effect_on A s s1 \<and> sw_conns s1 = sw_conns s"
    using take_up_inv [OF Cons.prems(1,2) _ _ s1(1)] Cons.prems(3,4) by auto
  with Cons.IH [OF _ _ _ _ s1(2)] Cons.prems(2-4) show ?case
    by (metis effect_on_trans list.set_intros(2))
qed

text \<open>The connection after the operation, back in the server.\<close>

definition put_conn :: "nat \<Rightarrow> srv_conn \<Rightarrow> conn_world \<Rightarrow> srv_world \<Rightarrow> srv_world" where
  "put_conn a sc w s = s\<lparr>sw_conns := (sw_conns s)(a \<mapsto> sc\<lparr>sc_conn := w\<rparr>),
     sw_epoll := (sw_epoll s)(conn_loop (sc_conn sc) := cw_epoll w), sw_sys := cw_sys w\<rparr>"

definition taken_conn :: "srv_conn \<Rightarrow> srv_world \<Rightarrow> conn_world" where
  "taken_conn sc s = (sc_conn sc)\<lparr>cw_epoll := sw_epoll s (conn_loop (sc_conn sc)), cw_sys := sw_sys s, cw_queue := []\<rparr>"

lemma with_conn_put:
  assumes "sw_conns s a = Some sc"
  shows "with_conn caller a f s = bind_res (f (sc_callbacks sc) (taken_conn sc s)) (\<lambda>w.
    fold_res (take_up caller (conn_loop (sc_conn sc)) a) (cw_queue w) (put_conn a sc w s))"
  using assms by (simp add: with_conn_def put_conn_def taken_conn_def Let_def)

lemma put_conn_inv:
  assumes inv: "server_inv s" and a: "sw_conns s a = Some sc" and w: "conn_step (taken_conn sc s) w"
  shows "server_inv (put_conn a sc w s) \<and> effect_on {a} s (put_conn a sc w s)"
proof -
  let ?s = "put_conn a sc w s" and ?sc = "sc\<lparr>sc_conn := w\<rparr>" and ?l = "conn_loop (sc_conn sc)"
  have id: "tc_name w = tc_name (sc_conn sc)" "tc_channelAddr w = tc_channelAddr (sc_conn sc)"
    "ch_loop (tc_channel w) = ch_loop (tc_channel (sc_conn sc))" "ch_fd (tc_channel w) = ch_fd (tc_channel (sc_conn sc))"
    "advances (sc_conn sc) w" "same_identity (sc_conn sc) w"
    using w by (simp_all add: conn_step_def same_identity_def taken_conn_def advances_def)
  have loop: "conn_loop w = ?l" and key: "conn_key ?sc = conn_key sc"
    using id by (simp_all add: TcpConnection_getLoop_def conn_key_def)
  have fields: "ts_connectionMap ?s = ts_connectionMap s" "sw_conns ?s = (sw_conns s)(a \<mapsto> ?sc)"
    "sw_epoll ?s = (sw_epoll s)(?l := cw_epoll w)" "ts_loop ?s = ts_loop s" "sw_queue ?s = sw_queue s"
    "sw_spent ?s = sw_spent s" "ts_name ?s = ts_name s" "ts_nextConnectionId ?s = ts_nextConnectionId s"
    "server_callbacks ?s = server_callbacks s"
    by (simp_all add: put_conn_def server_callbacks_def)
  have ok: "conn_ok s a sc" by (rule server_invD(5) [OF inv a])
  then have synced: "chan_synced (tc_channelAddr w) (tc_channel w) (cw_epoll w)"
    and other: "fd \<noteq> ch_fd (tc_channel (sc_conn sc)) \<Longrightarrow> poller_entry (cw_epoll w) fd = poller_entry (sw_epoll s ?l) fd" for fd
    using w by (auto simp: conn_ok_def conn_step_def poller_frame_def taken_conn_def)
  have epoll: "Epoll_inv (cw_epoll w)" using synced by (simp add: chan_synced_def)
  have s: "srv_inv s" by (rule server_invD(1) [OF inv])
  then have "tc_name (sc_conn sc) = nm" if "smap_get (ts_connectionMap s) nm = Some a" for nm
    using that a unfolding srv_inv_def by (metis option.inject)
  with s have inv': "srv_inv ?s" using a id(1) by (auto simp: srv_inv_def fields)
  have "owned ?s = owned s" by (intro ext) (simp add: owned_def fields)
  then have live: "sw_conns ?s b \<noteq> None \<longleftrightarrow> owned ?s b" for b
    using server_invD(4) [OF inv] a by (simp add: fields) (metis option.distinct(1))
  have epoll': "Epoll_inv (sw_epoll ?s l)" for l using epoll server_invD(3) [OF inv] by (simp add: fields)
  have "conn_ok ?s b sd" if b: "sw_conns ?s b = Some sd" for b sd
  proof (cases "b = a")
    case True
    with b have sd: "sd = ?sc" by (simp add: fields)
    from ok id(5) have "registered s a \<or> tc_state w = kDisconnected"
      by (auto simp: conn_ok_def dest: advances_final)
    then show ?thesis using ok id(1) synced True by (simp add: conn_ok_def fields sd loop)
  next
    case False
    with b have sd: "sw_conns s b = Some sd" by (simp add: fields)
    then have "conn_key sd \<noteq> conn_key sc" using server_invD(6) [OF inv sd a] False by blast
    then have "conn_loop (sc_conn sd) = ?l \<Longrightarrow> ch_fd (tc_channel (sc_conn sd)) \<noteq> ch_fd (tc_channel (sc_conn sc))"
      by (simp add: conn_key_def)
    with server_invD(5) [OF inv sd] other epoll show ?thesis
      by (auto simp: conn_ok_def fields chan_synced_def)
  qed
  moreover have "functor_ok ?s t" if "t \<in> set (sw_queue s)" for t
    using server_invD(7) [OF inv that] a id(5) loop
    by (cases "snd t") (auto simp: functor_ok_def fields dest: advances_final)
  moreover have "b = c" if "sw_conns ?s b = Some sb" "sw_conns ?s c = Some sd"
    "conn_key sb = conn_key sd \<or> tc_name (sc_conn sb) = tc_name (sc_conn sd)" for b c sb sd
    using that server_invD(6) [OF inv] a key id(1) by (auto simp: fields split: if_splits)
  ultimately have "server_inv ?s"
    using inv inv' epoll' live unfolding server_inv_def fields(1,5,9) by blast
  moreover have "poller_entry (sw_epoll ?s l) fd = poller_entry (sw_epoll s l) fd"
    if "conn_key sc \<noteq> (l, fd)" for l fd
    using that other [of fd] by (auto simp: fields conn_key_def)
  moreover have "\<exists>sb. sw_conns s b = Some sb \<and> conn_key sd = conn_key sb
      \<and> same_identity (sc_conn sb) (sc_conn sd) \<and> advances (sc_conn sb) (sc_conn sd)"
    if "sw_conns ?s b = Some sd" for b sd
    using that a id(5,6) key by (cases "b = a") (auto simp: fields same_identity_def)
  moreover have "ts_connectionCallback ?s = ts_connectionCallback s" "ts_messageCallback ?s = ts_messageCallback s"
    "ts_threadPool ?s = ts_threadPool s"
    by (simp_all add: put_conn_def)
  ultimately show ?thesis using a unfolding effect_on_def fields(1,4,7,8) by (simp add: fields(2))
qed

lemma with_conn_inv:
  assumes inv: "server_inv s" and a: "sw_conns s a = Some sc"
    and step: "\<And>w w'. cw_queue w = [] \<Longrightarrow> f (sc_callbacks sc) w = Inr w' \<Longrightarrow> conn_step w w'"
    and ok: "with_conn caller a f s = Inr s'"
  shows "server_inv s' \<and> effect_on {a} s s'"
proof -
  from ok obtain w where w: "f (sc_callbacks sc) (taken_conn sc s) = Inr w"
    "fold_res (take_up caller (conn_loop (sc_conn sc)) a) (cw_queue w) (put_conn a sc w s) = Inr s'"
    unfolding with_conn_put [of s a sc, OF a] by (rule bind_resE)
  have st: "conn_step (taken_conn sc s) w" using step [OF _ w(1)] by (simp add: taken_conn_def)
  note put = put_conn_inv [OF inv a st]
  let ?sc = "sc\<lparr>sc_conn := w\<rparr>"
  have "conn_loop w = conn_loop (sc_conn sc)"
    using st by (simp add: conn_step_def same_identity_def taken_conn_def TcpConnection_getLoop_def)
  then have "fold_res (take_up caller (conn_loop (sc_conn ?sc)) a) (cw_queue w) (put_conn a sc w s) = Inr s'"
    using w(2) by simp
  moreover have "sw_conns (put_conn a sc w s) a = Some ?sc" by (simp add: put_conn_def)
  moreover have "CloseCallback \<in> set (cw_queue w) \<longrightarrow> tc_state (sc_conn ?sc) = kDisconnected"
    "\<forall>m. SendInLoop m \<in> set (cw_queue w) \<longrightarrow> tc_state (sc_conn ?sc) = kConnected"
    using st by (simp_all add: conn_step_def)
  ultimately have "server_inv s' \<and> effect_on {a} (put_conn a sc w s) s'"
    using take_up_all_inv [OF conjunct1 [OF put], of a ?sc "cw_queue w" caller s'] by blast
  with put show ?thesis by (blast intro: effect_on_trans)
qed

lemma with_conn_live: "with_conn caller a f s = Inr s' \<Longrightarrow> \<exists>sc. sw_conns s a = Some sc"
  by (auto simp: with_conn_def split: option.splits)

text \<open>Every operation that a thread or a loop performs on a connection.\<close>

lemma conn_callbacks_respectful: "server_inv s \<Longrightarrow> sw_conns s a = Some sc \<Longrightarrow> respectful (sc_callbacks sc)"
  using server_invD(5) by (auto simp: conn_ok_def)

lemma TcpServer_event_inv:
  assumes inv: "server_inv s" and ok: "TcpServer_event a answer revents s = Inr s'"
  shows "server_inv s' \<and> effect_on {a} s s'"
proof -
  from ok obtain sc where a: "sw_conns s a = Some sc"
    and w: "with_conn (conn_loop (sc_conn sc)) a (\<lambda>cbs. conn_event cbs answer revents) s = Inr s'"
    by (auto simp: TcpServer_event_def split: option.splits)
  show ?thesis
    using conn_callbacks_respectful [OF inv a] by (intro with_conn_inv [OF inv a _ w]) (blast intro: evolves_step world.event_R)
qed

lemma send_from_inv:
  assumes inv: "server_inv s" and ok: "send_from caller a m s = Inr s'"
  shows "server_inv s' \<and> effect_on {a} s s'"
proof -
  note w = ok [unfolded send_from_def]
  from with_conn_live [OF w] obtain sc where a: "sw_conns s a = Some sc" ..
  show ?thesis by (rule with_conn_inv [OF inv a _ w]) (rule send_step)
qed

lemma shutdown_from_inv:
  assumes inv: "server_inv s" and ok: "shutdown_from caller a s = Inr s'"
  shows "server_inv s' \<and> effect_on {a} s s'"
proof -
  note w = ok [unfolded shutdown_from_def]
  from with_conn_live [OF w] obtain sc where a: "sw_conns s a = Some sc" ..
  show ?thesis by (rule with_conn_inv [OF inv a _ w]) (auto intro: shutdown_step)
qed

lemma run_functor_inv:
  assumes inv: "server_inv s" and t: "functor_ok s (l, f)" and ok: "run_functor l f s = Inr s'"
  shows "server_inv s' \<and> effect_on {functor_conn f} s s'"
proof -
  from t obtain sc where a: "sw_conns s (functor_conn f) = Some sc" by (auto simp: functor_ok_def)
  note cbs = conn_callbacks_respectful [OF inv a]
  show ?thesis
  proof (cases f)
    case (Establish a)
    with ok cbs show ?thesis
      using with_conn_inv [OF inv, of a sc "\<lambda>cbs. TcpConnection_connectionEstablished cbs a" l s'] assms(2) a
      by (auto intro: evolves_step world.established_R)
  next
    case (RemoveInLoop b)
    with t a have "tc_state (sc_conn sc) = kDisconnected" by (simp add: functor_ok_def)
    with ok a RemoveInLoop show ?thesis using removeConnectionInLoop_inv [OF inv, of b sc s'] by simp
  next
    case (Destroy b)
    with ok cbs a show ?thesis
      using with_conn_inv [OF inv, of b sc TcpConnection_connectionDestroyed l s']
      by (auto intro: evolves_step world.destroyed_R)
  next
    case (DestroyRaw b)
    with t show ?thesis by (simp add: functor_ok_def)
  next
    case (OnConnection b g)
    with ok a show ?thesis
      using with_conn_inv [OF inv, of b sc "\<lambda>cbs. run_conn_functor g" l s'] by (auto intro: functor_step)
  qed
qed

section \<open>The rounds of a loop\<close>

lemma take_functor_inv:
  assumes inv: "server_inv s" and t: "filter (\<lambda>u. fst u = l) (sw_queue s) = t # ts"
  shows "server_inv (take_functor t s) \<and> functor_ok (take_functor t s) (l, snd t) \<and> effect_on A s (take_functor t s)"
proof -
  let ?s = "take_functor t s" and ?a = "functor_conn (snd t)"
  have "t \<in> set (filter (\<lambda>u. fst u = l) (sw_queue s))" using t by simp
  then have mem: "t \<in> set (sw_queue s)" and l: "fst t = l" by simp_all
  have fields: "ts_connectionMap ?s = ts_connectionMap s" "sw_conns ?s = sw_conns s" "sw_epoll ?s = sw_epoll s"
    "ts_loop ?s = ts_loop s" "sw_queue ?s = remove1 t (sw_queue s)" "ts_name ?s = ts_name s"
    "ts_nextConnectionId ?s = ts_nextConnectionId s" "server_callbacks ?s = server_callbacks s"
    by (simp_all add: take_functor_def server_callbacks_def)
  have q: "safe_queue (registered s) (remove1 t (sw_queue s))"
    using safe_queue_take [OF server_invD(8) [OF inv] t] by blast
  have ok: "functor_ok ?s = functor_ok s" unfolding functor_ok_def fields ..
  have "owned ?s b \<longleftrightarrow> owned s b" for b
  proof
    assume "owned s b"
    then consider "registered s b" | u where "u \<in> set (sw_queue s)" "holds_conn (snd u)" "functor_conn (snd u) = b"
      | "b \<in> snd ` set (sw_spent s)"
      by (auto simp: owned_def)
    then show "owned ?s b"
    proof cases
      case (2 u)
      then show ?thesis by (cases "u = t") (auto simp: owned_def take_functor_def intro!: bexI [of _ u])
    qed (auto simp: owned_def take_functor_def)
  next
    assume "owned ?s b"
    then consider "registered s b \<or> b \<in> snd ` set (sw_spent s)"
      | u where "u \<in> set (remove1 t (sw_queue s))" "holds_conn (snd u)" "functor_conn (snd u) = b"
      | "holds_conn (snd t)" "functor_conn (snd t) = b"
      by (auto simp: owned_def take_functor_def split: if_splits)
    then show "owned s b"
    proof cases
      case (2 u)
      from subsetD [OF set_remove1_subset 2(1)] 2(2,3) show ?thesis by (auto simp: owned_def intro!: bexI [of _ u])
    next
      case 3
      with mem show ?thesis by (auto simp: owned_def intro!: bexI [of _ t])
    qed (auto simp: owned_def)
  qed
  moreover have same: "srv_inv ?s = srv_inv s" "conn_ok ?s = conn_ok s" unfolding srv_inv_def conn_ok_def fields by (rule refl)+
  moreover have "functor_ok s u" if "u \<in> set (remove1 t (sw_queue s))" for u
    by (rule server_invD(7) [OF inv subsetD [OF set_remove1_subset that]])
  ultimately have "server_inv ?s"
    using inv q unfolding server_inv_def fields ok same by blast
  moreover have "functor_ok ?s (l, snd t)" using server_invD(7) [OF inv mem] l unfolding ok by (metis prod.collapse)
  moreover have "effect_on A s ?s" by (simp add: effect_on_def take_functor_def same_identity_def)
  ultimately show ?thesis by simp
qed

text \<open>
  A reference goes. If it was the last one the connection is deleted: nothing in the queue is about
  it any more.
\<close>

lemma drop_spent:
  assumes inv: "server_inv s"
  shows "owned s b \<longleftrightarrow> owned (s\<lparr>sw_spent := remove1 t (sw_spent s)\<rparr>) b \<or> (b = snd t \<and> t \<in> set (sw_spent s))"
proof -
  have "b \<in> snd ` set (sw_spent s) \<longleftrightarrow> b \<in> snd ` set (remove1 t (sw_spent s)) \<or> (b = snd t \<and> t \<in> set (sw_spent s))"
    (is "?l \<longleftrightarrow> ?r")
  proof
    assume ?l
    then obtain u where "u \<in> set (sw_spent s)" "b = snd u" by auto
    then show ?r by (cases "u = t") auto
  next
    assume ?r
    with set_remove1_subset [of t "sw_spent s"] show ?l by auto
  qed
  then show ?thesis by (auto simp: owned_def)
qed

lemma give_up_inv:
  assumes inv: "server_inv s" and a: "snd t \<in> A"
    and ok: "give_up (snd t) (s\<lparr>sw_spent := remove1 t (sw_spent s)\<rparr>) = Inr s'"
  shows "server_inv s' \<and> effect_on A s s' \<and> sw_queue s' = sw_queue s"
proof -
  let ?s = "s\<lparr>sw_spent := remove1 t (sw_spent s)\<rparr>" and ?a = "snd t"
  have fields: "ts_connectionMap ?s = ts_connectionMap s" "sw_conns ?s = sw_conns s" "sw_epoll ?s = sw_epoll s"
    "ts_loop ?s = ts_loop s" "sw_queue ?s = sw_queue s" "ts_name ?s = ts_name s"
    "ts_nextConnectionId ?s = ts_nextConnectionId s" "server_callbacks ?s = server_callbacks s"
    by (simp_all add: server_callbacks_def)
  note own = drop_spent [OF inv, of _ t]
  have same: "srv_inv ?s = srv_inv s" "conn_ok ?s = conn_ok s" "functor_ok ?s = functor_ok s"
    unfolding srv_inv_def conn_ok_def functor_ok_def fields by (rule refl)+
  show ?thesis
  proof (cases "owned ?s ?a")
    case True
    with ok have s': "s' = ?s" by (simp add: give_up_def)
    have "owned ?s b \<longleftrightarrow> owned s b" for b using own [of b] True by auto
    then have "server_inv ?s" using inv unfolding server_inv_def fields same by blast
    then show ?thesis unfolding s' by (simp add: effect_on_def same_identity_def)
  next
    case False
    with ok obtain sc sys where sc: "sw_conns s ?a = Some sc"
      and s': "s' = ?s\<lparr>sw_conns := (sw_conns s)(?a := None), sw_sys := sys\<rparr>"
      by (auto simp: give_up_def release_conn_def bind_res_eq_Inr split: option.splits)
    have f': "ts_connectionMap s' = ts_connectionMap s" "sw_conns s' = (sw_conns s)(?a := None)"
      "sw_epoll s' = sw_epoll s" "ts_loop s' = ts_loop s" "sw_queue s' = sw_queue s" "ts_name s' = ts_name s"
      "ts_nextConnectionId s' = ts_nextConnectionId s" "server_callbacks s' = server_callbacks s"
      "sw_spent s' = remove1 t (sw_spent s)"
      by (simp_all add: s' server_callbacks_def)
    have own': "owned s' b \<longleftrightarrow> owned ?s b" for b unfolding owned_def f' by simp
    have live: "sw_conns s' b \<noteq> None \<longleftrightarrow> owned s' b" for b
      using own [of b] own' [of b] server_invD(4) [OF inv, of b] False unfolding f'(2) by auto
    have unregistered: "\<not> registered s ?a" using False by (auto simp: owned_def)
    have "srv_inv s'"
      using server_invD(1) [OF inv] unregistered registered_get [of s ?a]
      unfolding srv_inv_def f' by auto
    moreover have "conn_ok s' b sd" if "sw_conns s' b = Some sd" for b sd
      using server_invD(5) [OF inv, of b sd] that unfolding conn_ok_def f' by (auto split: if_splits)
    moreover have "functor_ok s' u" if u: "u \<in> set (sw_queue s)" for u
    proof -
      have "owned ?s (functor_conn (snd u))"
        using safe_functor_owned [of ?s u] server_invD(8) [OF inv] u by simp
      with False have "functor_conn (snd u) \<noteq> ?a" by metis
      with server_invD(7) [OF inv u] show ?thesis unfolding functor_ok_def f' by simp
    qed
    moreover have "b = c" if "sw_conns s' b = Some sb" "sw_conns s' c = Some sd"
      "conn_key sb = conn_key sd \<or> tc_name (sc_conn sb) = tc_name (sc_conn sd)" for b c sb sd
      using that server_invD(6) [OF inv, of b sb c sd] by (auto simp: f' split: if_splits)
    moreover have "safe_queue (registered s') (sw_queue s)"
      using server_invD(8) [OF inv] unfolding f' .
    ultimately have "server_inv s'" using inv live unfolding server_inv_def f'(3,5,8) by blast
    moreover have "effect_on A s s'" using a by (simp add: effect_on_def same_identity_def s')
    ultimately show ?thesis by (simp add: f')
  qed
qed

lemma round_ends_inv:
  assumes inv: "server_inv s" and ok: "round_ends l s = Inr s'"
  shows "server_inv s' \<and> effect_on {a. (l, a) \<in> set (sw_spent s)} s s'"
proof -
  let ?A = "{a. (l, a) \<in> set (sw_spent s)}"
  have "server_inv u' \<and> effect_on ?A u u'"
    if "fold_res (\<lambda>t s. give_up (snd t) (s\<lparr>sw_spent := remove1 t (sw_spent s)\<rparr>)) ts u = Inr u'"
      "set ts \<subseteq> {t. fst t = l \<and> t \<in> set (sw_spent s)}" "server_inv u" for ts u u'
    using that
  proof (induction ts arbitrary: u)
    case Nil
    then show ?case by (simp add: effect_on_refl)
  next
    case (Cons t ts)
    then obtain u1 where u1: "give_up (snd t) (u\<lparr>sw_spent := remove1 t (sw_spent u)\<rparr>) = Inr u1"
      "fold_res (\<lambda>t s. give_up (snd t) (s\<lparr>sw_spent := remove1 t (sw_spent s)\<rparr>)) ts u1 = Inr u'"
      by (auto elim: bind_resE)
    have "snd t \<in> ?A" using Cons.prems(2) by auto
    from give_up_inv [OF Cons.prems(3) this u1(1)] Cons.IH [OF u1(2)] Cons.prems(2) show ?case
      by (auto intro: effect_on_trans)
  qed
  from this [OF ok [unfolded round_ends_def] _ inv] show ?thesis by auto
qed

lemma loop_runs_inv:
  assumes inv: "server_inv s" and ok: "loop_runs l s = Inr s'"
  shows "server_inv s' \<and> effect_on {a. \<exists>t ts. filter (\<lambda>t. fst t = l) (sw_queue s) = t # ts \<and> a = functor_conn (snd t)} s s'"
proof (cases "filter (\<lambda>t. fst t = l) (sw_queue s)")
  case Nil
  with ok inv show ?thesis by (simp add: loop_runs_def effect_on_refl)
next
  case (Cons t ts)
  with ok have run: "run_functor l (snd t) (take_functor t s) = Inr s'" by (simp add: loop_runs_def)
  have eq: "{a. \<exists>t' ts'. filter (\<lambda>t. fst t = l) (sw_queue s) = t' # ts' \<and> a = functor_conn (snd t')} = {functor_conn (snd t)}"
    using Cons by auto
  from take_functor_inv [OF inv Cons, of "{functor_conn (snd t)}"]
  have "server_inv (take_functor t s)" "functor_ok (take_functor t s) (l, snd t)"
    "effect_on {functor_conn (snd t)} s (take_functor t s)" by blast+
  with run_functor_inv [OF this(1,2) run] show ?thesis unfolding eq by (blast intro: effect_on_trans)
qed

section \<open>Arrivals\<close>

lemma length_show_int:
  assumes "0 \<le> i" and "i < 2 ^ 31"
  shows "length (show_int i) \<le> 10"
proof -
  have "nat i < 10 ^ 10" using assms by (simp add: nat_less_iff)
  from length_dec_le [OF this] assms show ?thesis by (simp add: show_int_def)
qed

lemma connection_name_inject:
  assumes "0 \<le> i" "i < 2 ^ 31" "0 \<le> j" "j < 2 ^ 31"
  shows "connection_name nm i = connection_name nm j \<longleftrightarrow> i = j"
  using assms length_show_int [of i] length_show_int [of j]
  by (auto simp: connection_name_def snprintf_fits show_int_def dec_inject)

lemmas channel_wiring = TcpConnection_channel_def Channel_setErrorCallback_def Channel_setCloseCallback_def
  Channel_setWriteCallback_def Channel_setReadCallback_def Channel_new_def

lemma TcpConnection_new_ok:
  assumes "Epoll_inv ep" and "poller_entry ep (sockfd sock) = (None, None)"
  shows "returns (TcpConnection_new loop nm sock chan la pa ep sys kern) (\<lambda>w. tc_state w = kConnecting
    \<and> tc_name w = nm \<and> wired (tc_channel w) \<and> ch_loop (tc_channel w) = loop \<and> Buffer_inv (tc_inputBuffer w)
    \<and> chan_synced (tc_channelAddr w) (tc_channel w) ep \<and> cw_epoll w = ep
    \<and> ch_revents (tc_channel w) = 0)"
  using assms Buffer_new_ok
  by (auto simp: Buffer_new_eq TcpConnection_new_def wired_def channel_wiring chan_synced_def
      registered_as_def status_defs)

text \<open>The server when a connection has been made and entered in the map, before it is established.\<close>

definition entered :: "nat \<Rightarrow> nat \<Rightarrow> thread_pool \<Rightarrow> conn_world \<Rightarrow> srv_world \<Rightarrow> srv_world" where
  "entered l a pool conn s = s\<lparr>ts_nextConnectionId := ts_nextConnectionId s + 1, ts_threadPool := pool,
     ts_connectionMap := smap_put (connection_name (ts_name s) (ts_nextConnectionId s)) a (ts_connectionMap s),
     sw_conns := (sw_conns s)(a \<mapsto> \<lparr>sc_conn = conn, sc_callbacks = server_callbacks s\<rparr>), sw_sys := cw_sys conn\<rparr>"

lemma newConnection_enters:
  assumes "EventLoopThreadPool_getNextLoop (ts_threadPool s) = Inr (l, pool)"
    and "TcpConnection_new l (connection_name (ts_name s) (ts_nextConnectionId s)) sock chan
      (InternetAddress_getLocalAddress local) peer (sw_epoll s l) (sw_sys s) kern = Inr conn"
    and "1 \<le> ts_nextConnectionId s" and "ts_nextConnectionId s + 1 < 2 ^ 31"
  shows "TcpServer_newConnection (a, chan, local, kern) sock peer s = run_in l (Establish a) (entered l a pool conn s)"
  using assms
  by (simp add: TcpServer_newConnection_def callback_setters server_callbacks_def int32_res_def entered_def)

lemma entered_inv:
  assumes inv: "server_inv s" and adm: "admissible (NewConnection (a, env) sock peer) s"
    and new: "TcpConnection_new ioLoop (connection_name (ts_name s) (ts_nextConnectionId s)) sock chan
      (InternetAddress_getLocalAddress local) peer (sw_epoll s ioLoop) (sw_sys s) kern = Inr conn"
    and small: "ts_nextConnectionId s + 1 < 2 ^ 31"
  shows "server_inv (entered ioLoop a pool conn s) \<and> functor_ok (entered ioLoop a pool conn s) (ioLoop, Establish a)
    \<and> ch_fd (tc_channel conn) = sockfd sock
    \<and> (\<forall>b. registered (entered ioLoop a pool conn s) b \<longleftrightarrow> registered s b \<or> b = a)
    \<and> smap_get (ts_connectionMap s) (connection_name (ts_name s) (ts_nextConnectionId s)) = None"
proof -
  let ?nm = "connection_name (ts_name s) (ts_nextConnectionId s)"
  define sc where "sc = \<lparr>sc_conn = conn, sc_callbacks = server_callbacks s\<rparr>"
  define s1 where "s1 = entered ioLoop a pool conn s"
  from adm have fresh: "sw_conns s a = None"
    and fd: "\<And>b sc. sw_conns s b = Some sc \<Longrightarrow> ch_fd (tc_channel (sc_conn sc)) \<noteq> sockfd sock"
      "\<And>l. poller_entry (sw_epoll s l) (sockfd sock) = (None, None)"
    by auto
  have epoll: "Epoll_inv (sw_epoll s ioLoop)" by (rule server_invD(3) [OF inv])
  note made = TcpConnection_new_ok [OF epoll fd(2), of ioLoop ?nm chan "InternetAddress_getLocalAddress local"
      peer "sw_sys s" kern, unfolded new returns_Inr]
  have cfd: "ch_fd (tc_channel conn) = sockfd sock"
    using new by (auto simp: TcpConnection_new_def channel_wiring bind_res_eq_Inr)
  have f: "ts_connectionMap s1 = smap_put ?nm a (ts_connectionMap s)" "sw_conns s1 = (sw_conns s)(a \<mapsto> sc)"
    "sw_epoll s1 = sw_epoll s" "ts_loop s1 = ts_loop s" "sw_queue s1 = sw_queue s" "ts_name s1 = ts_name s"
    "ts_nextConnectionId s1 = ts_nextConnectionId s + 1" "server_callbacks s1 = server_callbacks s"
    "sw_spent s1 = sw_spent s"
    by (simp_all add: s1_def entered_def sc_def server_callbacks_def)
  have srv: "srv_inv s" by (rule server_invD(1) [OF inv])
  then have m: "smap_inv (ts_connectionMap s)" and pos: "1 \<le> ts_nextConnectionId s" by (simp_all add: srv_inv_def)
  have names: "tc_name (sc_conn sd) \<noteq> ?nm" if "sw_conns s b = Some sd" for b sd
    using server_invD(5) [OF inv that] connection_name_inject [of "ts_nextConnectionId s"] small pos
    by (auto simp: conn_ok_def)
  have none: "smap_get (ts_connectionMap s) ?nm = None"
    using srv names unfolding srv_inv_def by (metis not_Some_eq)
  have conn: "tc_name conn = ?nm" "conn_loop conn = ioLoop" "chan_synced (tc_channelAddr conn) (tc_channel conn) (sw_epoll s ioLoop)"
    using made by (simp_all add: TcpConnection_getLoop_def)
  have "smap_inv (ts_connectionMap s1)" using m by (simp add: f smap.inv_put)
  note m1 = this
  have reg: "registered s1 b \<longleftrightarrow> registered s b \<or> b = a" for b
  proof -
    have "registered s1 b \<longleftrightarrow> (\<exists>nm. smap_get (ts_connectionMap s1) nm = Some b)" by (rule registered_get [OF m1])
    also have "\<dots> \<longleftrightarrow> (\<exists>nm. smap_get (ts_connectionMap s) nm = Some b) \<or> b = a"
      (is "?l \<longleftrightarrow> ?r")
    proof
      assume ?l
      then obtain nm where "smap_get (ts_connectionMap s1) nm = Some b" ..
      then show ?r by (cases "nm = ?nm") (auto simp: f smap.look_put [OF m])
    next
      assume ?r
      then show ?l
      proof
        assume "\<exists>nm. smap_get (ts_connectionMap s) nm = Some b"
        then obtain nm where nm: "smap_get (ts_connectionMap s) nm = Some b" ..
        with none have "nm \<noteq> ?nm" by auto
        with nm show ?l by (auto simp: f smap.look_put [OF m] intro!: exI [of _ nm])
      qed (auto simp: f smap.look_put [OF m] intro!: exI [of _ ?nm])
    qed
    finally show ?thesis using registered_get [OF m, of b] by simp
  qed
  have "srv_inv s1"
    unfolding srv_inv_def
  proof (intro conjI allI impI)
    fix nm b assume "smap_get (ts_connectionMap s1) nm = Some b"
    then have "nm = ?nm \<and> b = a \<or> smap_get (ts_connectionMap s) nm = Some b"
      by (cases "nm = ?nm") (simp_all add: f(1) smap.look_put [OF m])
    then consider "nm = ?nm \<and> b = a" | "smap_get (ts_connectionMap s) nm = Some b" by (rule disjE)
    then have "(\<exists>sd. sw_conns s1 b = Some sd \<and> tc_name (sc_conn sd) = nm)
        \<and> (\<exists>i\<ge>1. i < ts_nextConnectionId s1 \<and> nm = connection_name (ts_name s1) i)"
    proof cases
      case 1
      then show ?thesis using conn pos by (auto simp: f sc_def intro!: exI [of _ "ts_nextConnectionId s"])
    next
      case 2
      then obtain sd i where "sw_conns s b = Some sd" "tc_name (sc_conn sd) = nm"
        "1 \<le> i" "i < ts_nextConnectionId s" "nm = connection_name (ts_name s) i"
        using srv unfolding srv_inv_def by blast
      then show ?thesis using fresh by (auto simp: f intro!: exI [of _ i])
    qed
    then show "\<exists>sd. sw_conns s1 b = Some sd \<and> tc_name (sc_conn sd) = nm"
      "\<exists>i\<ge>1. i < ts_nextConnectionId s1 \<and> nm = connection_name (ts_name s1) i" by blast+
  qed (use m pos small in \<open>simp_all add: f smap.inv_put\<close>)
  moreover have "sw_conns s1 b \<noteq> None \<longleftrightarrow> owned s1 b" for b
    using server_invD(4) [OF inv, of b] reg [of b] unfolding owned_def f(2,5,9) by (cases "b = a") auto
  moreover have "conn_ok s1 b sd" if "sw_conns s1 b = Some sd" for b sd
  proof (cases "b = a")
    case True
    with that have "sd = sc" by (simp add: f)
    with server_invD(2) [OF inv] conn pos show ?thesis
      using True reg [of a] unfolding conn_ok_def f(3,6,7) by (auto simp: sc_def intro!: exI [of _ "ts_nextConnectionId s"])
  next
    case False
    with that have "sw_conns s b = Some sd" by (simp add: f)
    from server_invD(5) [OF inv this] have old: "conn_ok s b sd" .
    then obtain i where "1 \<le> i" "i < ts_nextConnectionId s + 1"
      "tc_name (sc_conn sd) = connection_name (ts_name s) i" by (auto simp: conn_ok_def)
    with old reg [of b] show ?thesis unfolding conn_ok_def f(3,6,7) by blast
  qed
  moreover have "functor_ok s1 t" if "t \<in> set (sw_queue s)" for t
    using server_invD(7) [OF inv that] fresh unfolding functor_ok_def f(2,4) by auto
  moreover have "b = c" if "sw_conns s1 b = Some sb" "sw_conns s1 c = Some sd"
    "conn_key sb = conn_key sd \<or> tc_name (sc_conn sb) = tc_name (sc_conn sd)" for b c sb sd
  proof -
    have new: "conn_key se \<noteq> conn_key sc \<and> tc_name (sc_conn se) \<noteq> tc_name (sc_conn sc)"
      if "sw_conns s e = Some se" for e se
      using fd(1) [OF that] names [OF that] cfd conn(1) by (simp add: conn_key_def sc_def)
    show ?thesis
    proof (cases "b = a \<or> c = a")
      case True
      then show ?thesis
        using that new [of b sb] new [of c sd] by (cases "b = a"; cases "c = a") (simp_all add: f(2), metis+)
    next
      case False
      with that server_invD(6) [OF inv, of b sb c sd] show ?thesis by (simp add: f(2))
    qed
  qed
  moreover have "safe_queue (registered s1) (sw_queue s)"
    by (rule safe_queue_cong [OF _ server_invD(8) [OF inv]]) (simp add: reg)
  ultimately have inv1: "server_inv s1"
    using inv unfolding server_inv_def f(3,5,8) by blast
  have fok: "functor_ok s1 (ioLoop, Establish a)" using conn(2) by (simp add: functor_ok_def f sc_def)
  with cfd reg none show ?thesis using inv1 by (simp add: s1_def)
qed

lemma newConnection_effect:
  assumes inv: "server_inv s" and adm: "admissible (NewConnection (a, env) sock peer) s"
    and ok: "TcpServer_newConnection (a, env) sock peer s = Inr s'"
  obtains l pool conn where "EventLoopThreadPool_getNextLoop (ts_threadPool s) = Inr (l, pool)"
    and "ch_fd (tc_channel conn) = sockfd sock" and "server_inv s'" and "effect_on {a} (entered l a pool conn s) s'"
    and "smap_get (ts_connectionMap s) (connection_name (ts_name s) (ts_nextConnectionId s)) = None"
proof -
  let ?nm = "connection_name (ts_name s) (ts_nextConnectionId s)"
  obtain chan local kern where env: "env = (chan, local, kern)" by (cases env)
  from ok obtain l pool conn where run: "run_in l (Establish a) (entered l a pool conn s) = Inr s'"
    and next_loop: "EventLoopThreadPool_getNextLoop (ts_threadPool s) = Inr (l, pool)"
    and new: "TcpConnection_new l ?nm sock chan (InternetAddress_getLocalAddress local) peer
      (sw_epoll s l) (sw_sys s) kern = Inr conn"
    and small: "ts_nextConnectionId s + 1 < 2 ^ 31"
    by (auto simp: env TcpServer_newConnection_def callback_setters server_callbacks_def Let_def entered_def
        bind_res_eq_Inr int32_res_def split: if_splits)
  from entered_inv [OF inv adm new small, of pool] have u: "server_inv (entered l a pool conn s)"
    "functor_ok (entered l a pool conn s) (l, Establish a)" "ch_fd (tc_channel conn) = sockfd sock"
    "smap_get (ts_connectionMap s) ?nm = None" by blast+
  have "server_inv s' \<and> effect_on {a} (entered l a pool conn s) s'"
    using run run_functor_inv [OF u(1,2), of s'] queue_in_inv [OF u(1,2)] queue_in_effect
    by (auto simp: run_in_def split: if_splits)
  with next_loop u(3,4) that show thesis by blast
qed

text \<open>What an arrival leaves as it was.\<close>

lemma newConnection_others:
  assumes inv: "server_inv s" and adm: "admissible (NewConnection (a, env) sock peer) s"
    and ok: "TcpServer_newConnection (a, env) sock peer s = Inr s'"
  shows "(\<forall>b. b \<noteq> a \<longrightarrow> sw_conns s' b = sw_conns s b)
    \<and> (\<forall>sc. sw_conns s' a = Some sc \<longrightarrow> ch_fd (tc_channel (sc_conn sc)) = sockfd sock)
    \<and> (\<forall>l fd. fd \<noteq> sockfd sock \<longrightarrow> poller_entry (sw_epoll s' l) fd = poller_entry (sw_epoll s l) fd)"
proof -
  obtain l pool conn where c: "ch_fd (tc_channel conn) = sockfd sock" and eff: "effect_on {a} (entered l a pool conn s) s'"
    using newConnection_effect [OF inv adm ok] by blast
  let ?sc = "\<lparr>sc_conn = conn, sc_callbacks = server_callbacks s\<rparr>"
  have f: "sw_conns (entered l a pool conn s) = (sw_conns s)(a \<mapsto> ?sc)" "sw_epoll (entered l a pool conn s) = sw_epoll s"
    by (simp_all add: entered_def)
  have "sw_conns s' b = sw_conns s b" if "b \<noteq> a" for b using eff that unfolding effect_on_def f by simp
  moreover have "conn_key sc = conn_key ?sc" if "sw_conns s' a = Some sc" for sc
    using eff that unfolding effect_on_def f by (metis fun_upd_same option.inject)
  moreover have "poller_entry (sw_epoll s' k) fd = poller_entry (sw_epoll s k) fd" if "fd \<noteq> sockfd sock" for k fd
    using eff that c unfolding effect_on_def f by (simp add: conn_key_def)
  ultimately show ?thesis by (auto simp: conn_key_def c)
qed

lemma newConnection_inv:
  assumes inv: "server_inv s" and adm: "admissible (NewConnection (a, env) sock peer) s"
    and ok: "TcpServer_newConnection (a, env) sock peer s = Inr s'"
  shows "server_inv s' \<and> ts_nextConnectionId s' = ts_nextConnectionId s + 1 \<and> ts_name s' = ts_name s
    \<and> smap_get (ts_connectionMap s) (connection_name (ts_name s) (ts_nextConnectionId s)) = None
    \<and> (\<forall>nm. smap_get (ts_connectionMap s') nm \<in> {None, smap_get (smap_put
         (connection_name (ts_name s) (ts_nextConnectionId s)) a (ts_connectionMap s)) nm})
    \<and> (\<forall>b sc. b \<noteq> a \<longrightarrow> sw_conns s b = Some sc \<longrightarrow> sw_conns s' b = Some sc
         \<and> poller_entry (sw_epoll s' (conn_loop (sc_conn sc))) (ch_fd (tc_channel (sc_conn sc)))
           = poller_entry (sw_epoll s (conn_loop (sc_conn sc))) (ch_fd (tc_channel (sc_conn sc))))"
proof -
  let ?nm = "connection_name (ts_name s) (ts_nextConnectionId s)"
  obtain l pool conn where "server_inv s'" and eff: "effect_on {a} (entered l a pool conn s) s'"
    and none: "smap_get (ts_connectionMap s) ?nm = None"
    using newConnection_effect [OF inv adm ok] by blast
  have f: "ts_connectionMap (entered l a pool conn s) = smap_put ?nm a (ts_connectionMap s)"
    "ts_name (entered l a pool conn s) = ts_name s"
    "ts_nextConnectionId (entered l a pool conn s) = ts_nextConnectionId s + 1"
    by (simp_all add: entered_def)
  have "sw_conns s' b = Some sc \<and> poller_entry (sw_epoll s' (conn_loop (sc_conn sc))) (ch_fd (tc_channel (sc_conn sc)))
           = poller_entry (sw_epoll s (conn_loop (sc_conn sc))) (ch_fd (tc_channel (sc_conn sc)))"
    if "b \<noteq> a" "sw_conns s b = Some sc" for b sc
    using newConnection_others [OF inv adm ok] that adm by auto
  with \<open>server_inv s'\<close> eff none show ?thesis unfolding effect_on_def f by blast
qed

section \<open>A server that has not met a client\<close>

lemma close_callback_evolves: "tc_state w = kDisconnected \<Longrightarrow> close_callback w = Inr w' \<Longrightarrow> evolves w w'"
  by (auto simp: close_callback_def queue_functor_def evolves_def same_identity_def poller_frame_def advances_def)

lemma server_callbacks_respectful:
  assumes "\<And>f w w'. ts_connectionCallback s = Some f \<Longrightarrow> f w = Inr w' \<Longrightarrow> evolves w w'"
    and "\<And>f t w w'. ts_messageCallback s = Some f \<Longrightarrow> f t w = Inr w' \<Longrightarrow> evolves w w'"
  shows "respectful (server_callbacks s)"
  using assms close_callback_evolves by (auto simp: respectful_def server_callbacks_def)

lemma fresh_server_inv:
  assumes "ts_connectionMap s = []" and "sw_conns s = Map.empty" and "sw_queue s = []" and "sw_spent s = []"
    and "ts_nextConnectionId s = 1" and "\<And>l. Epoll_inv (sw_epoll s l)" and "respectful (server_callbacks s)"
  shows "server_inv s"
  using assms by (simp add: server_inv_def srv_inv_def smap_inv_def smap_get_def owned_def)

lemma demo_server_inv: "server_inv (demo_server ls)"
proof (rule fresh_server_inv)
  have "evolves w w" for w by (rule conn_frame_evolves) simp
  then show "respectful (server_callbacks (demo_server ls))"
    by (intro server_callbacks_respectful) (auto simp: demo_server_def TcpServer_new_def split_beta)
qed (auto simp: Epoll_new_inv)

section \<open>Any sequence of operations\<close>

text \<open>The connections an operation concerns.\<close>

fun touched :: "srv_op \<Rightarrow> srv_world \<Rightarrow> nat set" where
  "touched (NewConnection env sock peer) s = {fst env}"
| "touched (ConnEvent a answer revents) s = {a}"
| "touched (SendFrom caller a m) s = {a}"
| "touched (ShutdownFrom caller a) s = {a}"
| "touched (LoopRuns l) s = {a. \<exists>t ts. filter (\<lambda>t. fst t = l) (sw_queue s) = t # ts \<and> a = functor_conn (snd t)}"
| "touched (RoundEnds l) s = {a. (l, a) \<in> set (sw_spent s)}"

fun news :: "srv_op list \<Rightarrow> nat" where
  "news [] = 0"
| "news (NewConnection env sock peer # ops) = Suc (news ops)"
| "news (x # ops) = news ops"

lemma srv_do_effect:
  assumes "server_inv s" and "srv_do x s = Inr s'" and "\<And>env sock peer. x \<noteq> NewConnection env sock peer"
  shows "server_inv s' \<and> effect_on (touched x s) s s'"
proof (cases x)
  case (NewConnection env sock peer)
  with assms(3) show ?thesis by blast
next
  case (ConnEvent a answer revents)
  with assms(2) show ?thesis using TcpServer_event_inv [OF assms(1)] by simp
next
  case (SendFrom caller a m)
  with assms(2) show ?thesis using send_from_inv [OF assms(1)] by simp
next
  case (ShutdownFrom caller a)
  with assms(2) show ?thesis using shutdown_from_inv [OF assms(1)] by simp
next
  case (LoopRuns l)
  with assms(2) show ?thesis using loop_runs_inv [OF assms(1), of l s'] by simp
next
  case (RoundEnds l)
  with assms(2) show ?thesis using round_ends_inv [OF assms(1), of l s'] by simp
qed

lemma effect_on_other:
  assumes inv: "server_inv s" and eff: "effect_on A s s'" and b: "b \<notin> A" "sw_conns s b = Some sc"
  shows "sw_conns s' b = Some sc \<and> poller_entry (sw_epoll s' (conn_loop (sc_conn sc))) (ch_fd (tc_channel (sc_conn sc)))
           = poller_entry (sw_epoll s (conn_loop (sc_conn sc))) (ch_fd (tc_channel (sc_conn sc)))"
proof -
  have "conn_key sd \<noteq> (conn_loop (sc_conn sc), ch_fd (tc_channel (sc_conn sc)))" if "c \<in> A" "sw_conns s c = Some sd" for c sd
    using server_invD(6) [OF inv that(2) b(2)] that(1) b(1) by (auto simp: conn_key_def)
  with eff b show ?thesis unfolding effect_on_def by metis
qed

text \<open>
  C13. Connections are isolated: whatever happens to one connection of a server (an event, a send or
  a shutdown by any thread, a functor its loop runs, its arrival or its deletion) leaves the state
  of every other connection and its registration in the poller and the kernel as they were, also
  when both are served by the same loop.
\<close>

theorem connections_isolated:
  assumes "server_inv s" and "admissible x s" and "srv_do x s = Inr s'"
    and "sw_conns s b = Some sc" and "b \<notin> touched x s"
  shows "sw_conns s' b = Some sc \<and> server_inv s'
    \<and> poller_entry (sw_epoll s' (conn_loop (sc_conn sc))) (ch_fd (tc_channel (sc_conn sc)))
      = poller_entry (sw_epoll s (conn_loop (sc_conn sc))) (ch_fd (tc_channel (sc_conn sc)))"
proof (cases "\<exists>env sock peer. x = NewConnection env sock peer")
  case True
  then obtain a env sock peer where "x = NewConnection (a, env) sock peer" by (metis surj_pair)
  with assms newConnection_inv [OF assms(1), of a env sock peer s'] show ?thesis by auto
next
  case False
  then have "server_inv s' \<and> effect_on (touched x s) s s'" using srv_do_effect [OF assms(1,3)] by blast
  with effect_on_other [OF assms(1) _ assms(5,4)] show ?thesis by blast
qed

text \<open>What a step does to the map: an entry stays, goes, or is new under a number not used before.\<close>

definition map_grows :: "srv_world \<Rightarrow> srv_world \<Rightarrow> bool" where
  "map_grows s s' \<longleftrightarrow> ts_name s' = ts_name s \<and> ts_nextConnectionId s \<le> ts_nextConnectionId s'
     \<and> (\<forall>nm b. smap_get (ts_connectionMap s') nm = Some b \<longrightarrow> smap_get (ts_connectionMap s) nm = Some b
          \<or> (\<exists>i. ts_nextConnectionId s \<le> i \<and> i < ts_nextConnectionId s' \<and> nm = connection_name (ts_name s) i))"

lemma map_grows_trans: "map_grows s u \<Longrightarrow> map_grows u v \<Longrightarrow> map_grows s v"
  unfolding map_grows_def by (smt (verit) order_trans le_less_trans less_le_trans)

lemma srv_do_map:
  assumes "server_inv s" and "admissible x s" and "srv_do x s = Inr s'"
  shows "server_inv s' \<and> map_grows s s' \<and> ts_nextConnectionId s' = ts_nextConnectionId s + int (news [x])"
proof (cases "\<exists>env sock peer. x = NewConnection env sock peer")
  case True
  then obtain a env sock peer where x: "x = NewConnection (a, env) sock peer" by (metis surj_pair)
  have "smap_inv (ts_connectionMap s)" using server_invD(1) [OF assms(1)] by (simp add: srv_inv_def)
  note put = smap.look_put [OF this]
  from newConnection_inv [OF assms(1), of a env sock peer s'] assms(2,3)
  have new: "server_inv s'" "ts_nextConnectionId s' = ts_nextConnectionId s + 1" "ts_name s' = ts_name s"
    "\<And>nm. smap_get (ts_connectionMap s') nm \<in> {None, smap_get (smap_put
         (connection_name (ts_name s) (ts_nextConnectionId s)) a (ts_connectionMap s)) nm}"
    unfolding x srv_do.simps by blast+
  have "smap_get (ts_connectionMap s) nm = Some b \<or> nm = connection_name (ts_name s) (ts_nextConnectionId s)"
    if "smap_get (ts_connectionMap s') nm = Some b" for nm b
    using new(4) [of nm] that by (auto simp: put split: if_splits)
  then have "map_grows s s'" unfolding map_grows_def new(2,3) by force
  with new(1,2) show ?thesis by (simp add: x)
next
  case False
  then have "server_inv s' \<and> effect_on (touched x s) s s'" using srv_do_effect [OF assms(1,3)] by blast
  moreover from False have "news [x] = 0" by (cases x) auto
  ultimately show ?thesis unfolding effect_on_def map_grows_def by (metis add.right_neutral empty_iff insert_iff int_ops(1) option.distinct(1) order_refl)
qed

lemma run_map:
  assumes "server_inv s" and "admissible_run xs s" and "fold_res srv_do xs s = Inr s'"
  shows "server_inv s' \<and> map_grows s s' \<and> ts_nextConnectionId s' = ts_nextConnectionId s + int (news xs)"
  using assms
proof (induction xs arbitrary: s)
  case Nil
  then show ?case by (simp add: map_grows_def)
next
  case (Cons x xs)
  then obtain s1 where s1: "srv_do x s = Inr s1" "fold_res srv_do xs s1 = Inr s'" by (auto elim: bind_resE)
  have adm: "admissible x s" "admissible_run xs s1" using Cons.prems(2) s1(1) by simp_all
  have "news (x # xs) = news [x] + news xs" by (cases x) simp_all
  with srv_do_map [OF Cons.prems(1) adm(1) s1(1)] Cons.IH [OF _ adm(2) s1(2)] show ?case
    by (auto intro: map_grows_trans)
qed

text \<open>
  C12. The registry of connections: whatever happens to a server, in any order, every entry of its
  map is a live connection under its own name, an entry never passes to another connection, every
  arrival gets a number of its own whose name was not in use, and removing a connection a second
  time fails the assertion.
\<close>

theorem registry_consistent:
  assumes "server_inv s" and "admissible_run ops s" and "fold_res srv_do ops s = Inr s'"
  shows "ts_nextConnectionId s' = ts_nextConnectionId s + int (news ops)
    \<and> smap_get (ts_connectionMap s') (connection_name (ts_name s') (ts_nextConnectionId s')) = None
    \<and> (\<forall>nm a. smap_get (ts_connectionMap s') nm = Some a \<longrightarrow>
         (\<exists>sc. sw_conns s' a = Some sc \<and> tc_name (sc_conn sc) = nm)
         \<and> (smap_get (ts_connectionMap s) nm = Some a
            \<or> (\<exists>i. ts_nextConnectionId s \<le> i \<and> i < ts_nextConnectionId s' \<and> nm = connection_name (ts_name s) i)))
    \<and> (\<forall>a s''. TcpServer_removeConnectionInLoop a s' = Inr s'' \<longrightarrow>
         TcpServer_removeConnectionInLoop a s'' = Inl AssertFailed)"
proof -
  have inv: "server_inv s'" and grows: "map_grows s s'"
    and "ts_nextConnectionId s' = ts_nextConnectionId s + int (news ops)"
    using run_map [OF assms] by simp_all
  moreover have srv: "srv_inv s'" by (rule server_invD(1) [OF inv])
  moreover have "smap_get (ts_connectionMap s') (connection_name (ts_name s') (ts_nextConnectionId s')) = None"
  proof (rule ccontr)
    assume "smap_get (ts_connectionMap s') (connection_name (ts_name s') (ts_nextConnectionId s')) \<noteq> None"
    then obtain i where "1 \<le> i" "i < ts_nextConnectionId s'"
      "connection_name (ts_name s') (ts_nextConnectionId s') = connection_name (ts_name s') i"
      using srv unfolding srv_inv_def by blast
    with srv show False
      using connection_name_inject [of "ts_nextConnectionId s'" i] by (auto simp: srv_inv_def)
  qed
  moreover have "TcpServer_removeConnectionInLoop a s'' = Inl AssertFailed"
    if "TcpServer_removeConnectionInLoop a s' = Inr s''" for a s''
    using that
    by (auto simp: TcpServer_removeConnectionInLoop_def smap_count_def smap_get_erase queue_in_def Let_def
        split: option.splits if_splits)
  ultimately show ?thesis unfolding srv_inv_def map_grows_def by blast
qed


section \<open>A client that comes and goes\<close>

text \<open>A connection callback that only sets the context, as the HTTP server's does.\<close>

definition passive_cb :: "(conn_world \<Rightarrow> conn_world res) \<Rightarrow> bool" where
  "passive_cb f \<longleftrightarrow> (\<forall>w. \<exists>ctx. f w = Inr (w\<lparr>tc_context := ctx\<rparr>))"

lemma connectionEstablished_ok:
  assumes "tc_state w = kConnecting" and "chan_synced (tc_channelAddr w) (tc_channel w) (cw_epoll w)"
    and "cb_connection cbs = Some f" and "passive_cb f" and "wired (tc_channel w)"
  shows "returns (TcpConnection_connectionEstablished cbs this w) (\<lambda>w'. tc_state w' = kConnected
    \<and> tc_name w' = tc_name w \<and> wired (tc_channel w') \<and> ch_loop (tc_channel w') = ch_loop (tc_channel w)
    \<and> tc_inputBuffer w' = tc_inputBuffer w \<and> tc_channelAddr w' = tc_channelAddr w
    \<and> chan_synced (tc_channelAddr w') (tc_channel w') (cw_epoll w') \<and> cw_queue w' = cw_queue w)"
proof -
  let ?w = "(TcpConnection_setState kConnected w)\<lparr>tc_channel := Channel_tie this (tc_channel w)\<rparr>"
  let ?w' = "channel_updated (ch_events (tc_channel ?w) OR kReadEvent) ?w"
  have s: "chan_synced (tc_channelAddr ?w) (tc_channel ?w) (cw_epoll ?w)"
    using assms(2) by (simp add: chan_synced_def Channel_tie_def TcpConnection_setState_def)
  obtain ctx where "f ?w' = Inr (?w'\<lparr>tc_context := ctx\<rparr>)" using assms(4) by (auto simp: passive_cb_def)
  then have "TcpConnection_connectionEstablished cbs this w = Inr (?w'\<lparr>tc_context := ctx\<rparr>)"
    using assms(1,3) with_channel_ops(1) [OF s]
    by (simp add: TcpConnection_connectionEstablished_def run_callback_def Let_def TcpConnection_setState_def)
  moreover have "wired (tc_channel ?w')"
    using assms(5) by (simp add: wired_def channel_updated_def update_result_def Let_def Channel_tie_def)
  ultimately show ?thesis
    using channel_updated_synced [OF s]
    by (simp add: TcpConnection_setState_def Channel_tie_def)
qed

text \<open>A connection as the server makes it, before and after its loop has established it.\<close>

definition arrived :: "nat \<Rightarrow> nat \<Rightarrow> tcp_state \<Rightarrow> (conn_world \<Rightarrow> conn_world res) \<Rightarrow> srv_world \<Rightarrow> bool" where
  "arrived l a st f s \<longleftrightarrow> (\<exists>sc. sw_conns s a = Some sc \<and> tc_state (sc_conn sc) = st
     \<and> wired (tc_channel (sc_conn sc)) \<and> Buffer_inv (tc_inputBuffer (sc_conn sc))
     \<and> chan_synced (tc_channelAddr (sc_conn sc)) (tc_channel (sc_conn sc)) (sw_epoll s l)
     \<and> conn_loop (sc_conn sc) = l \<and> cb_connection (sc_callbacks sc) = Some f
     \<and> cb_close (sc_callbacks sc) = Some close_callback
     \<and> smap_get (ts_connectionMap s) (tc_name (sc_conn sc)) = Some a)"

lemma establish_arrived:
  assumes "arrived l a kConnecting f s" and "passive_cb f"
  shows "returns (run_functor l (Establish a) s) (\<lambda>s'. arrived l a kConnected f s' \<and> sw_queue s' = sw_queue s
    \<and> ts_loop s' = ts_loop s)"
proof -
  from assms(1) obtain sc where sc: "sw_conns s a = Some sc" "tc_state (sc_conn sc) = kConnecting"
    "wired (tc_channel (sc_conn sc))" "Buffer_inv (tc_inputBuffer (sc_conn sc))"
    "chan_synced (tc_channelAddr (sc_conn sc)) (tc_channel (sc_conn sc)) (sw_epoll s l)"
    "conn_loop (sc_conn sc) = l" "cb_connection (sc_callbacks sc) = Some f"
    "cb_close (sc_callbacks sc) = Some close_callback"
    "smap_get (ts_connectionMap s) (tc_name (sc_conn sc)) = Some a"
    by (auto simp: arrived_def)
  have t: "taken_conn sc s = (sc_conn sc)\<lparr>cw_epoll := sw_epoll s l, cw_sys := sw_sys s, cw_queue := []\<rparr>"
    using sc(6) by (simp add: taken_conn_def)
  from connectionEstablished_ok [of "taken_conn sc s" "sc_callbacks sc" f a] sc assms(2) obtain w where w:
    "TcpConnection_connectionEstablished (sc_callbacks sc) a (taken_conn sc s) = Inr w" "tc_state w = kConnected"
    "tc_name w = tc_name (sc_conn sc)" "wired (tc_channel w)" "conn_loop w = l"
    "tc_inputBuffer w = tc_inputBuffer (sc_conn sc)"
    "chan_synced (tc_channelAddr w) (tc_channel w) (cw_epoll w)" "cw_queue w = []"
    by (auto simp: t TcpConnection_getLoop_def elim: returnsE)
  then show ?thesis using sc by (simp add: with_conn_put arrived_def put_conn_def)
qed

text \<open>The arrival of a client, and the loop that serves it establishing the connection.\<close>

lemma newConnection_arrived:
  assumes inv: "server_inv s" and adm: "admissible (NewConnection (a, chan, local, kern) sock peer) s"
    and loop: "EventLoopThreadPool_getNextLoop (ts_threadPool s) = Inr (l, pool)"
    and f: "ts_connectionCallback s = Some f" "passive_cb f"
    and small: "ts_nextConnectionId s + 1 < 2 ^ 31" and idle: "sw_queue s = []"
  shows "returns (bind_res (TcpServer_newConnection (a, chan, local, kern) sock peer s) (loop_runs l)) (\<lambda>s'.
    arrived l a kConnected f s' \<and> sw_queue s' = [] \<and> ts_loop s' = ts_loop s)"
proof -
  let ?nm = "connection_name (ts_name s) (ts_nextConnectionId s)"
  have "poller_entry (sw_epoll s l) (sockfd sock) = (None, None)" using adm by simp
  from TcpConnection_new_ok [OF server_invD(3) [OF inv] this, of l ?nm chan "InternetAddress_getLocalAddress local"
      peer "sw_sys s" kern] obtain conn where conn:
    "TcpConnection_new l ?nm sock chan (InternetAddress_getLocalAddress local) peer
       (sw_epoll s l) (sw_sys s) kern = Inr conn"
    "tc_state conn = kConnecting" "tc_name conn = ?nm" "wired (tc_channel conn)" "conn_loop conn = l"
    "Buffer_inv (tc_inputBuffer conn)" "chan_synced (tc_channelAddr conn) (tc_channel conn) (sw_epoll s l)"
    by (auto simp: TcpConnection_getLoop_def elim: returnsE)
  define s1 where "s1 = entered l a pool conn s"
  have "1 \<le> ts_nextConnectionId s" using server_invD(1) [OF inv] by (simp add: srv_inv_def)
  then have new: "TcpServer_newConnection (a, chan, local, kern) sock peer s = run_in l (Establish a) s1"
    unfolding s1_def by (rule newConnection_enters [OF loop conn(1) _ small])
  have "smap_inv (ts_connectionMap s)" using server_invD(1) [OF inv] by (simp add: srv_inv_def)
  then have arr: "arrived l a kConnecting f s1"
    using conn f by (simp add: arrived_def s1_def entered_def server_callbacks_def smap.look_put)
  have s1: "sw_queue s1 = []" "ts_loop s1 = ts_loop s" using idle by (simp_all add: s1_def entered_def)
  show ?thesis
  proof (cases "l = ts_loop s")
    case True
    then have "TcpServer_newConnection (a, chan, local, kern) sock peer s = run_functor l (Establish a) s1"
      using s1 by (simp add: new run_in_def)
    moreover from establish_arrived [OF arr f(2)] obtain s2 where
      "run_functor l (Establish a) s1 = Inr s2" "arrived l a kConnected f s2" "sw_queue s2 = []" "ts_loop s2 = ts_loop s"
      using s1 by (auto elim: returnsE)
    ultimately show ?thesis by (simp add: loop_runs_def)
  next
    case False
    let ?s2 = "take_functor (l, Establish a) (queue_in l (Establish a) s1)"
    have "bind_res (TcpServer_newConnection (a, chan, local, kern) sock peer s) (loop_runs l) = run_functor l (Establish a) ?s2"
      using False s1 by (simp add: new run_in_def loop_runs_def queue_in_def)
    moreover have "arrived l a kConnecting f ?s2" "sw_queue ?s2 = []" "ts_loop ?s2 = ts_loop s"
      using arr s1 by (simp_all add: arrived_def take_functor_def queue_in_def)
    ultimately show ?thesis using establish_arrived [OF _ f(2), of l a ?s2] by (simp del: run_functor.simps)
  qed
qed

text \<open>A connection that is closed and has had an event: its destruction aborts.\<close>

lemma destroy_closed:
  assumes "sw_conns s a = Some sc" and "tc_state (sc_conn sc) = kDisconnected"
    and "ch_revents (tc_channel (sc_conn sc)) \<noteq> 0"
    and "filter (\<lambda>t. fst t = l) (sw_queue s) = (l, Destroy a) # ts"
  shows "loop_runs l s = Inl AssertFailed"
proof -
  have "sw_conns (take_functor (l, Destroy a) s) a = Some sc" using assms(1) by (simp add: take_functor_def)
  from with_conn_put [OF this] show ?thesis
    using assms(2-4) by (simp add: loop_runs_def destroyed_after_event taken_conn_def)
qed

lemma arrived_eof:
  assumes "arrived l a kConnected f s" and "sw_queue s = []"
    and "has_bits r EPOLLIN" and "\<not> has_bits r EPOLLOUT"
  shows "returns (TcpServer_event a (Inr []) r s) (\<lambda>s'.
    bind_res (loop_runs (ts_loop s) s') (loop_runs l) = Inl AssertFailed)"
proof -
  from assms(1) obtain sc where sc: "sw_conns s a = Some sc" "tc_state (sc_conn sc) = kConnected"
    "wired (tc_channel (sc_conn sc))" "Buffer_inv (tc_inputBuffer (sc_conn sc))"
    "chan_synced (tc_channelAddr (sc_conn sc)) (tc_channel (sc_conn sc)) (sw_epoll s l)"
    "conn_loop (sc_conn sc) = l" "cb_close (sc_callbacks sc) = Some close_callback"
    "smap_get (ts_connectionMap s) (tc_name (sc_conn sc)) = Some a"
    by (auto simp: arrived_def)
  have t: "taken_conn sc s = (sc_conn sc)\<lparr>cw_epoll := sw_epoll s l, cw_sys := sw_sys s, cw_queue := []\<rparr>"
    using sc(6) by (simp add: taken_conn_def)
  have "passive_close [CloseCallback] (sc_callbacks sc)"
    using sc(7) by (simp add: passive_close_def close_callback_def queue_functor_def)
  from eof_event [OF _ _ _ _ this assms(3,4), of "taken_conn sc s"] sc obtain w where w:
    "conn_event (sc_callbacks sc) (Inr []) r (taken_conn sc s) = Inr w" "tc_state w = kDisconnected"
    "ch_revents (tc_channel w) \<noteq> 0" "conn_loop w = l" "tc_name w = tc_name (sc_conn sc)"
    "cw_queue w = [CloseCallback]"
    by (auto simp: t TcpConnection_getLoop_def elim: returnsE)
  let ?s = "put_conn a sc w s" and ?sc = "sc\<lparr>sc_conn := w\<rparr>"
  have put: "sw_conns ?s a = Some ?sc" "sw_queue ?s = []" "ts_loop ?s = ts_loop s"
    "ts_connectionMap ?s = ts_connectionMap s"
    using assms(2) by (simp_all add: put_conn_def)
  have event: "TcpServer_event a (Inr []) r s = TcpServer_removeConnection l a ?s"
    using sc w
    by (cases "TcpServer_removeConnection l a ?s") (simp_all add: TcpServer_event_def with_conn_put take_up_def)
  let ?removed = "queue_in l (Destroy a) (?s\<lparr>ts_connectionMap := smap_erase (tc_name w) (ts_connectionMap s)\<rparr>)"
  have remove: "TcpServer_removeConnectionInLoop a u = Inr (queue_in l (Destroy a)
      (u\<lparr>ts_connectionMap := smap_erase (tc_name w) (ts_connectionMap u)\<rparr>))"
    if "sw_conns u a = Some ?sc" "ts_connectionMap u = ts_connectionMap s" for u
    using that sc(8) w by (simp add: TcpServer_removeConnectionInLoop_def smap_count_def)
  have destroy: "loop_runs l u = Inl AssertFailed" if "sw_conns u a = Some ?sc" "sw_queue u = [(l, Destroy a)]" for u
    by (rule destroy_closed [OF that(1)]) (use w that in simp_all)
  show ?thesis
  proof (cases "l = ts_loop s")
    case True
    then have "TcpServer_event a (Inr []) r s = Inr ?removed"
      unfolding event TcpServer_removeConnection_def using put remove [of ?s] by simp
    moreover have "loop_runs l ?removed = Inl AssertFailed"
      by (rule destroy) (simp_all add: queue_in_def put)
    ultimately show ?thesis using True by simp
  next
    case False
    let ?queued = "queue_in (ts_loop s) (RemoveInLoop a) ?s"
    let ?taken = "take_functor (ts_loop s, RemoveInLoop a) ?queued"
    have "TcpServer_event a (Inr []) r s = Inr ?queued"
      unfolding event TcpServer_removeConnection_def using False put by simp
    moreover have "loop_runs (ts_loop s) ?queued = TcpServer_removeConnectionInLoop a ?taken"
      using put by (simp add: loop_runs_def queue_in_def)
    moreover have taken: "sw_conns ?taken a = Some ?sc" "sw_queue ?taken = []" "ts_connectionMap ?taken = ts_connectionMap s"
      using put by (simp_all add: take_functor_def queue_in_def)
    moreover have "loop_runs l (queue_in l (Destroy a)
        (?taken\<lparr>ts_connectionMap := smap_erase (tc_name w) (ts_connectionMap ?taken)\<rparr>)) = Inl AssertFailed"
      by (rule destroy) (use taken in \<open>simp_all add: queue_in_def\<close>)
    ultimately show ?thesis using remove [OF taken(1,3)] by simp
  qed
qed

text \<open>
  A client that connects and closes the connection brings the whole process down, with or
  without a pool of loops: the arrival, the establishment, the end-of-stream event and the removal
  from the map succeed, but the destruction they leave in the loop of the connection aborts.
\<close>

lemma client_session_crashes_server:
  assumes "server_inv s" and "admissible (NewConnection (a, chan, local, kern) sock peer) s"
    and "EventLoopThreadPool_getNextLoop (ts_threadPool s) = Inr (l, pool)"
    and "ts_connectionCallback s = Some f" and "passive_cb f"
    and "ts_nextConnectionId s + 1 < 2 ^ 31" and "sw_queue s = []"
    and "has_bits r EPOLLIN" and "\<not> has_bits r EPOLLOUT"
  shows "returns (bind_res (bind_res (TcpServer_newConnection (a, chan, local, kern) sock peer s) (loop_runs l))
      (TcpServer_event a (Inr []) r))
    (\<lambda>s'. bind_res (loop_runs (ts_loop s) s') (loop_runs l) = Inl AssertFailed)"
proof (rule returns_bind [OF newConnection_arrived [OF assms(1-7)]])
  fix u assume u: "arrived l a kConnected f u \<and> sw_queue u = [] \<and> ts_loop u = ts_loop s"
  then have "arrived l a kConnected f u" "sw_queue u = []" by simp_all
  from arrived_eof [OF this assms(8,9)] u
  show "returns (TcpServer_event a (Inr []) r u)
      (\<lambda>s'. bind_res (loop_runs (ts_loop s) s') (loop_runs l) = Inl AssertFailed)" by simp
qed

lemma Inr_passive: "passive_cb Inr"
proof (unfold passive_cb_def, rule allI)
  fix w :: conn_world
  show "\<exists>ctx. Inr w = Inr (w\<lparr>tc_context := ctx\<rparr>)" by (rule exI [of _ "tc_context w"]) simp
qed

lemma demo_admissible: "admissible (NewConnection (a, chan, local, kern) sock peer) (demo_server ls)"
  by (simp add: poller_entry_def Epoll_new_def smap_get_def)

lemma client_session_crashes_server_instance:
  "returns (bind_res (bind_res (TcpServer_newConnection (5, 101, None, slow_kernel) (Socket_of 6) zero_address
        (demo_server [20])) (loop_runs 20)) (TcpServer_event 5 (Inr []) EPOLLIN))
     (\<lambda>s'. bind_res (loop_runs 10 s') (loop_runs 20) = Inl AssertFailed)"
  by (rule returns_mono [OF client_session_crashes_server [OF demo_server_inv demo_admissible _ _ Inr_passive]])
    (auto simp: EventLoopThreadPool_getNextLoop_def has_bits_def epoll_bits)

section \<open>A run\<close>

text \<open>
  A client arrives, the loop of the pool establishes its connection, the base loop's thread sends
  on it, and another client arrives.
\<close>

definition demo_arrivals :: "srv_op list" where
  "demo_arrivals = [NewConnection (5, 101, None, slow_kernel) (Socket_of 6) zero_address,
     LoopRuns 20, SendFrom 10 5 ''hi'']"

lemma demo_arrivals_run:
  "\<exists>s'. fold_res srv_do demo_arrivals (demo_server [20]) = Inr s'
     \<and> sw_queue s' = [(20, OnConnection 5 (SendInLoop ''hi''))] \<and> sw_conns s' 5 \<noteq> None"
proof -
  have "returns (bind_res (TcpServer_newConnection (5, 101, None, slow_kernel) (Socket_of 6) zero_address
      (demo_server [20])) (loop_runs 20))
    (\<lambda>s'. arrived 20 5 kConnected Inr s' \<and> sw_queue s' = [] \<and> ts_loop s' = ts_loop (demo_server [20]))"
    by (rule newConnection_arrived [OF demo_server_inv demo_admissible _ _ Inr_passive])
      (simp_all add: EventLoopThreadPool_getNextLoop_def)
  then obtain s1 where s1: "bind_res (TcpServer_newConnection (5, 101, None, slow_kernel) (Socket_of 6) zero_address
      (demo_server [20])) (loop_runs 20) = Inr s1" "arrived 20 5 kConnected Inr s1" "sw_queue s1 = []"
    by (auto elim: returnsE)
  from s1(2) obtain sc where sc: "sw_conns s1 5 = Some sc" "tc_state (sc_conn sc) = kConnected" "conn_loop (sc_conn sc) = 20"
    by (auto simp: arrived_def)
  have "conn_loop (taken_conn sc s1) = 20" "tc_state (taken_conn sc s1) = kConnected"
    using sc by (simp_all add: taken_conn_def TcpConnection_getLoop_def)
  then have "send_from 10 5 ''hi'' s1 = Inr (queue_in 20 (OnConnection 5 (SendInLoop ''hi''))
      (put_conn 5 sc (queue_functor (SendInLoop ''hi'') (taken_conn sc s1)) s1))"
    using sc by (simp add: send_from_def with_conn_put TcpConnection_send_def take_up_def queue_functor_def)
      (simp add: taken_conn_def take_up_def)
  moreover from s1(1) obtain s0 where
    "TcpServer_newConnection (5, 101, None, slow_kernel) (Socket_of 6) zero_address (demo_server [20]) = Inr s0"
    "loop_runs 20 s0 = Inr s1" by (rule bind_resE)
  ultimately show ?thesis
    using s1(3) by (simp add: demo_arrivals_def queue_in_def put_conn_def)
qed

lemma demo_arrivals_admissible: "admissible_run demo_arrivals (demo_server [20])"
  using demo_admissible by (simp add: demo_arrivals_def del: admissible.simps(1) split: sum.split)

theorem registry_consistent_witness:
  "\<exists>s'. fold_res srv_do demo_arrivals (demo_server [20]) = Inr s' \<and> ts_nextConnectionId s' = 2"
proof -
  obtain s' where s': "fold_res srv_do demo_arrivals (demo_server [20]) = Inr s'" using demo_arrivals_run by blast
  with registry_consistent [OF demo_server_inv demo_arrivals_admissible s'] show ?thesis
    by (simp add: demo_arrivals_def)
qed


text \<open>A second client arrives while the first one is waiting to be established.\<close>

lemma demo_first:
  "\<exists>s sc. TcpServer_newConnection (5, 101, None, slow_kernel) (Socket_of 6) zero_address (demo_server [20]) = Inr s
     \<and> sw_conns s 5 = Some sc \<and> (\<forall>b. b \<noteq> 5 \<longrightarrow> sw_conns s b = None) \<and> ch_fd (tc_channel (sc_conn sc)) = 6 \<and> sw_epoll s = (\<lambda>_. Epoll_new)
     \<and> ts_nextConnectionId s = 2 \<and> ts_loop s = 10
     \<and> ts_threadPool s = \<lparr>etp_baseLoop = 10, etp_started = True, etp_numThreads = 1, etp_next = 0, etp_loops = [20]\<rparr>"
  by (simp add: Buffer_new_eq TcpServer_newConnection_def callback_setters TcpConnection_new_def int32_res_def
      EventLoopThreadPool_getNextLoop_def run_in_def queue_in_def demo_names channel_wiring Socket_of_def Let_def)

theorem connections_isolated_witness:
  "\<exists>s s' sc. TcpServer_newConnection (5, 101, None, slow_kernel) (Socket_of 6) zero_address (demo_server [20]) = Inr s
     \<and> TcpServer_newConnection (6, 102, None, slow_kernel) (Socket_of 7) zero_address s = Inr s'
     \<and> sw_conns s 5 = Some sc \<and> sw_conns s' 5 = Some sc"
proof -
  let ?new = "\<lambda>a c fd. NewConnection (a, c, None, slow_kernel) (Socket_of fd) zero_address"
  obtain s sc where s: "TcpServer_newConnection (5, 101, None, slow_kernel) (Socket_of 6) zero_address (demo_server [20]) = Inr s"
    "sw_conns s 5 = Some sc" "\<And>b. b \<noteq> 5 \<Longrightarrow> sw_conns s b = None" "ch_fd (tc_channel (sc_conn sc)) = 6" "sw_epoll s = (\<lambda>_. Epoll_new)"
    "ts_nextConnectionId s = 2" "ts_loop s = 10"
    "ts_threadPool s = \<lparr>etp_baseLoop = 10, etp_started = True, etp_numThreads = 1, etp_next = 0, etp_loops = [20]\<rparr>"
    using demo_first by blast
  have adm: "admissible (?new 6 102 7) s"
  proof -
    have "ch_fd (tc_channel (sc_conn sd)) = 6" if "sw_conns s b = Some sd" for b sd
      using that s(2-4) by (cases "b = 5") auto
    then show ?thesis
      using s(3,5) by (auto simp: poller_entry_def Epoll_new_def smap_get_def Socket_of_def)
  qed
  have inv: "server_inv s"
    using newConnection_inv [OF demo_server_inv demo_admissible s(1)] by simp
  have "\<exists>s'. srv_do (?new 6 102 7) s = Inr s'"
    using s(6-8) by (simp add: Buffer_new_eq TcpServer_newConnection_def callback_setters TcpConnection_new_def int32_res_def
      EventLoopThreadPool_getNextLoop_def run_in_def queue_in_def Let_def split: if_splits)
  then obtain s' where s': "srv_do (?new 6 102 7) s = Inr s'" ..
  from connections_isolated [OF inv adm s', of 5 sc] s s' show ?thesis by auto
qed

end
