(* ===== verification/Http_Response.thy ===== *)
theory Http_Response
  imports Http_Context
begin

text \<open>
  \<open>http/HttpResponse.h\<close> and \<open>http/HttpResponse.cpp\<close>: the response under construction
  and its serialisation into a buffer. The 32-byte \<open>snprintf\<close> buffer is modelled with its
  truncation.
\<close>

section \<open>State and setters\<close>

datatype http_status = kUnknown | k200OK | k301MovedPermanently | k400BadRequest | k404NotFound

fun status_code :: "http_status \<Rightarrow> nat" where
  "status_code kUnknown = 0"
| "status_code k200OK = 200"
| "status_code k301MovedPermanently = 301"
| "status_code k400BadRequest = 400"
| "status_code k404NotFound = 404"

record http_response =
  resp_headers :: "(string \<times> string) list"
  resp_statusCode :: http_status
  resp_statusMessage :: string
  resp_closeConnection :: bool
  resp_body :: string

definition HttpResponse_new :: "bool \<Rightarrow> http_response" where
  "HttpResponse_new close = \<lparr>resp_headers = [], resp_statusCode = kUnknown,
     resp_statusMessage = [], resp_closeConnection = close, resp_body = []\<rparr>"

definition HttpResponse_setStatusCode :: "http_response \<Rightarrow> http_status \<Rightarrow> http_response" where
  "HttpResponse_setStatusCode r code = r\<lparr>resp_statusCode := code\<rparr>"

definition HttpResponse_setStatusMessage :: "http_response \<Rightarrow> string \<Rightarrow> http_response" where
  "HttpResponse_setStatusMessage r msg = r\<lparr>resp_statusMessage := msg\<rparr>"

definition HttpResponse_setCloseConnection :: "http_response \<Rightarrow> bool \<Rightarrow> http_response" where
  "HttpResponse_setCloseConnection r on = r\<lparr>resp_closeConnection := on\<rparr>"

definition HttpResponse_addHeader :: "http_response \<Rightarrow> string \<Rightarrow> string \<Rightarrow> http_response" where
  "HttpResponse_addHeader r key val = r\<lparr>resp_headers := smap_put key val (resp_headers r)\<rparr>"

definition HttpResponse_setContentType :: "http_response \<Rightarrow> string \<Rightarrow> http_response" where
  "HttpResponse_setContentType r contentType = HttpResponse_addHeader r ''Content-Type'' contentType"

definition HttpResponse_setBody :: "http_response \<Rightarrow> string \<Rightarrow> http_response" where
  "HttpResponse_setBody r body = r\<lparr>resp_body := body\<rparr>"

section \<open>Serialisation\<close>

text \<open>Appending a sequence of strings, one call each.\<close>

fun append_all :: "buffer_t \<Rightarrow> string list \<Rightarrow> buffer_t res" where
  "append_all b [] = Inr b"
| "append_all b (s # ss) = bind_res (Buffer_append b s) (\<lambda>b'. append_all b' ss)"

definition header_pieces :: "(string \<times> string) \<Rightarrow> string list" where
  "header_pieces h = [fst h, '': '', snd h, CRLF]"

definition HttpResponse_appendToBuffer :: "http_response \<Rightarrow> buffer_t \<Rightarrow> buffer_t res" where
  "HttpResponse_appendToBuffer r out =
     bind_res (append_all out
         [snprintf 32 (''HTTP/1.1 '' @ dec (status_code (resp_statusCode r)) @ '' ''),
          resp_statusMessage r, CRLF]) (\<lambda>out1.
     bind_res (if resp_closeConnection r
               then append_all out1 [''Connection: close'' @ CRLF]
               else append_all out1
                 [snprintf 32 (''Content-Length: '' @ dec (length (resp_body r)) @ CRLF),
                  ''Connection: Keep-Alive'' @ CRLF]) (\<lambda>out2.
     bind_res (append_all out2 (concat (map header_pieces (resp_headers r)))) (\<lambda>out3.
       append_all out3 [CRLF, resp_body r])))"

section \<open>What is written\<close>

lemma append_all_ok:
  assumes "Buffer_inv b" and "Buffer_room b (length (concat ss) + n)"
  shows "returns (append_all b ss)
    (\<lambda>b'. Buffer_inv b' \<and> Buffer_content b' = Buffer_content b @ concat ss \<and> Buffer_room b' n)"
  using assms
proof (induction ss arbitrary: b)
  case Nil
  then show ?case by simp
next
  case (Cons s ss)
  then have "Buffer_room b (length s + (length (concat ss) + n))" by (simp add: add.assoc)
  with Cons.prems(1) obtain b1 where b1: "Buffer_append b s = Inr b1" "Buffer_inv b1"
    "Buffer_content b1 = Buffer_content b @ s" "Buffer_room b1 (length (concat ss) + n)"
    by (rule bq.put_step)
  with Cons.IH [OF b1(2,4)] show ?case by simp
qed

lemma append_all_append: "append_all b (xs @ ys) = bind_res (append_all b xs) (\<lambda>b'. append_all b' ys)"
  by (induction xs arbitrary: b) (simp_all add: bind_res_assoc)

definition response_pieces :: "http_response \<Rightarrow> string list" where
  "response_pieces r =
     [snprintf 32 (''HTTP/1.1 '' @ dec (status_code (resp_statusCode r)) @ '' ''),
      resp_statusMessage r, CRLF]
     @ (if resp_closeConnection r then [''Connection: close'' @ CRLF]
        else [snprintf 32 (''Content-Length: '' @ dec (length (resp_body r)) @ CRLF),
              ''Connection: Keep-Alive'' @ CRLF])
     @ concat (map header_pieces (resp_headers r)) @ [CRLF, resp_body r]"

lemma appendToBuffer_pieces: "HttpResponse_appendToBuffer r out = append_all out (response_pieces r)"
  by (cases "resp_closeConnection r")
    (simp_all only: HttpResponse_appendToBuffer_def response_pieces_def append_all_append
      bind_res_assoc if_True if_False)

text \<open>The message as the protocol prescribes it.\<close>

definition render_response :: "http_response \<Rightarrow> string" where
  "render_response r =
     ''HTTP/1.1 '' @ dec (status_code (resp_statusCode r)) @ '' '' @ resp_statusMessage r @ CRLF
     @ (if resp_closeConnection r then ''Connection: close'' @ CRLF
        else ''Content-Length: '' @ dec (length (resp_body r)) @ CRLF @ ''Connection: Keep-Alive'' @ CRLF)
     @ concat (map render_header (resp_headers r)) @ CRLF @ resp_body r"

lemma status_code_digits: "length (dec (status_code c)) \<le> 3"
  by (rule length_dec_le) (cases c; simp)+

lemma concat_header_pieces: "concat (concat (map header_pieces hs)) = concat (map render_header hs)"
  by (induction hs) (simp_all add: header_pieces_def render_header_def)

lemma concat_response_pieces:
  assumes "length (resp_body r) < 10 ^ 13"
  shows "concat (response_pieces r) = render_response r"
proof -
  let ?status = "''HTTP/1.1 '' @ dec (status_code (resp_statusCode r)) @ '' ''"
  let ?len = "''Content-Length: '' @ dec (length (resp_body r)) @ CRLF"
  have "length ?status < 32" using status_code_digits [of "resp_statusCode r"] by simp
  then have s1: "snprintf 32 ?status = ?status" by (rule snprintf_fits)
  have "length (dec (length (resp_body r))) \<le> 13" using assms by (intro length_dec_le) auto
  then have "length ?len < 32" by simp
  then have s2: "snprintf 32 ?len = ?len" by (rule snprintf_fits)
  show ?thesis
    unfolding response_pieces_def render_response_def s1 s2
    by (simp add: concat_header_pieces)
qed

lemma appendToBuffer_ok:
  assumes "Buffer_inv out" and "length (resp_body r) < 10 ^ 13"
    and "Buffer_room out (length (render_response r) + n)"
  shows "returns (HttpResponse_appendToBuffer r out)
    (\<lambda>out'. Buffer_inv out' \<and> Buffer_content out' = Buffer_content out @ render_response r
      \<and> Buffer_room out' n)"
  using append_all_ok [OF assms(1), of "response_pieces r" n] assms(3)
  by (simp add: appendToBuffer_pieces concat_response_pieces [OF assms(2)])

text \<open>
  C30. HttpResponse::appendToBuffer appends one well-formed HTTP/1.1 message after the bytes
  already in the buffer: the status line, either Connection: close or a Content-Length with
  the exact number of body bytes and Connection: Keep-Alive, the headers in key order, a blank
  line and the body, as long as the body length has at most 13 digits (the 32-byte snprintf
  buffer holds no more).
\<close>
theorem appendToBuffer_renders:
  assumes "Buffer_inv out" and "length (resp_body r) < 10 ^ 13"
    and "Buffer_room out (length (render_response r))"
  shows "returns (HttpResponse_appendToBuffer r out)
    (\<lambda>out'. Buffer_inv out' \<and> Buffer_content out' = Buffer_content out @ render_response r)"
  using appendToBuffer_ok [OF assms(1,2), of 0] assms(3) by (auto elim!: returns_mono)

theorem appendToBuffer_renders_witness:
  "returns (HttpResponse_appendToBuffer (HttpResponse_setBody (HttpResponse_new False) ''hello'')
       (text_buffer ''x''))
     (\<lambda>out'. Buffer_content out' = ''xHTTP/1.1 0 '' @ CRLF @ ''Content-Length: 5'' @ CRLF
        @ ''Connection: Keep-Alive'' @ CRLF @ CRLF @ ''hello'')"
proof -
  let ?r = "HttpResponse_setBody (HttpResponse_new False) ''hello''"
  have d: "dec 0 = ''0''" "dec (Suc (Suc (Suc (Suc (Suc 0))))) = ''5''" by code_simp+
  have r: "render_response ?r = ''HTTP/1.1 0 '' @ CRLF @ ''Content-Length: 5'' @ CRLF
      @ ''Connection: Keep-Alive'' @ CRLF @ CRLF @ ''hello''"
    by (simp add: render_response_def HttpResponse_setBody_def HttpResponse_new_def d)
  have "returns (HttpResponse_appendToBuffer ?r (text_buffer ''x''))
      (\<lambda>out'. Buffer_inv out' \<and> Buffer_content out' = Buffer_content (text_buffer ''x'') @ render_response ?r)"
    by (rule appendToBuffer_renders)
      (simp_all add: r, simp add: HttpResponse_setBody_def HttpResponse_new_def)
  then show ?thesis by (rule returns_mono) (simp add: r)
qed

end
