(* ===== verification/HttpServer.thy ===== *)
theory HttpServer
  imports Server_Registry Http_Response
begin

text \<open>
  \<open>http/HttpServer.h\<close>, \<open>http/HttpServer.cpp\<close> and \<open>main.cpp\<close>: the HTTP server on top of
  the TCP server, and the program that serves two files with it. The server's callbacks run on a
  connection in its loop's thread. A parse that runs for ever is the fault \<open>NeverReturns\<close>; the
  answers of the file system are a parameter.
\<close>

section \<open>HttpServer\<close>

type_synonym http_callback = "http_request \<Rightarrow> http_response \<Rightarrow> http_response"

definition HttpServer_onConnection :: "conn_world \<Rightarrow> conn_world res" where
  "HttpServer_onConnection w =
     Inr (if TcpConnection_connected w then TcpConnection_setContext HttpContext_new w else w)"

definition HttpServer_onRequest :: "http_callback option \<Rightarrow> http_request \<Rightarrow> conn_world \<Rightarrow> conn_world res" where
  "HttpServer_onRequest httpCallback httpRequest w =
     (let connectionStr = HttpRequest_getHeader httpRequest ''Connection'';
          isClose = (connectionStr = ''close'');
          response = (case httpCallback of
              None \<Rightarrow> HttpResponse_new isClose
            | Some f \<Rightarrow> f httpRequest (HttpResponse_new isClose)) in
      bind_res Buffer_new (\<lambda>buffer.
      bind_res (HttpResponse_appendToBuffer response buffer) (\<lambda>buffer1.
      bind_res (Buffer_toString buffer1) (\<lambda>text.
      bind_res (TcpConnection_send True text w) (\<lambda>w1.
      Inr (if resp_closeConnection response then TcpConnection_shutdown True w1 else w1))))))"

definition bad_request :: string where
  "bad_request = ''HTTP/1.1 400 Bad Request'' @ CRLF @ CRLF"

definition HttpServer_onMessage :: "http_callback option \<Rightarrow> int \<Rightarrow> conn_world \<Rightarrow> conn_world res" where
  "HttpServer_onMessage httpCallback receiveTime w =
     (case HttpContext_parseRequest (tc_context w) (tc_inputBuffer w) receiveTime of
        None \<Rightarrow> Inl NeverReturns
      | Some r \<Rightarrow>
          bind_res r (\<lambda>(context, buffer, ok).
          let w1 = w\<lparr>tc_context := context, tc_inputBuffer := buffer\<rparr> in
          bind_res
            (if \<not> ok
             then bind_res (TcpConnection_send True bad_request w1) (\<lambda>w2.
                    Inr (TcpConnection_shutdown True w2))
             else Inr w1) (\<lambda>w3.
          if HttpContext_gotAll (tc_context w3)
          then bind_res (HttpServer_onRequest httpCallback (ctx_request (tc_context w3)) w3) (\<lambda>w4.
                 Inr (w4\<lparr>tc_context := HttpContext_reset (tc_context w4)\<rparr>))
          else Inr w3)))"

definition HttpServer_new ::
  "nat \<Rightarrow> int \<Rightarrow> sockaddr_in \<Rightarrow> string \<Rightarrow> nat \<Rightarrow> (nat \<Rightarrow> epoll_t) \<Rightarrow> srv_world" where
  "HttpServer_new loop listenFd addr name acAddr pollers =
     TcpServer_setMessageCallback (Some (HttpServer_onMessage None))
       (TcpServer_setConnectionCallback (Some HttpServer_onConnection)
         (TcpServer_new loop listenFd addr name acAddr pollers))"

text \<open>
  The message callback of the server and of every connection is bound to the server object, so
  that setting the HTTP callback changes what all of them run.
\<close>

definition HttpServer_setHttpCallback :: "http_callback option \<Rightarrow> srv_world \<Rightarrow> srv_world" where
  "HttpServer_setHttpCallback cb s =
     s\<lparr>ts_messageCallback := Some (HttpServer_onMessage cb),
       sw_conns := (\<lambda>a. map_option (\<lambda>sc. sc\<lparr>sc_callbacks :=
           (sc_callbacks sc)\<lparr>cb_message := Some (HttpServer_onMessage cb)\<rparr>\<rparr>) (sw_conns s a))\<rparr>"

definition HttpServer_setThreadNum :: "int \<Rightarrow> srv_world \<Rightarrow> srv_world res" where
  "HttpServer_setThreadNum threadsNum s = TcpServer_setThreadNumber threadsNum s"

definition HttpServer_start :: "(nat \<Rightarrow> nat) \<Rightarrow> srv_world \<Rightarrow> srv_world res" where
  "HttpServer_start alloc s = TcpServer_start alloc s"

section \<open>The program\<close>

text \<open>
  What the file system answers: the size \<open>stat(2)\<close> reports, the descriptor \<open>open(2)\<close> returns
  and the bytes \<open>mmap(2)\<close> maps.
\<close>

record file_system =
  fs_stat :: "string \<Rightarrow> nat option"
  fs_open :: "string \<Rightarrow> int"
  fs_mmap :: "int \<Rightarrow> nat \<Rightarrow> string option"

definition set404NotFound :: "http_response \<Rightarrow> http_response" where
  "set404NotFound response =
     HttpResponse_setCloseConnection
       (HttpResponse_setBody
         (HttpResponse_setStatusMessage (HttpResponse_setStatusCode response k404NotFound) ''Not Found'')
         ''Not Found'') True"

definition web_prefix :: string where
  "web_prefix = ''/tmp/tmp.epZ6PWHYhj/web''"

text \<open>The part of \<open>httpCallback\<close> that reads the file.\<close>

definition serve_file :: "file_system \<Rightarrow> http_request \<Rightarrow> string \<Rightarrow> http_response \<Rightarrow> http_response" where
  "serve_file fs request filename response1 =
     (case fs_stat fs filename of
        None \<Rightarrow> set404NotFound response1
      | Some st_size \<Rightarrow>
          if filename = [] \<or> fs_open fs filename < 0 then set404NotFound response1
          else (case fs_mmap fs (fs_open fs filename) st_size of
              None \<Rightarrow> set404NotFound response1
            | Some src \<Rightarrow>
                let response2 = HttpResponse_setBody response1 (take st_size src);
                    response3 = HttpResponse_setStatusMessage (HttpResponse_setStatusCode response2 k200OK) ''OK'' in
                HttpResponse_addHeader (HttpResponse_addHeader response3 ''server'' ''tinyWS'')
                  ''User-Agent'' (HttpRequest_getHeader request ''User-Agent'')))"

definition httpCallback :: "file_system \<Rightarrow> http_callback" where
  "httpCallback fs request response =
     (let path = req_path request;
          (filename, response1) =
            (if path = ''/''
             then (web_prefix @ ''/index.html'', HttpResponse_setContentType response ''text/html'')
             else if path = ''/favicon.ico''
             then (web_prefix @ ''/favicon.ico'', HttpResponse_setContentType response ''image/x-icon'')
             else ([], response)) in
      serve_file fs request filename response1)"

text \<open>\<open>main\<close> up to the call of \<open>loop\<close>; \<open>threadNums\<close> is its argument, zero when there is none.\<close>

definition main_setup ::
  "file_system \<Rightarrow> int \<Rightarrow> nat \<Rightarrow> int \<Rightarrow> nat \<Rightarrow> (nat \<Rightarrow> epoll_t) \<Rightarrow> (nat \<Rightarrow> nat) \<Rightarrow> srv_world res" where
  "main_setup fs threadNums loop listenFd acAddr pollers alloc =
     (let server = HttpServer_new loop listenFd (InternetAddress_of_port 8888) ''tinyWS'' acAddr pollers in
      bind_res (HttpServer_setThreadNum threadNums server) (\<lambda>s1.
      bind_res (HttpServer_start alloc s1) (\<lambda>s2.
      Inr (HttpServer_setHttpCallback (Some (httpCallback fs)) s2))))"

section \<open>One request\<close>

text \<open>The response that \<open>onRequest\<close> sends.\<close>

definition response_for :: "http_callback option \<Rightarrow> http_request \<Rightarrow> http_response" where
  "response_for cb req =
     (let r = HttpResponse_new (HttpRequest_getHeader req ''Connection'' = ''close'') in
      case cb of None \<Rightarrow> r | Some f \<Rightarrow> f req r)"

text \<open>A message that the buffers can hold.\<close>

definition sendable :: "http_response \<Rightarrow> conn_world \<Rightarrow> bool" where
  "sendable r w \<longleftrightarrow> length (resp_body r) < 10 ^ 13 \<and> length (render_response r) \<le> 2 ^ 62
     \<and> Buffer_room (tc_outputBuffer w) (length (render_response r))"

text \<open>A connection in use with nothing waiting to be written.\<close>

definition idle_conn :: "conn_world \<Rightarrow> bool" where
  "idle_conn w \<longleftrightarrow> conn_inv w \<and> tc_state w = kConnected \<and> Buffer_content (tc_outputBuffer w) = []"

lemma send_ok:
  assumes "idle_conn w" and "Buffer_room (tc_outputBuffer w) (length m)"
  shows "returns (TcpConnection_send True m w) (\<lambda>w'. conn_inv w' \<and> same_conn w w'
    \<and> out_stream w' = out_stream w @ m \<and> tc_state w' = kConnected)"
  using sendInLoop_ok [OF _ assms(2)] assms(1)
  by (auto simp: idle_conn_def TcpConnection_send_def accepted_def elim!: returns_mono)

lemma shutdown_fields:
  "tc_state w = kConnected \<Longrightarrow> tc_state (TcpConnection_shutdown True w) = kDisconnecting"
  "out_stream (TcpConnection_shutdown True w) = out_stream w"
  "tc_inputBuffer (TcpConnection_shutdown True w) = tc_inputBuffer w"
  "tc_context (TcpConnection_shutdown True w) = tc_context w"
  "conn_inv (TcpConnection_shutdown True w) = conn_inv w"
  "ch_revents (tc_channel (TcpConnection_shutdown True w)) = ch_revents (tc_channel w)"
  by (simp_all add: TcpConnection_shutdown_def TcpConnection_setState_def out_stream_def Let_def)
    (simp_all add: conn_inv_def)

lemma onRequest_eq: "HttpServer_onRequest cb req w =
    bind_res Buffer_new (\<lambda>buffer.
      bind_res (HttpResponse_appendToBuffer (response_for cb req) buffer) (\<lambda>buffer1.
      bind_res (Buffer_toString buffer1) (\<lambda>text.
      bind_res (TcpConnection_send True text w) (\<lambda>w1.
      Inr (if resp_closeConnection (response_for cb req) then TcpConnection_shutdown True w1 else w1)))))"
  by (simp only: HttpServer_onRequest_def response_for_def Let_def)

lemma onRequest_sends:
  assumes "length (resp_body (response_for cb req)) < 10 ^ 13"
    and "length (render_response (response_for cb req)) \<le> 2 ^ 62"
  shows "HttpServer_onRequest cb req w =
    bind_res (TcpConnection_send True (render_response (response_for cb req)) w) (\<lambda>w1.
      Inr (if resp_closeConnection (response_for cb req) then TcpConnection_shutdown True w1 else w1))"
proof -
  let ?r = "response_for cb req"
  from Buffer_new_ok obtain b0 where b0: "Buffer_new = Inr b0" "Buffer_inv b0" "Buffer_content b0 = []"
    "length (buf_store b0) = 1032" by (auto elim: returnsE)
  have "Buffer_room b0 (length (render_response ?r) + 0)" using assms(2) b0(4) by (simp add: Buffer_room_def vec_max_def)
  from appendToBuffer_ok [OF b0(2) assms(1) this] obtain b1 where "HttpResponse_appendToBuffer ?r b0 = Inr b1"
    "Buffer_inv b1" "Buffer_content b1 = render_response ?r" using b0(3) by (auto elim: returnsE)
  then show ?thesis unfolding onRequest_eq b0(1) by simp
qed

lemma onRequest_ok:
  assumes "idle_conn w" and "sendable (response_for cb req) w"
  shows "returns (HttpServer_onRequest cb req w) (\<lambda>w'. conn_inv w'
    \<and> out_stream w' = out_stream w @ render_response (response_for cb req)
    \<and> tc_inputBuffer w' = tc_inputBuffer w \<and> tc_context w' = tc_context w
    \<and> tc_state w' = (if resp_closeConnection (response_for cb req) then kDisconnecting else kConnected))"
proof -
  let ?r = "response_for cb req"
  have b: "length (resp_body ?r) < 10 ^ 13" "length (render_response ?r) \<le> 2 ^ 62"
    "Buffer_room (tc_outputBuffer w) (length (render_response ?r))"
    using assms(2) by (simp_all add: sendable_def)
  from send_ok [OF assms(1) b(3)] show ?thesis
    unfolding onRequest_sends [OF b(1,2)]
    by (auto simp: shutdown_fields same_conn_def returns_iff)
qed

text \<open>A message event, from what the parser makes of the bytes in the input buffer.\<close>

lemma onMessage_waits:
  assumes "Buffer_inv (tc_inputBuffer w)" and "ctx_parsing (tc_context w)" and "ctx_fresh (tc_context w)"
    and "parse_text t (tc_context w) (Buffer_content (tc_inputBuffer w)) = Some (Inr (ctx, left, True))"
    and "ctx_state ctx \<noteq> kGotAll"
  obtains b where "HttpServer_onMessage cb t w = Inr (w\<lparr>tc_context := ctx, tc_inputBuffer := b\<rparr>)"
    and "Buffer_content b = left" and "Buffer_inv b" and "buf_store b = buf_store (tc_inputBuffer w)"
proof -
  from parse_request_outcome [OF assms(1-4)] obtain b where
    "HttpContext_parseRequest (tc_context w) (tc_inputBuffer w) t = Some (Inr (ctx, b, True))"
    "Buffer_content b = left" "Buffer_inv b" "buf_store b = buf_store (tc_inputBuffer w)" .
  with that assms(5) show thesis by (simp add: HttpServer_onMessage_def HttpContext_gotAll_def)
qed

lemma onMessage_complete:
  assumes "Buffer_inv (tc_inputBuffer w)" and "ctx_parsing (tc_context w)" and "ctx_fresh (tc_context w)"
    and "parse_text t (tc_context w) (Buffer_content (tc_inputBuffer w)) = Some (Inr (ctx, left, True))"
    and "ctx_state ctx = kGotAll"
  obtains b where "HttpServer_onMessage cb t w =
      bind_res (HttpServer_onRequest cb (ctx_request ctx) (w\<lparr>tc_context := ctx, tc_inputBuffer := b\<rparr>))
        (\<lambda>w'. Inr (w'\<lparr>tc_context := HttpContext_new\<rparr>))"
    and "Buffer_content b = left" and "Buffer_inv b" and "buf_store b = buf_store (tc_inputBuffer w)"
proof -
  from parse_request_outcome [OF assms(1-4)] obtain b where
    "HttpContext_parseRequest (tc_context w) (tc_inputBuffer w) t = Some (Inr (ctx, b, True))"
    "Buffer_content b = left" "Buffer_inv b" "buf_store b = buf_store (tc_inputBuffer w)" .
  with that assms(5) show thesis by (simp add: HttpServer_onMessage_def HttpContext_gotAll_def)
qed


definition http_demo :: "string \<Rightarrow> conn_world" where
  "http_demo text = (demo_conn slow_kernel 0 kConnected)\<lparr>tc_inputBuffer := text_buffer text\<rparr>"

lemma http_demo_ok:
  "idle_conn (http_demo text)" "tc_context (http_demo text) = HttpContext_new"
  "tc_inputBuffer (http_demo text) = text_buffer text" "out_stream (http_demo text) = []"
  "tc_outputBuffer (http_demo text) = text_buffer []"
  using demo_conn_ok [OF slow_kernel_ok, of 0 kConnected]
  by (simp_all add: http_demo_def idle_conn_def conn_inv_def out_stream_def)

definition empty_fs :: file_system where
  "empty_fs = \<lparr>fs_stat = (\<lambda>f. None), fs_open = (\<lambda>f. -1), fs_mmap = (\<lambda>fd n. None)\<rparr>"


text \<open>
  C35. A malformed request brings the server down: a request line with a known method and no
  version is answered with 400 and the connection is shut down, but only its write side of the
  conversation: whatever bytes the client sends next, reading them fails the assertion that the
  request has no method yet.
\<close>

theorem bad_request_then_abort:
  assumes "idle_conn w" and "tc_context w = HttpContext_new" and "Buffer_inv (tc_inputBuffer w)"
    and "Buffer_content (tc_inputBuffer w) = method_string m @ '' '' @ junk @ CRLF @ rest"
    and "m \<noteq> kInvalid" and "CHR '' '' \<notin> set junk" and "CHR 0x0D \<notin> set junk"
    and "Buffer_room (tc_outputBuffer w) (length bad_request)"
    and "cb_message cbs = Some (HttpServer_onMessage cb)"
    and "bytes \<noteq> []" and "length bytes \<le> extrabuf_size" and "Buffer_room (tc_inputBuffer w) (length bytes)"
  shows "returns (HttpServer_onMessage cb t w) (\<lambda>w'.
    out_stream w' = out_stream w @ bad_request \<and> tc_state w' = kDisconnecting
    \<and> TcpConnection_handleRead cbs t' (Inr bytes) w' = Inl AssertFailed)"
proof -
  obtain ctx b where b: "HttpContext_parseRequest HttpContext_new (tc_inputBuffer w) t = Some (Inr (ctx, b, False))"
    "Buffer_content b = Buffer_content (tc_inputBuffer w)" "Buffer_inv b"
    "buf_store b = buf_store (tc_inputBuffer w)" "ctx_state ctx = kExpectRequestLine"
    "\<forall>x t'. Buffer_inv x \<longrightarrow> prefix (Buffer_content (tc_inputBuffer w)) (Buffer_content x) \<longrightarrow>
      HttpContext_parseRequest ctx x t' = Some (Inl AssertFailed)"
    by (rule rejected_line [OF assms(3,5,6,7,4), of t])
  let ?w = "w\<lparr>tc_context := ctx, tc_inputBuffer := b\<rparr>"
  have idle: "idle_conn ?w" "Buffer_room (tc_outputBuffer ?w) (length bad_request)" "out_stream ?w = out_stream w"
    using assms(1,8) by (simp_all add: idle_conn_def conn_inv_def out_stream_def)
  from send_ok [OF idle(1,2)] idle(3) obtain w1 where w1: "TcpConnection_send True bad_request ?w = Inr w1"
    "out_stream w1 = out_stream w @ bad_request" "tc_state w1 = kConnected" "tc_context w1 = ctx"
    "tc_inputBuffer w1 = b"
    by (auto simp: same_conn_def elim!: returnsE)
  let ?w' = "TcpConnection_shutdown True w1"
  have "HttpServer_onMessage cb t w = Inr ?w'"
    using b w1 assms(2) by (simp add: HttpServer_onMessage_def HttpContext_gotAll_def shutdown_fields)
  moreover have "TcpConnection_handleRead cbs t' (Inr bytes) ?w' = Inl AssertFailed"
  proof -
    have "Buffer_room b (length bytes)" using assms(12) b(4) by (simp add: Buffer_room_def)
    from readFd_ok [OF b(3) this] assms(11) obtain x where x: "Buffer_readFd b (Inr bytes) = Inr (x, None, int (length bytes))"
      "Buffer_inv x" "Buffer_content x = Buffer_content b @ bytes"
      by (auto elim!: returnsE)
    then have "HttpContext_parseRequest ctx x t' = Some (Inl AssertFailed)" using b(2,6) by simp
    then show ?thesis
      using x assms(9,10) w1(4,5)
      by (simp add: TcpConnection_handleRead_def shutdown_fields run_callback_def HttpServer_onMessage_def)
  qed
  ultimately show ?thesis using w1 by (simp add: shutdown_fields)
qed

theorem bad_request_then_abort_witness:
  "returns (HttpServer_onMessage None 3 (http_demo (''GET /'' @ CRLF))) (\<lambda>w'.
     out_stream w' = ''HTTP/1.1 400 Bad Request'' @ CRLF @ CRLF
     \<and> TcpConnection_handleRead (demo_callbacks\<lparr>cb_message := Some (HttpServer_onMessage None)\<rparr>) 4 (Inr ''x'') w'
         = Inl AssertFailed)"
proof -
  let ?w = "http_demo (''GET /'' @ CRLF)"
  have "Buffer_inv (tc_inputBuffer ?w)" "Buffer_room (tc_outputBuffer ?w) (length bad_request)"
    "Buffer_room (tc_inputBuffer ?w) (length ''x'')"
    unfolding http_demo_ok by (simp_all add: bad_request_def demo_room)
  note * = bad_request_then_abort [OF http_demo_ok(1,2) this(1) _ _ _ _ this(2) _ _ _ this(3), where m = kGet and
      junk = "''/''" and rest = "[]" and t' = 4 and cbs = "demo_callbacks\<lparr>cb_message := Some (HttpServer_onMessage None)\<rparr>"]
  show ?thesis
    by (rule returns_mono [OF *]) (simp_all add: http_demo_ok bad_request_def extrabuf_size_def)
qed

section \<open>The two files\<close>

text \<open>The parts of two file systems that the program may look at.\<close>

definition agree_on :: "string \<Rightarrow> file_system \<Rightarrow> file_system \<Rightarrow> bool" where
  "agree_on f fs fs' \<longleftrightarrow> fs_stat fs f = fs_stat fs' f \<and> fs_open fs f = fs_open fs' f
     \<and> fs_mmap fs (fs_open fs' f) = fs_mmap fs' (fs_open fs' f)"

definition not_found_text :: string where
  "not_found_text = ''HTTP/1.1 404 Not Found'' @ CRLF @ ''Connection: close'' @ CRLF @ CRLF @ ''Not Found''"

lemma render_404:
  "resp_headers r = [] \<Longrightarrow> render_response (set404NotFound r) = not_found_text"
proof -
  assume "resp_headers r = []"
  moreover have "dec 404 = ''404''" by code_simp
  ultimately show ?thesis
    by (simp add: render_response_def set404NotFound_def not_found_text_def HttpResponse_setCloseConnection_def
        HttpResponse_setBody_def HttpResponse_setStatusMessage_def HttpResponse_setStatusCode_def)
qed

lemmas response_setters = HttpResponse_setStatusMessage_def HttpResponse_setStatusCode_def
  HttpResponse_setBody_def HttpResponse_addHeader_def HttpResponse_setContentType_def

lemma httpCallback_cases:
  "req_path req = ''/'' \<Longrightarrow> httpCallback fs req r =
     serve_file fs req (web_prefix @ ''/index.html'') (HttpResponse_setContentType r ''text/html'')"
  "req_path req = ''/favicon.ico'' \<Longrightarrow> httpCallback fs req r =
     serve_file fs req (web_prefix @ ''/favicon.ico'') (HttpResponse_setContentType r ''image/x-icon'')"
  "req_path req \<noteq> ''/'' \<Longrightarrow> req_path req \<noteq> ''/favicon.ico'' \<Longrightarrow> httpCallback fs req r = set404NotFound r"
  by (simp_all add: httpCallback_def serve_file_def split: option.split)

lemma serve_file_agree: "agree_on f fs fs' \<Longrightarrow> serve_file fs req f r = serve_file fs' req f r"
  by (auto simp: serve_file_def agree_on_def split: option.split)

lemma serve_index:
  assumes "req_path req = ''/''" and "fs_stat fs (web_prefix @ ''/index.html'') = Some (length page)"
    and "0 \<le> fs_open fs (web_prefix @ ''/index.html'')"
    and "fs_mmap fs (fs_open fs (web_prefix @ ''/index.html'')) (length page) = Some page"
    and "smap_inv (resp_headers r)"
  shows "resp_statusCode (httpCallback fs req r) = k200OK \<and> resp_body (httpCallback fs req r) = page
    \<and> smap_get (resp_headers (httpCallback fs req r)) ''Content-Type'' = Some ''text/html''"
proof -
  have "httpCallback fs req r =
      HttpResponse_addHeader (HttpResponse_addHeader
        (HttpResponse_setStatusMessage (HttpResponse_setStatusCode
          (HttpResponse_setBody (HttpResponse_setContentType r ''text/html'') page) k200OK) ''OK'')
        ''server'' ''tinyWS'') ''User-Agent'' (HttpRequest_getHeader req ''User-Agent'')"
    using assms(2-4) by (simp add: httpCallback_cases(1) [OF assms(1)] serve_file_def web_prefix_def)
  then show ?thesis
    using assms(5) by (simp add: response_setters smap_get_put smap_inv_put)
qed

text \<open>
  C31. The program gives nothing away but two files: the response depends on the file system only
  through \<open>index.html\<close> and \<open>favicon.ico\<close> of the web directory, whatever path is asked for; the
  first is the body of the response to \<open>/\<close> when it can be read, and every other path is answered
  with 404.
\<close>

theorem only_two_files:
  assumes "agree_on (web_prefix @ ''/index.html'') fs fs'" and "agree_on (web_prefix @ ''/favicon.ico'') fs fs'"
  shows "response_for (Some (httpCallback fs)) req = response_for (Some (httpCallback fs')) req
    \<and> (req_path req = ''/'' \<and> fs_stat fs (web_prefix @ ''/index.html'') = Some (length page)
         \<and> 0 \<le> fs_open fs (web_prefix @ ''/index.html'')
         \<and> fs_mmap fs (fs_open fs (web_prefix @ ''/index.html'')) (length page) = Some page \<longrightarrow>
           resp_statusCode (response_for (Some (httpCallback fs)) req) = k200OK
           \<and> resp_body (response_for (Some (httpCallback fs)) req) = page
           \<and> smap_get (resp_headers (response_for (Some (httpCallback fs)) req)) ''Content-Type'' = Some ''text/html'')
    \<and> (req_path req \<noteq> ''/'' \<and> req_path req \<noteq> ''/favicon.ico'' \<longrightarrow>
           render_response (response_for (Some (httpCallback fs)) req) = not_found_text)"
proof (intro conjI impI)
  show "response_for (Some (httpCallback fs)) req = response_for (Some (httpCallback fs')) req"
    using serve_file_agree [OF assms(1)] serve_file_agree [OF assms(2)] httpCallback_cases
    by (cases "req_path req = ''/''"; cases "req_path req = ''/favicon.ico''") (simp_all add: response_for_def)
next
  assume "req_path req \<noteq> ''/'' \<and> req_path req \<noteq> ''/favicon.ico''"
  then have "response_for (Some (httpCallback fs)) req =
      set404NotFound (HttpResponse_new (HttpRequest_getHeader req ''Connection'' = ''close''))"
    by (simp add: response_for_def httpCallback_cases(3))
  then show "render_response (response_for (Some (httpCallback fs)) req) = not_found_text"
    by (simp add: render_404 HttpResponse_new_def)
qed (use serve_index [of req fs page "HttpResponse_new (HttpRequest_getHeader req ''Connection'' = ''close'')"]
    in \<open>simp_all add: response_for_def HttpResponse_new_def\<close>)

definition page_fs :: file_system where
  "page_fs = \<lparr>fs_stat = (\<lambda>f. if f = web_prefix @ ''/index.html'' then Some 2 else None),
     fs_open = (\<lambda>f. 5), fs_mmap = (\<lambda>fd n. Some ''hi'')\<rparr>"

theorem only_two_files_witness:
  "resp_body (response_for (Some (httpCallback page_fs)) (HttpRequest_new\<lparr>req_path := ''/''\<rparr>)) = ''hi''
   \<and> render_response (response_for (Some (httpCallback page_fs)) (HttpRequest_new\<lparr>req_path := ''/etc/passwd''\<rparr>))
       = not_found_text"
  using only_two_files [of page_fs page_fs "HttpRequest_new\<lparr>req_path := ''/''\<rparr>" "''hi''"]
    only_two_files [of page_fs page_fs "HttpRequest_new\<lparr>req_path := ''/etc/passwd''\<rparr>" "[]"]
  by (simp add: agree_on_def page_fs_def numeral_2_eq_2)

end
