(* ===== verification/Http_Session.thy ===== *)
theory Http_Session
  imports HttpServer
begin

text \<open>
  A session from the socket to the HTTP callback and back: the read events of a connection,
  dispatched by its channel to \<open>TcpConnection::handleRead\<close>, into the input buffer, through
  \<open>HttpServer::onMessage\<close> and the parser, and the responses written to the socket. What the
  layers below promise is put together here; no code is modelled in this theory.
\<close>

section \<open>One read event\<close>

text \<open>The callbacks that \<open>TcpServer\<close> gives to a connection of an \<open>HttpServer\<close>.\<close>

definition http_callbacks :: "http_callback option \<Rightarrow> callbacks" where
  "http_callbacks cb =
     \<lparr>cb_connection = Some HttpServer_onConnection, cb_message = Some (HttpServer_onMessage cb),
       cb_close = Some close_callback\<rparr>"

definition read_event :: "http_callback option \<Rightarrow> string \<Rightarrow> conn_world \<Rightarrow> conn_world res" where
  "read_event cb bytes = conn_event (http_callbacks cb) (Inr bytes) EPOLLIN"

text \<open>The channel while it handles a read event, and after it.\<close>

definition reading :: "string \<Rightarrow> buffer_t \<Rightarrow> conn_world \<Rightarrow> conn_world" where
  "reading bytes b w = w\<lparr>tc_channel := (tc_channel w)\<lparr>ch_revents := EPOLLIN, ch_eventHandling := True\<rparr>,
     tc_inputBuffer := b\<rparr>"

lemma EPOLLIN_bits:
  "has_bits EPOLLIN EPOLLIN" "\<not> has_bits EPOLLIN EPOLLOUT" "\<not> has_bits EPOLLIN EPOLLHUP" "\<not> has_bits EPOLLIN EPOLLERR"
  "has_bits EPOLLIN (EPOLLIN OR EPOLLPRI OR EPOLLRDHUP)"
  by (simp_all add: has_bits_def epoll_bits)

lemma read_event_eq:
  assumes "wired (tc_channel w)" and "bytes \<noteq> []"
    and "Buffer_readFd (tc_inputBuffer w) (Inr bytes) = Inr (b, None, int (length bytes))"
    and "HttpServer_onMessage cb 0 (reading bytes b w) = Inr w1"
    and "ch_revents (tc_channel w1) = EPOLLIN"
  shows "read_event cb bytes w = Inr (w1\<lparr>tc_channel := (tc_channel w1)\<lparr>ch_eventHandling := False\<rparr>\<rparr>)"
proof -
  let ?w = "w\<lparr>tc_channel := (tc_channel w)\<lparr>ch_revents := EPOLLIN, ch_eventHandling := True\<rparr>\<rparr>"
  have "TcpConnection_handleRead (http_callbacks cb) 0 (Inr bytes) ?w = Inr w1"
    using assms(2-4) by (simp add: TcpConnection_handleRead_def http_callbacks_def run_callback_def reading_def)
  then show ?thesis
    using assms(1,5) EPOLLIN_bits
    by (auto simp: read_event_def conn_event_def Channel_handleEvent_def Channel_handleEventWithGuard_def
        wired_def Channel_setRevents_def call_if_def TcpConnection_call_def split: option.splits)
qed

section \<open>A session\<close>

text \<open>A kernel whose socket buffer never fills.\<close>

definition takes_all :: "(nat \<Rightarrow> nat \<Rightarrow> write_answer) \<Rightarrow> bool" where
  "takes_all k \<longleftrightarrow> (\<forall>i len. k i len = Wrote len)"

lemma takes_all_some: "takes_all k \<Longrightarrow> takes_some k"
  by (simp add: takes_all_def takes_some_def)

text \<open>The bytes that wait in the output buffer.\<close>

abbreviation pending :: "conn_world \<Rightarrow> string" where
  "pending w \<equiv> Buffer_content (tc_outputBuffer w)"

text \<open>
  A connection between two events: the kernel, what the parser has got to and what it has left
  unread, and the room in the two buffers.
\<close>

definition in_session ::
  "(nat \<Rightarrow> nat \<Rightarrow> write_answer) \<Rightarrow> http_context \<Rightarrow> string \<Rightarrow> nat \<Rightarrow> nat \<Rightarrow> conn_world \<Rightarrow> bool" where
  "in_session k ctx left n m w \<longleftrightarrow> conn_inv w \<and> tc_state w = kConnected \<and> wired (tc_channel w) \<and> cw_kernel w = k
     \<and> tc_context w = ctx \<and> Buffer_inv (tc_inputBuffer w) \<and> Buffer_content (tc_inputBuffer w) = left
     \<and> Buffer_room (tc_inputBuffer w) n \<and> Buffer_room (tc_outputBuffer w) m"

definition stays_open :: "http_response \<Rightarrow> bool" where
  "stays_open r \<longleftrightarrow> \<not> resp_closeConnection r \<and> length (resp_body r) < 10 ^ 13 \<and> length (render_response r) \<le> 2 ^ 62"

lemma in_session_fields [simp]:
  "in_session k ctx left n m (w\<lparr>tc_channel := (tc_channel w)\<lparr>ch_revents := r, ch_eventHandling := h\<rparr>\<rparr>)
     = in_session k ctx left n m w"
  "in_session k ctx left n m (w\<lparr>tc_channel := (tc_channel w)\<lparr>ch_eventHandling := h\<rparr>\<rparr>) = in_session k ctx left n m w"
  "out_stream (w\<lparr>tc_channel := c\<rparr>) = out_stream w"
  by (simp_all add: in_session_def conn_inv_def wired_def Channel_isWriting_def out_stream_def)

lemma read_appends:
  assumes "in_session k ctx left (length bytes + n) m w" and "length bytes \<le> extrabuf_size"
  obtains b where "Buffer_readFd (tc_inputBuffer w) (Inr bytes) = Inr (b, None, int (length bytes))"
    and "Buffer_inv b" and "Buffer_content b = left @ bytes" and "Buffer_room b n"
proof -
  have "Buffer_inv (tc_inputBuffer w)" "Buffer_room (tc_inputBuffer w) (length bytes)"
    using assms(1) by (simp_all add: in_session_def Buffer_room_def)
  from readFd_ok [OF this] assms(2) that show thesis
    using assms(1) by (auto simp: in_session_def Buffer_room_def elim!: returnsE)
qed

text \<open>An arrival that leaves the request incomplete, and one that completes it.\<close>

lemma event_waits:
  assumes s: "in_session k ctx left (length bytes + n) m w" and p: "ctx_parsing ctx" "ctx_fresh ctx"
    and "bytes \<noteq> []" and "length bytes \<le> extrabuf_size"
    and "parse_text 0 ctx (left @ bytes) = Some (Inr (ctx', left', True))" and "ctx_state ctx' \<noteq> kGotAll"
  shows "returns (read_event cb bytes w) (\<lambda>w'. in_session k ctx' left' n m w' \<and> cw_wire w' = cw_wire w
    \<and> pending w' = pending w)"
proof -
  from read_appends [OF s assms(5)] obtain b where b:
    "Buffer_readFd (tc_inputBuffer w) (Inr bytes) = Inr (b, None, int (length bytes))"
    "Buffer_inv b" "Buffer_content b = left @ bytes" "Buffer_room b n" .
  let ?w = "reading bytes b w"
  have w: "tc_inputBuffer ?w = b" "tc_context ?w = ctx" "wired (tc_channel w)"
    using s by (simp_all add: reading_def in_session_def)
  have "Buffer_inv (tc_inputBuffer ?w)" "ctx_parsing (tc_context ?w)" "ctx_fresh (tc_context ?w)"
    "parse_text 0 (tc_context ?w) (Buffer_content (tc_inputBuffer ?w)) = Some (Inr (ctx', left', True))"
    unfolding w(1,2) using b p assms(6) by simp_all
  from onMessage_waits [OF this assms(7)] obtain b' where b':
    "HttpServer_onMessage cb 0 ?w = Inr (?w\<lparr>tc_context := ctx', tc_inputBuffer := b'\<rparr>)"
    "Buffer_content b' = left'" "Buffer_inv b'" "buf_store b' = buf_store b"
    unfolding w(1) .
  have "Buffer_room b' n" using b(4) b'(4) by (simp add: Buffer_room_def)
  then show ?thesis
    using b' s by (subst read_event_eq [OF w(3) assms(4) b(1) b'(1)])
      (auto simp: reading_def in_session_def conn_inv_def wired_def Channel_isWriting_def)
qed

lemma send_response:
  assumes "conn_inv w" and "tc_state w = kConnected" and "pending w = []" and "Buffer_room (tc_outputBuffer w) (length m + n)"
  shows "returns (TcpConnection_send True m w) (\<lambda>w'. conn_inv w' \<and> same_conn w w' \<and> tc_state w' = kConnected
    \<and> out_stream w' = cw_wire w @ m \<and> Buffer_room (tc_outputBuffer w') n
    \<and> (takes_all (cw_kernel w) \<longrightarrow> pending w' = []) \<and> length (pending w') \<le> length m)"
proof -
  have "Buffer_room (tc_outputBuffer w) (length m)" using assms(4) by (simp add: Buffer_room_def)
  from sendInLoop_ok [OF assms(1) this] obtain w' where w': "TcpConnection_sendInLoop m w = Inr w'" "conn_inv w'"
    "same_conn w w'" "out_stream w' = cw_wire w @ m" "tc_state w' = kConnected"
    "length (buf_store (tc_outputBuffer w')) \<le> length (buf_store (tc_outputBuffer w)) + length m"
    using assms(2,3) by (auto simp: accepted_def out_stream_def elim!: returnsE)
  moreover have "Buffer_room (tc_outputBuffer w') n" using assms(4) w'(6) by (simp add: Buffer_room_def)
  moreover obtain s where "cw_wire w' = cw_wire w @ s" using sendInLoop_wire [OF w'(1)] by blast
  moreover have "pending w' = []" if "takes_all (cw_kernel w)"
    using w'(1) that assms(1,3)
    by (auto simp: takes_all_def conn_inv_def TcpConnection_sendInLoop_def sys_write_def queue_functor_def split: if_splits)
  ultimately show ?thesis
    using assms(2) by (auto simp: TcpConnection_send_def out_stream_def dest: arg_cong [where f = length])
qed

lemma event_answers:
  assumes s: "in_session k ctx left (length bytes + n) (length (render_response (response_for cb (ctx_request ctx'))) + m) w"
    and p: "ctx_parsing ctx" "ctx_fresh ctx" and "bytes \<noteq> []" and "length bytes \<le> extrabuf_size"
    and "parse_text 0 ctx (left @ bytes) = Some (Inr (ctx', left', True))" and "ctx_state ctx' = kGotAll"
    and r: "stays_open (response_for cb (ctx_request ctx'))" and "pending w = []"
  shows "returns (read_event cb bytes w) (\<lambda>w'. in_session k HttpContext_new left' n m w'
    \<and> out_stream w' = cw_wire w @ render_response (response_for cb (ctx_request ctx'))
    \<and> (takes_all k \<longrightarrow> pending w' = [])
    \<and> length (pending w') \<le> length (render_response (response_for cb (ctx_request ctx'))))"
proof -
  let ?r = "response_for cb (ctx_request ctx')"
  from read_appends [OF s assms(5)] obtain b where b:
    "Buffer_readFd (tc_inputBuffer w) (Inr bytes) = Inr (b, None, int (length bytes))"
    "Buffer_inv b" "Buffer_content b = left @ bytes" "Buffer_room b n" .
  let ?w = "reading bytes b w"
  have w: "tc_inputBuffer ?w = b" "tc_context ?w = ctx" "wired (tc_channel w)"
    using s by (simp_all add: reading_def in_session_def)
  have "Buffer_inv (tc_inputBuffer ?w)" "ctx_parsing (tc_context ?w)" "ctx_fresh (tc_context ?w)"
    "parse_text 0 (tc_context ?w) (Buffer_content (tc_inputBuffer ?w)) = Some (Inr (ctx', left', True))"
    unfolding w(1,2) using b p assms(6) by simp_all
  from onMessage_complete [OF this assms(7), of cb] obtain b' where b':
    "HttpServer_onMessage cb 0 ?w = bind_res (HttpServer_onRequest cb (ctx_request ctx')
        (?w\<lparr>tc_context := ctx', tc_inputBuffer := b'\<rparr>)) (\<lambda>w'. Inr (w'\<lparr>tc_context := HttpContext_new\<rparr>))"
    "Buffer_content b' = left'" "Buffer_inv b'" "buf_store b' = buf_store b"
    unfolding w(1) .
  let ?w1 = "?w\<lparr>tc_context := ctx', tc_inputBuffer := b'\<rparr>"
  have "conn_inv ?w1" "tc_state ?w1 = kConnected" "pending ?w1 = []"
    "Buffer_room (tc_outputBuffer ?w1) (length (render_response ?r) + m)"
    using s assms(9) by (auto simp: reading_def in_session_def conn_inv_def Channel_isWriting_def)
  from send_response [OF this] obtain w2 where w2: "TcpConnection_send True (render_response ?r) ?w1 = Inr w2"
    "conn_inv w2" "same_conn ?w1 w2" "tc_state w2 = kConnected" "out_stream w2 = cw_wire ?w1 @ render_response ?r"
    "Buffer_room (tc_outputBuffer w2) m" "takes_all (cw_kernel ?w1) \<Longrightarrow> pending w2 = []"
    "length (pending w2) \<le> length (render_response ?r)"
    by (auto elim: returnsE)
  have m: "HttpServer_onMessage cb 0 ?w = Inr (w2\<lparr>tc_context := HttpContext_new\<rparr>)"
    using r w2(1) by (simp add: b'(1) onRequest_sends stays_open_def)
  have same: "ch_revents (tc_channel w2) = EPOLLIN" "wired (tc_channel w2)" "cw_kernel w2 = k" "tc_inputBuffer w2 = b'"
    "cw_wire ?w1 = cw_wire w" "cw_kernel ?w1 = k"
    using s w2(3) by (simp_all add: same_conn_def reading_def in_session_def wired_def)
  have "Buffer_room b' n" using b(4) b'(4) by (simp add: Buffer_room_def)
  moreover have "in_session k HttpContext_new left' n m (w2\<lparr>tc_context := HttpContext_new\<rparr>)"
    using w2 same b' calculation by (simp add: in_session_def conn_inv_def)
  ultimately show ?thesis
    using w2 same in_session_fields(2) [of k HttpContext_new left' n m False "w2\<lparr>tc_context := HttpContext_new\<rparr>"]
    by (subst read_event_eq [OF w(3) assms(4) b(1) m]) (simp_all add: out_stream_def)
qed

text \<open>A write event, and enough of them to empty the output buffer.\<close>

definition write_event :: "http_callback option \<Rightarrow> conn_world \<Rightarrow> conn_world res" where
  "write_event cb = conn_event (http_callbacks cb) (Inr []) EPOLLOUT"

lemma EPOLLOUT_bits:
  "has_bits EPOLLOUT EPOLLOUT" "\<not> has_bits EPOLLOUT EPOLLIN" "\<not> has_bits EPOLLOUT EPOLLHUP" "\<not> has_bits EPOLLOUT EPOLLERR"
  "\<not> has_bits EPOLLOUT (EPOLLIN OR EPOLLPRI OR EPOLLRDHUP)"
  by (simp_all add: has_bits_def epoll_bits)

lemma write_event_ok:
  assumes s: "in_session k ctx left n m w" and "takes_some k"
  shows "returns (write_event cb w) (\<lambda>w'. in_session k ctx left n m w' \<and> out_stream w' = out_stream w
    \<and> (pending w' = [] \<or> length (pending w') < length (pending w)))"
proof -
  let ?w = "w\<lparr>tc_channel := (tc_channel w)\<lparr>ch_revents := EPOLLOUT, ch_eventHandling := True\<rparr>\<rparr>"
  have in_w: "in_session k ctx left n m ?w" using s by simp
  then have "conn_inv ?w" by (simp add: in_session_def)
  from handleWrite_ok [OF this] obtain w1 where w1: "TcpConnection_handleWrite ?w = Inr w1" "conn_inv w1" "same_conn ?w w1"
    "out_stream w1 = out_stream ?w" "tc_state w1 = tc_state ?w"
    "length (buf_store (tc_outputBuffer w1)) = length (buf_store (tc_outputBuffer w))"
    by (auto elim!: returnsE)
  have "write_event cb w = Inr (w1\<lparr>tc_channel := (tc_channel w1)\<lparr>ch_eventHandling := False\<rparr>\<rparr>)"
    using s w1(1,3) EPOLLOUT_bits
    by (auto simp: write_event_def conn_event_def Channel_handleEvent_def Channel_handleEventWithGuard_def in_session_def
        wired_def Channel_setRevents_def call_if_def TcpConnection_call_def same_conn_def split: option.splits)
  moreover have "in_session k ctx left n m w1"
    using in_w w1 by (simp add: in_session_def same_conn_def Buffer_room_def)
  moreover have "pending w1 = [] \<or> length (pending w1) < length (pending w)"
  proof (cases "pending w = []")
    case True
    then have "TcpConnection_handleWrite ?w = Inr ?w"
      using \<open>conn_inv ?w\<close> by (simp add: TcpConnection_handleWrite_def conn_inv_def)
    with w1(1) True show ?thesis by auto
  next
    case False
    with handleWrite_progress [OF \<open>conn_inv ?w\<close> _ _ w1(1)] in_w assms(2) show ?thesis by (simp add: in_session_def)
  qed
  ultimately show ?thesis using w1(4) by simp
qed

section \<open>Any number of requests, cut anywhere\<close>

type_synonym http_msg = "http_method \<times> string \<times> string \<times> (string \<times> string) list"

definition msg_text :: "http_msg \<Rightarrow> string" where
  "msg_text r = (case r of (m, path, query, hs) \<Rightarrow> render_request m path query hs)"

definition wf_msg :: "http_msg \<Rightarrow> bool" where
  "wf_msg r \<longleftrightarrow> (case r of (m, path, query, hs) \<Rightarrow> m \<noteq> kInvalid \<and> wf_target path query \<and> list_all wf_header hs)"

definition response_to :: "http_callback option \<Rightarrow> http_msg \<Rightarrow> http_response" where
  "response_to cb r = (case r of (m, path, query, hs) \<Rightarrow> response_for cb (parsed_request 0 m path query hs))"

definition reply :: "http_callback option \<Rightarrow> http_msg \<Rightarrow> string" where
  "reply cb r = render_response (response_to cb r)"

text \<open>The bytes of a request as the reads deliver them.\<close>

definition arrivals :: "string \<Rightarrow> string list \<Rightarrow> bool" where
  "arrivals s ps \<longleftrightarrow> concat ps = s \<and> list_all (\<lambda>p. p \<noteq> [] \<and> length p \<le> extrabuf_size) ps"

text \<open>
  One request: the reads that deliver it, and the write events before the next request arrives,
  which are none for a socket that takes all.
\<close>

fun serve_one :: "http_callback option \<Rightarrow> string list \<times> nat \<Rightarrow> conn_world \<Rightarrow> conn_world res" where
  "serve_one cb (ps, j) w = bind_res (fold_res (read_event cb) ps w) (fold_res (\<lambda>_. write_event cb) (replicate j ()))"

definition delivered :: "http_callback option \<Rightarrow> (nat \<Rightarrow> nat \<Rightarrow> write_answer) \<Rightarrow> http_msg \<Rightarrow> string list \<times> nat \<Rightarrow> bool" where
  "delivered cb k r e \<longleftrightarrow> arrivals (msg_text r) (fst e) \<and> (takes_all k \<or> length (reply cb r) \<le> snd e)"

section \<open>A connection on its way through a session\<close>

text \<open>The same as a list of single events.\<close>

datatype client_event = Arrives string | Drains

fun client_step :: "http_callback option \<Rightarrow> client_event \<Rightarrow> conn_world \<Rightarrow> conn_world res" where
  "client_step cb (Arrives bytes) = read_event cb bytes"
| "client_step cb Drains = write_event cb"

fun script :: "(string list \<times> nat) list \<Rightarrow> client_event list" where
  "script [] = []"
| "script ((ps, j) # es) = map Arrives ps @ replicate j Drains @ script es"

lemma fold_script: "fold_res (client_step cb) (script es) w = fold_res (serve_one cb) es w"
proof (induction es arbitrary: w)
  case (Cons e es)
  obtain ps j where e: "e = (ps, j)" by (cases e)
  have "fold_res (client_step cb) (map Arrives ps) = fold_res (read_event cb) ps"
    by (induction ps) (auto intro!: ext)
  moreover have "fold_res (client_step cb) (replicate j Drains) = fold_res (\<lambda>_. write_event cb) (replicate j ())"
    by (induction j) (auto intro!: ext)
  moreover have "fold_res (client_step cb) (script es) = fold_res (serve_one cb) es" using Cons.IH by (rule ext)
  ultimately show ?case
    by (simp add: e fold_res_append bind_res_assoc fold_res_append [of _ "replicate j Drains", abs_def])
qed simp

definition to_come ::
  "http_callback option \<Rightarrow> (nat \<Rightarrow> nat \<Rightarrow> write_answer) \<Rightarrow> http_msg list \<Rightarrow> (string list \<times> nat) list \<Rightarrow> bool" where
  "to_come cb k rs es \<longleftrightarrow> list_all wf_msg rs \<and> list_all (\<lambda>r. stays_open (response_to cb r)) rs
     \<and> list_all2 (delivered cb k) rs es"

definition texts :: "http_msg list \<Rightarrow> nat" where
  "texts rs = length (concat (map msg_text rs))"

definition replies :: "http_callback option \<Rightarrow> http_msg list \<Rightarrow> string" where
  "replies cb rs = concat (map (reply cb) rs)"

text \<open>
  A connection with the events that are still to come, on its way to have \<open>W\<close> on the wire: it
  waits for the next request while what is left of the last reply drains, or it is in the middle
  of a request, of which \<open>u\<close> has arrived.
\<close>

inductive on_track ::
  "http_callback option \<Rightarrow> (nat \<Rightarrow> nat \<Rightarrow> write_answer) \<Rightarrow> string \<Rightarrow> client_event list \<Rightarrow> conn_world \<Rightarrow> bool" for cb k W where
  awaiting: "in_session k HttpContext_new [] (texts rs) (length (replies cb rs)) w \<Longrightarrow>
    pending w = [] \<or> length (pending w) \<le> j \<Longrightarrow> to_come cb k rs es \<Longrightarrow> W = out_stream w @ replies cb rs \<Longrightarrow>
    on_track cb k W (replicate j Drains @ script es) w"
| receiving: "msg_text r = u @ concat ps \<Longrightarrow> ps \<noteq> [] \<Longrightarrow> list_all (\<lambda>p. p \<noteq> [] \<and> length p \<le> extrabuf_size) ps \<Longrightarrow>
    parse_text 0 HttpContext_new u = Some (Inr (ctx, left, True)) \<Longrightarrow>
    in_session k ctx left (length (concat ps) + texts rs) (length (reply cb r) + length (replies cb rs)) w \<Longrightarrow>
    pending w = [] \<Longrightarrow> to_come cb k (r # rs) ((qs, j) # es) \<Longrightarrow> W = cw_wire w @ reply cb r @ replies cb rs \<Longrightarrow>
    on_track cb k W (map Arrives ps @ replicate j Drains @ script es) w"

text \<open>A write event while nothing is read, and a read event.\<close>

lemma awaiting_drains:
  assumes "in_session k HttpContext_new [] (texts rs) (length (replies cb rs)) w" and "takes_some k"
    and "pending w = [] \<or> length (pending w) \<le> Suc j" and "to_come cb k rs es" and "W = out_stream w @ replies cb rs"
  shows "returns (write_event cb w) (on_track cb k W (replicate j Drains @ script es))"
proof (rule returns_mono [OF write_event_ok [OF assms(1,2)]], elim conjE)
  fix w' assume w': "in_session k HttpContext_new [] (texts rs) (length (replies cb rs)) w'" "out_stream w' = out_stream w"
    "pending w' = [] \<or> length (pending w') < length (pending w)"
  have "pending w' = [] \<or> length (pending w') \<le> j" using w'(3) assms(3) by auto
  then show "on_track cb k W (replicate j Drains @ script es) w'"
    using w'(1,2) assms(4,5) by (auto intro: on_track.awaiting)
qed

lemma receiving_arrives:
  assumes "msg_text r = u @ concat (p # ps)" and "list_all (\<lambda>p. p \<noteq> [] \<and> length p \<le> extrabuf_size) (p # ps)"
    and "parse_text 0 HttpContext_new u = Some (Inr (ctx, left, True))"
    and "in_session k ctx left (length (concat (p # ps)) + texts rs) (length (reply cb r) + length (replies cb rs)) w"
    and "pending w = []" and come: "to_come cb k (r # rs) ((qs, j) # es)" and W: "W = cw_wire w @ reply cb r @ replies cb rs"
  shows "returns (read_event cb p w) (on_track cb k W (map Arrives ps @ replicate j Drains @ script es))"
proof -
  obtain meth path query hs where r: "r = (meth, path, query, hs)" by (cases r)
  have wf: "meth \<noteq> kInvalid" "wf_target path query" "list_all wf_header hs" and open': "stays_open (response_to cb r)"
    and drains: "takes_all k \<or> length (reply cb r) \<le> j" and rest: "to_come cb k rs es"
    using come by (simp_all add: to_come_def r wf_msg_def delivered_def)
  have parts: "u @ (p @ concat ps) = render_request meth path query hs" "p @ concat ps \<noteq> []"
    "p \<noteq> []" "length p \<le> extrabuf_size"
    using assms(1,2) by (simp_all add: r msg_text_def)
  from parse_prefix [OF parts(1,2) wf, of 0] assms(3) have p: "ctx_parsing ctx" "ctx_fresh ctx"
    and app: "\<And>zs. parse_text 0 HttpContext_new (u @ zs) = parse_text 0 ctx (left @ zs)"
    by auto
  show ?thesis
  proof (cases "ps = []")
    case True
    let ?ctx = "\<lparr>ctx_state = kGotAll, ctx_request = parsed_request 0 meth path query hs\<rparr>"
    have parse: "parse_text 0 ctx (left @ p) = Some (Inr (?ctx, [], True))"
      using parse_rendered [OF wf, of 0 "[]"] parts(1) True by (simp flip: app)
    have resp: "response_for cb (ctx_request ?ctx) = response_to cb r" by (simp add: r response_to_def)
    have "in_session k ctx left (length p + texts rs)
        (length (render_response (response_for cb (ctx_request ?ctx))) + length (replies cb rs)) w"
      using assms(4) True unfolding resp reply_def [symmetric] by simp
    note answer = event_answers [OF this p parts(3,4) parse _ _ assms(5), unfolded resp, folded reply_def]
    have "returns (read_event cb p w) (\<lambda>w'. in_session k HttpContext_new [] (texts rs) (length (replies cb rs)) w'
        \<and> out_stream w' = cw_wire w @ reply cb r \<and> (takes_all k \<longrightarrow> pending w' = [])
        \<and> length (pending w') \<le> length (reply cb r))"
      by (rule answer) (simp_all add: open')
    then show ?thesis
      by (rule returns_mono) (use True W drains rest in \<open>auto intro!: on_track.awaiting\<close>)
  next
    case False
    with assms(2) have "concat ps \<noteq> []" by (cases ps) auto
    with parts(1) have pre: "(u @ p) @ concat ps = render_request meth path query hs" "concat ps \<noteq> []" by simp_all
    from parse_prefix [OF pre wf, of 0] obtain ctx' left' where
      c: "parse_text 0 HttpContext_new (u @ p) = Some (Inr (ctx', left', True))" "ctx_state ctx' \<noteq> kGotAll" by metis
    have sess: "in_session k ctx left (length p + (length (concat ps) + texts rs)) (length (reply cb r) + length (replies cb rs)) w"
      using assms(4) by (simp add: add.assoc)
    have "returns (read_event cb p w) (\<lambda>w'. in_session k ctx' left' (length (concat ps) + texts rs)
        (length (reply cb r) + length (replies cb rs)) w' \<and> cw_wire w' = cw_wire w \<and> pending w' = pending w)"
      using c by (intro event_waits [OF sess p parts(3,4)]) (simp_all add: app)
    then show ?thesis
      by (rule returns_mono)
        (use assms(1,2,5) False W come c(1) in \<open>auto intro!: on_track.receiving [where u = "u @ p" and qs = qs]\<close>)
  qed
qed

text \<open>Every event of the script succeeds and brings the connection on.\<close>

lemma on_track_step:
  assumes "on_track cb k W (e # evs) w" and "takes_some k"
  shows "returns (client_step cb e w) (on_track cb k W evs)"
  using assms(1)
proof (cases rule: on_track.cases)
  case (awaiting rs j es)
  show ?thesis
  proof (cases j)
    case (Suc i)
    with awaiting(1) have ev: "e = Drains" "evs = replicate i Drains @ script es" by simp_all
    have "pending w = [] \<or> length (pending w) \<le> Suc i" using awaiting(3) Suc by simp
    from awaiting_drains [OF awaiting(2) assms(2) this awaiting(4,5)] show ?thesis by (simp add: ev)
  next
    case 0
    then obtain ps i es' where es: "es = (ps, i) # es'" using awaiting(1) by (cases es) auto
    then obtain r rs' where rs: "rs = r # rs'" using awaiting(4) by (cases rs) (simp_all add: to_come_def)
    have d: "concat ps = msg_text r" "list_all (\<lambda>p. p \<noteq> [] \<and> length p \<le> extrabuf_size) ps"
      using awaiting(4) by (simp_all add: es rs to_come_def delivered_def arrivals_def)
    have "msg_text r \<noteq> []" by (cases r) (simp add: msg_text_def render_request_def)
    then obtain p ps' where ps: "ps = p # ps'" using d(1) by (cases ps) auto
    have ev: "e = Arrives p" "evs = map Arrives ps' @ replicate i Drains @ script es'"
      using awaiting(1) 0 by (simp_all add: es ps)
    have empty: "parse_text 0 HttpContext_new [] = Some (Inr (HttpContext_new, [], True))"
      by (simp add: parse_text.simps [of 0 _ "[]"] HttpContext_new_def)
    have "pending w = []" using awaiting(3) 0 by auto
    moreover have "in_session k HttpContext_new [] (length (concat (p # ps')) + texts rs')
        (length (reply cb r) + length (replies cb rs')) w"
      using awaiting(2) d(1) by (simp add: rs ps texts_def replies_def)
    moreover have "msg_text r = [] @ concat (p # ps')" "W = cw_wire w @ reply cb r @ replies cb rs'"
      using d(1) awaiting(5) calculation(1) by (simp_all add: ps rs replies_def out_stream_def)
    ultimately show ?thesis
      using receiving_arrives [OF _ d(2) [unfolded ps] empty _ _ awaiting(4) [unfolded rs es], of w W] by (simp add: ev)
  qed
next
  case (receiving r u ps ctx left rs qs j es)
  then obtain p ps' where ps: "ps = p # ps'" by (cases ps) auto
  have ev: "e = Arrives p" "evs = map Arrives ps' @ replicate j Drains @ script es"
    using receiving(1) by (simp_all add: ps)
  show ?thesis
    using receiving_arrives [OF receiving(2,4) [unfolded ps] receiving(5,6) [unfolded ps] receiving(7,8,9)] by (simp add: ev)
qed

lemma on_track_run:
  assumes "on_track cb k W (evs @ evs') w" and "takes_some k"
  shows "returns (fold_res (client_step cb) evs w) (on_track cb k W evs')"
  using assms(1)
proof (induction evs arbitrary: w)
  case (Cons e evs)
  then have "on_track cb k W (e # (evs @ evs')) w" by simp
  from on_track_step [OF this assms(2)] show ?case
    unfolding fold_res.simps by (rule returns_bind) (rule Cons.IH)
qed simp

text \<open>What holds on the way, and at the end.\<close>

lemma on_track_state:
  assumes "on_track cb k W evs w"
  shows "\<exists>ctx left n m. in_session k ctx left n m w" and "\<exists>rest. W = out_stream w @ rest"
  using assms by (auto elim!: on_track.cases simp: out_stream_def)

lemma nothing_to_come:
  assumes "to_come cb k rs es" and "script es = []"
  shows "rs = []"
proof (rule ccontr)
  assume "rs \<noteq> []"
  then obtain r rs' where rs: "rs = r # rs'" by (cases rs) auto
  then obtain ps j es' where es: "es = (ps, j) # es'" using assms(1) by (cases es) (auto simp: to_come_def)
  have "concat ps = msg_text r" using assms(1) by (simp add: es rs to_come_def delivered_def arrivals_def)
  moreover have "msg_text r \<noteq> []" by (cases r) (simp add: msg_text_def render_request_def)
  ultimately show False using assms(2) by (auto simp: es)
qed

lemma on_track_end:
  assumes "on_track cb k W [] w"
  shows "in_session k HttpContext_new [] 0 0 w \<and> cw_wire w = W \<and> pending w = []"
  using assms
proof (cases rule: on_track.cases)
  case (awaiting rs j es)
  then have "rs = []" using nothing_to_come [OF awaiting(4)] by simp
  with awaiting show ?thesis by (auto simp: texts_def replies_def out_stream_def)
qed simp


text \<open>
  Two requests in four reads, the second of them cut inside a CRLF, on a socket that takes nine
  bytes of each write.
\<close>

definition path_callback :: http_callback where
  "path_callback req r =
     HttpResponse_setStatusMessage (HttpResponse_setStatusCode (HttpResponse_setBody r (req_path req)) k200OK) ''OK''"

definition narrow_kernel :: "nat \<Rightarrow> nat \<Rightarrow> write_answer" where
  "narrow_kernel i len = Wrote (min 9 len)"

definition two_requests :: "http_msg list" where
  "two_requests = [(kGet, ''/a'', [], [(''Host'', ''h'')]), (kHead, ''/b'', ''?x=1'', [])]"

definition two_arrivals :: "(string list \<times> nat) list" where
  "two_arrivals = [([''GET /a HTT'', ''P/1.1'' @ CRLF @ ''Host: h'' @ [CHR 0x0D], [CHR 0x0A] @ CRLF], 70),
     ([''HEAD /b?x=1 HTTP/1.1'' @ CRLF @ CRLF], 70)]"

lemma narrow_conn_ok:
  "idle_conn (demo_conn narrow_kernel 0 kConnected)" "takes_some (cw_kernel (demo_conn narrow_kernel 0 kConnected))"
  using demo_conn_ok [of narrow_kernel 0 kConnected]
  by (simp_all add: idle_conn_def takes_some_def kernel_ok_def narrow_kernel_def)
    (simp add: demo_conn_def narrow_kernel_def)


end
