(* ===== verification/Http_Typing.thy ===== *)
theory Http_Typing
  imports Http_Response
begin

text \<open>
  What the parser of \<open>http/HttpContext.cpp\<close> guarantees of a request, as a type that every call
  of \<open>parseRequest\<close> preserves, and what the server's answers owe to it: the bytes of a request
  that the server writes back cannot make one response look like two.
\<close>

section \<open>Lines\<close>

definition one_line :: "string \<Rightarrow> bool" where
  "one_line s \<longleftrightarrow> \<not> sublist CRLF s"

lemma one_line_sublist: "one_line s \<Longrightarrow> sublist t s \<Longrightarrow> one_line t"
  by (auto simp: one_line_def dest: sublist_order.order_trans)

lemma one_line_take: "one_line s \<Longrightarrow> one_line (take n s)"
  by (erule one_line_sublist) (rule sublist_take)

lemma one_line_drop: "one_line s \<Longrightarrow> one_line (drop n s)"
  by (erule one_line_sublist) (rule sublist_drop)

lemma one_line_Nil [simp]: "one_line []"
  by (simp add: one_line_def)

lemma one_line_Cons:
  "one_line (c # s) \<longleftrightarrow> \<not> (c = CHR 0x0D \<and> s \<noteq> [] \<and> hd s = CHR 0x0A) \<and> one_line s"
  by (cases s) (auto simp: one_line_def sublist_Cons_right)

lemma one_line_append:
  assumes "one_line xs" and "one_line ys" and "ys = [] \<or> hd ys \<noteq> CHR 0x0A"
  shows "one_line (xs @ ys)"
  using assms by (induction xs) (auto simp: one_line_Cons hd_append)

lemma first_line: "one_line (take (search_in s CRLF) s)"
proof (induction s)
  case Nil
  then show ?case by simp
next
  case (Cons c s)
  then show ?case by (cases s) (auto simp: one_line_Cons)
qed

lemma search_line: "one_line line \<Longrightarrow> search_in (line @ CRLF @ rest) CRLF = length line"
proof (induction line)
  case (Cons c line)
  then show ?case by (cases line) (auto simp: one_line_Cons)
qed simp

section \<open>The type of a request\<close>

definition typed_header :: "string \<times> string \<Rightarrow> bool" where
  "typed_header h \<longleftrightarrow> CHR '':'' \<notin> set (fst h) \<and> one_line (fst h) \<and> one_line (snd h) \<and> trimmed (snd h)"

definition typed_target :: "http_request \<Rightarrow> bool" where
  "typed_target r \<longleftrightarrow> CHR '' '' \<notin> set (req_path r) \<and> CHR ''?'' \<notin> set (req_path r) \<and> one_line (req_path r)
     \<and> CHR '' '' \<notin> set (req_query r) \<and> one_line (req_query r)
     \<and> (req_query r = [] \<or> hd (req_query r) = CHR ''?'')"

definition typed_request :: "http_request \<Rightarrow> bool" where
  "typed_request r \<longleftrightarrow> req_method r \<noteq> kInvalid \<and> typed_target r
     \<and> smap_inv (req_headers r) \<and> list_all typed_header (req_headers r)"

text \<open>The type of a context, by its state: nothing of the request yet, or all that precedes.\<close>

fun typed_in :: "parse_state \<Rightarrow> http_request \<Rightarrow> bool" where
  "typed_in kExpectRequestLine r \<longleftrightarrow> r = HttpRequest_new"
| "typed_in kExpectHeader r \<longleftrightarrow> typed_request r"
| "typed_in kExpectBody r \<longleftrightarrow> False"
| "typed_in kGotAll r \<longleftrightarrow> typed_request r"

abbreviation typed_context :: "http_context \<Rightarrow> bool" where
  "typed_context ctx \<equiv> typed_in (ctx_state ctx) (ctx_request ctx)"

lemma new_typed: "typed_context HttpContext_new"
  by (simp add: HttpContext_new_def)

lemma find_in_take: "c \<notin> set (take (find_in s c) s)"
  unfolding find_in_def by (metis set_takeWhileD takeWhile_eq_take)

lemma find_in_drop: "drop (find_in s c) s = [] \<or> hd (drop (find_in s c) s) = c"
  unfolding find_in_def by (metis (full_types) dropWhile_eq_drop hd_dropWhile)

lemma in_set_take: "c \<notin> set s \<Longrightarrow> c \<notin> set (take n s)"
  by (auto dest: in_set_takeD)

lemma in_set_drop: "c \<notin> set s \<Longrightarrow> c \<notin> set (drop n s)"
  by (auto dest: in_set_dropD)

lemma target_typed:
  assumes "CHR '' '' \<notin> set s" and "one_line s"
    and "req_path r = take (find_in s (CHR ''?'')) s" and "req_query r = drop (find_in s (CHR ''?'')) s"
  shows "typed_target r"
  using assms find_in_take [of "CHR ''?''" s] find_in_drop [of s "CHR ''?''"]
  by (simp add: typed_target_def in_set_take in_set_drop one_line_take one_line_drop)

lemma requestLine_typed:
  assumes "one_line line" and "HttpContext_processRequestLine HttpRequest_new line = Inr (r, True)"
  shows "typed_request r"
proof -
  define start where "start = Suc (find_in line (CHR '' ''))"
  define n where "n = find_in (drop start line) (CHR '' '')"
  define target where "target = take n (drop start line)"
  define q where "q = find_in target (CHR ''?'')"
  have "length target \<le> n" by (simp add: target_def)
  moreover have q: "q \<le> length target" by (simp add: q_def find_in_def length_takeWhile_le)
  ultimately have parts: "take q (drop start line) = take q target" "take (n - q) (drop (start + q) line) = drop q target"
    by (simp_all add: target_def min_def drop_take add.commute)
  let ?m = "method_of_string (take (find_in line (CHR '' '')) line)"
  let ?r1 = "HttpRequest_new\<lparr>req_method := ?m\<rparr>"
  have new: "req_method HttpRequest_new = kInvalid" by (simp add: HttpRequest_new_def)
  from assms(2) have m: "?m \<noteq> kInvalid"
    by (auto simp: HttpContext_processRequestLine_def setMethod_fresh [OF new] Let_def split: if_splits)
  have r: "r = (if start + n \<noteq> length line then if q \<noteq> n
        then ?r1\<lparr>req_path := take q target, req_query := drop q target\<rparr> else ?r1\<lparr>req_path := target\<rparr> else ?r1)
      \<and> int (length line) - int (Suc (start + n)) = 8"
    using assms(2) m
    by (simp add: HttpContext_processRequestLine_def setMethod_fresh [OF new] Let_def HttpRequest_setPath_def
        HttpRequest_setQuery_def start_def [symmetric] n_def [symmetric] target_def [symmetric] q_def [symmetric]
        parts split: if_splits)
  then have "start + n \<noteq> length line" by linarith
  with r have "req_path r = take q target \<and> req_query r = drop q target \<and> req_method r = ?m \<and> req_headers r = []"
    using q \<open>length target \<le> n\<close> by (auto simp: HttpRequest_new_def)
  moreover have "one_line target" unfolding target_def by (intro one_line_take one_line_drop assms(1))
  moreover have "CHR '' '' \<notin> set target" unfolding target_def n_def by (rule find_in_take)
  ultimately show ?thesis
    using m target_typed [of target r] by (simp add: typed_request_def q_def smap_inv_def)
qed

lemma sublist_dropWhile: "sublist (dropWhile P s) s"
  by (metis sublist_appendI append_Nil2 takeWhile_dropWhile_id sublist_append_leftI)

lemma trim_right_sublist: "sublist (trim_right v) v"
proof (induction v rule: trim_right.induct)
  case (1 v)
  then show ?case
    by (subst trim_right.simps) (auto intro: sublist_order.order_trans simp: sublist_butlast)
qed

lemma addHeader_typed:
  assumes "typed_request r" and "one_line line"
  shows "typed_request (HttpRequest_addHeader r line (find_in line (CHR '':'')))"
proof -
  let ?h = "(take (find_in line (CHR '':'')) line,
    trim_right (skip_spaces (drop (find_in line (CHR '':'') + 1) line)))"
  have "one_line (snd ?h)"
    unfolding snd_conv skip_spaces_dropWhile
    by (rule one_line_sublist [OF one_line_sublist [OF one_line_drop [OF assms(2)] sublist_dropWhile] trim_right_sublist])
  then have "typed_header ?h"
    using find_in_take one_line_take [OF assms(2)] trim_is_trimmed by (simp add: typed_header_def)
  then show ?thesis
    using assms(1) by (simp add: typed_request_def typed_target_def HttpRequest_addHeader_def smap_inv_put
        list_all_smap_put)
qed

lemma parse_text_rejects:
  "parse_text t ctx s = Some (Inr (ctx', rest, False)) \<Longrightarrow> ctx_state ctx' = kExpectRequestLine"
proof (induction t ctx s rule: parse_text.induct)
  case (1 t ctx s)
  from "1.prems" show ?case
    using "1.IH" by (auto simp: parse_text.simps [of t ctx] Let_def split: parse_state.splits sum.splits if_splits)
qed

lemma parse_text_typed:
  assumes "typed_context ctx" and "parse_text t ctx s = Some (Inr (ctx', rest, True))"
  shows "typed_context ctx'"
  using assms
proof (induction t ctx s rule: parse_text.induct)
  case (1 t ctx s)
  let ?k = "search_in s CRLF"
  consider (stuck) "ctx_state ctx = kExpectBody \<or> ctx_state ctx = kGotAll"
    | (wait) "ctx_state ctx = kExpectRequestLine \<or> ctx_state ctx = kExpectHeader" "?k = length s"
    | (line) "ctx_state ctx = kExpectRequestLine" "?k \<noteq> length s"
    | (header) "ctx_state ctx = kExpectHeader" "?k \<noteq> length s"
    by (cases "ctx_state ctx") auto
  then show ?case
  proof cases
    case stuck
    with "1.prems"(2) show ?thesis by (auto simp: parse_text.simps [of t ctx] Let_def)
  next
    case wait
    with "1.prems" show ?thesis by (auto simp: parse_text.simps [of t ctx] Let_def)
  next
    case line
    with "1.prems" have new: "ctx_request ctx = HttpRequest_new" by simp
    from line "1.prems"(2) obtain r where r: "HttpContext_processRequestLine (ctx_request ctx) (take ?k s) = Inr (r, True)"
      "parse_text t (ctx\<lparr>ctx_request := HttpRequest_setReceiveTime r t, ctx_state := kExpectHeader\<rparr>) (drop (?k + 2) s)
         = Some (Inr (ctx', rest, True))"
      by (auto simp: parse_text.simps [of t ctx] Let_def split: sum.splits if_splits)
    have "typed_request r" by (rule requestLine_typed [OF first_line r(1) [unfolded new]])
    then have "typed_request (HttpRequest_setReceiveTime r t)"
      by (simp add: typed_request_def typed_target_def HttpRequest_setReceiveTime_def)
    then show ?thesis using "1.IH"(1) [OF refl line r(1) refl _ _ r(2)] by simp
  next
    case header
    then show ?thesis
      using "1.prems" "1.IH"(2) [OF refl header] addHeader_typed [OF _ first_line]
      by (auto simp: parse_text.simps [of t ctx s] Let_def split: if_splits)
  qed
qed


definition browser_request :: string where
  "browser_request = ''GET /a?b=1 HTTP/1.1'' @ CRLF @ ''User-Agent:  w/1 '' @ CRLF @ CRLF"


section \<open>Reading a message back\<close>

text \<open>How the reader of a message finds its head: the lines up to the first empty one.\<close>

function head_lines :: "string \<Rightarrow> string list \<times> string" where
  "head_lines s =
     (let k = search_in s CRLF in
      if k = length s then ([], s)
      else if k = 0 then ([], drop 2 s)
      else let (ls, b) = head_lines (drop (k + 2) s) in (take k s # ls, b))"
  by pat_completeness auto
termination
proof (relation "measure length", goal_cases)
  case 1
  show ?case by simp
next
  case (2 s k)
  then have "s \<noteq> []" by auto
  with 2 show ?case by simp
qed

declare head_lines.simps [simp del]

lemma head_lines_line:
  "one_line l \<Longrightarrow> l \<noteq> [] \<Longrightarrow> head_lines (l @ CRLF @ s) = (let (ls, b) = head_lines s in (l # ls, b))"
  by (subst head_lines.simps) (simp add: search_line [simplified])

lemma head_lines_end: "head_lines (CRLF @ s) = ([], s)"
  by (subst head_lines.simps) simp

lemma head_lines_all:
  "list_all (\<lambda>l. one_line l \<and> l \<noteq> []) ls \<Longrightarrow> head_lines (concat (map (\<lambda>l. l @ CRLF) ls) @ CRLF @ s) = (ls, s)"
proof (induction ls)
  case Nil
  then show ?case using head_lines_end by simp
next
  case (Cons l ls)
  then show ?case using head_lines_line [of l "concat (map (\<lambda>l. l @ CRLF) ls) @ CRLF @ s"] by simp
qed

definition header_line :: "string \<times> string \<Rightarrow> string" where
  "header_line h = fst h @ '': '' @ snd h"

definition response_lines :: "http_response \<Rightarrow> string list" where
  "response_lines r = (''HTTP/1.1 '' @ dec (status_code (resp_statusCode r)) @ '' '' @ resp_statusMessage r)
     # (if resp_closeConnection r then [''Connection: close'']
        else [''Content-Length: '' @ dec (length (resp_body r)), ''Connection: Keep-Alive''])
     @ map header_line (resp_headers r)"

lemma render_lines: "render_response r = concat (map (\<lambda>l. l @ CRLF) (response_lines r)) @ CRLF @ resp_body r"
  by (simp add: render_response_def response_lines_def comp_def header_line_def render_header_def [abs_def])

lemma one_line_no_CR: "CHR 0x0D \<notin> set s \<Longrightarrow> one_line s"
  by (induction s) (auto simp: one_line_Cons)

lemma dec_no_CR: "CHR 0x0D \<notin> set (dec n)"
proof (induction n rule: dec.induct)
  case (1 n)
  have "CHR 0x0D \<noteq> digit_char d" if "d < 10" for d
  proof
    assume "CHR 0x0D = digit_char d"
    then have "of_char (digit_char d) = (of_char (CHR 0x0D) :: nat)" by simp
    then show False using that by (simp add: digit_char_def)
  qed
  with 1 show ?case by (subst dec.simps) auto
qed

lemma header_line_typed: "one_line (fst h) \<Longrightarrow> one_line (snd h) \<Longrightarrow> one_line (header_line h)"
  by (auto simp: header_line_def one_line_Cons intro!: one_line_append)

lemma head_of_response:
  assumes "one_line (resp_statusMessage r)"
    and "list_all (\<lambda>h. one_line (fst h) \<and> one_line (snd h)) (resp_headers r)"
  shows "head_lines (render_response r) = (response_lines r, resp_body r)"
proof -
  have "list_all (\<lambda>l. one_line l \<and> l \<noteq> []) (map header_line (resp_headers r))"
    using assms(2) by (auto simp: list_all_iff header_line_typed) (simp add: header_line_def)
  moreover have "one_line (dec n @ '' '' @ resp_statusMessage r)" for n
    by (rule one_line_append [OF one_line_no_CR [OF dec_no_CR]]) (auto simp: one_line_Cons assms(1))
  ultimately show ?thesis
    unfolding render_lines
    by (intro head_lines_all) (simp add: response_lines_def one_line_Cons one_line_no_CR dec_no_CR)
qed

end
