(* ===== verification/Http_Program.thy ===== *)
theory Http_Program
  imports HttpServer Http_Typing
begin

text \<open>
  The program of \<open>main.cpp\<close> as a whole: the callbacks of \<open>http/HttpServer.cpp\<close> use a connection
  only through its interface, so the server that \<open>main\<close> starts keeps the invariant of the
  registry in every run.
\<close>

section \<open>The callbacks of the HTTP server\<close>

lemma send_evolves: "TcpConnection_send True m w = Inr w' \<Longrightarrow> evolves w w'"
  by (auto simp: TcpConnection_send_def intro: conn_frame_evolves sendInLoop_frame split: if_splits)

lemma shutdown_evolves: "evolves w (TcpConnection_shutdown True w)"
proof (cases "tc_state w = kConnected")
  case True
  have "evolves w (TcpConnection_setState kDisconnecting w)"
    by (rule setState_evolves) (simp add: True state_step.shutting_down)
  moreover have "evolves (TcpConnection_setState kDisconnecting w)
      (TcpConnection_shutdownInLoop (TcpConnection_setState kDisconnecting w))"
    by (rule conn_frame_evolves) simp
  ultimately show ?thesis
    using True by (simp add: TcpConnection_shutdown_def) (blast intro: evolves_trans)
qed (simp add: TcpConnection_shutdown_def conn_frame_evolves)

lemma context_evolves: "evolves w (w\<lparr>tc_context := ctx\<rparr>)"
  by (rule conn_frame_evolves) (simp add: frame_defs)

lemma onConnection_evolves: "HttpServer_onConnection w = Inr w' \<Longrightarrow> evolves w w'"
  by (auto simp: HttpServer_onConnection_def TcpConnection_setContext_def conn_frame_evolves context_evolves
      split: if_splits)

lemma send_shutdown_evolves:
  assumes "bind_res (TcpConnection_send True m w) (\<lambda>w1. Inr (if b then TcpConnection_shutdown True w1 else w1)) = Inr w'"
  shows "evolves w w'"
proof -
  from assms obtain w1 where "TcpConnection_send True m w = Inr w1"
    "w' = (if b then TcpConnection_shutdown True w1 else w1)" by (auto elim: bind_resE)
  then show ?thesis using shutdown_evolves [of w1] by (auto dest!: send_evolves intro: evolves_trans)
qed

lemma onRequest_evolves:
  assumes "HttpServer_onRequest cb req w = Inr w'"
  shows "evolves w w'"
proof -
  have step: "\<And>A f. bind_res A f = Inr w' \<Longrightarrow> (\<And>x. f x = Inr w' \<Longrightarrow> evolves w w') \<Longrightarrow> evolves w w'"
    by (blast elim: bind_resE)
  show ?thesis
    by (rule assms [unfolded HttpServer_onRequest_def Let_def, THEN step], erule step, erule step,
      erule send_shutdown_evolves)
qed

lemma onMessage_evolves:
  assumes "HttpServer_onMessage cb t w = Inr w'"
  shows "evolves w w'"
proof -
  from assms obtain r where r: "HttpContext_parseRequest (tc_context w) (tc_inputBuffer w) t = Some (Inr r)"
    by (auto simp: HttpServer_onMessage_def bind_res_eq_Inr split: option.splits)
  obtain ctx b good where cbo: "r = (ctx, b, good)" by (cases r)
  let ?w1 = "w\<lparr>tc_context := ctx, tc_inputBuffer := b\<rparr>"
  have "bind_res (if \<not> good then bind_res (TcpConnection_send True bad_request ?w1) (\<lambda>w2. Inr (TcpConnection_shutdown True w2))
        else Inr ?w1)
      (\<lambda>w3. if HttpContext_gotAll (tc_context w3)
          then bind_res (HttpServer_onRequest cb (ctx_request (tc_context w3)) w3) (\<lambda>w4.
                 Inr (w4\<lparr>tc_context := HttpContext_reset (tc_context w4)\<rparr>))
          else Inr w3) = Inr w'"
    using assms by (simp add: HttpServer_onMessage_def r cbo Let_def)
  then obtain w3 where w3: "(if \<not> good
             then bind_res (TcpConnection_send True bad_request ?w1) (\<lambda>w2. Inr (TcpConnection_shutdown True w2))
             else Inr ?w1) = Inr w3"
    and w': "(if HttpContext_gotAll (tc_context w3)
          then bind_res (HttpServer_onRequest cb (ctx_request (tc_context w3)) w3) (\<lambda>w4.
                 Inr (w4\<lparr>tc_context := HttpContext_reset (tc_context w4)\<rparr>))
          else Inr w3) = Inr w'"
    by (rule bind_resE)
  have "evolves w ?w1" by (rule conn_frame_evolves) (simp add: frame_defs)
  moreover have "evolves ?w1 w3"
  proof (cases good)
    case True
    with w3 show ?thesis by (simp add: conn_frame_evolves)
  next
    case False
    with w3 send_shutdown_evolves [where b = True, of bad_request ?w1 w3] show ?thesis by simp
  qed
  moreover have "evolves w3 w'"
  proof (cases "HttpContext_gotAll (tc_context w3)")
    case True
    with w' obtain w4 where "HttpServer_onRequest cb (ctx_request (tc_context w3)) w3 = Inr w4"
      "w' = w4\<lparr>tc_context := HttpContext_reset (tc_context w4)\<rparr>" by (auto elim: bind_resE)
    then show ?thesis using context_evolves [of w4] by (auto dest!: onRequest_evolves intro: evolves_trans)
  next
    case False
    with w' show ?thesis by (simp add: conn_frame_evolves)
  qed
  ultimately show ?thesis by (blast intro: evolves_trans)
qed

lemma http_callbacks_respectful:
  assumes "ts_connectionCallback s = Some HttpServer_onConnection"
    and "ts_messageCallback s = Some (HttpServer_onMessage cb)"
  shows "respectful (server_callbacks s)"
  using assms by (intro server_callbacks_respectful) (auto intro: onConnection_evolves onMessage_evolves)

section \<open>Starting up\<close>

lemma listen_frame:
  assumes "chan_synced this (ac_channel ac) ep"
  shows "returns (Acceptor_listen this (ac, ep, sys)) (\<lambda>(ac', ep', sys'). ac_isListening ac' \<and> Epoll_inv ep'
    \<and> (\<forall>fd. fd \<noteq> ch_fd (ac_channel ac) \<longrightarrow> poller_entry ep' fd = poller_entry ep fd))"
proof -
  let ?ch = "(ac_channel ac)\<lparr>ch_events := ch_events (ac_channel ac) OR kReadEvent, ch_addedToLoop := True\<rparr>"
  have "chan_synced this ?ch ep" using assms by simp
  from update_result_synced [OF this] have "Epoll_inv (snd (update_result this ?ch ep))"
    by (simp add: chan_synced_def)
  moreover have "Epoll_inv ep" using assms by (simp add: chan_synced_def)
  ultimately show ?thesis
    using assms by (simp add: Acceptor_listen_def Channel_enableReading_def Channel_update_eq split_beta Let_def
        update_result_frame)
qed

text \<open>The server as \<open>main\<close> has set it up, before the first event.\<close>

definition ready_server ::
  "file_system \<Rightarrow> nat list \<Rightarrow> nat \<Rightarrow> int \<Rightarrow> (nat \<Rightarrow> epoll_t) \<Rightarrow> srv_world \<Rightarrow> bool" where
  "ready_server fs loops loop listenFd pollers s \<longleftrightarrow> ac_isListening (ts_acceptor s)
     \<and> ts_threadPool s = \<lparr>etp_baseLoop = loop, etp_started = True, etp_numThreads = int (length loops),
         etp_next = 0, etp_loops = loops\<rparr>
     \<and> ts_connectionCallback s = Some HttpServer_onConnection
     \<and> ts_messageCallback s = Some (HttpServer_onMessage (Some (httpCallback fs)))
     \<and> ts_loop s = loop \<and> ts_nextConnectionId s = 1 \<and> ts_connectionMap s = []
     \<and> sw_conns s = Map.empty \<and> sw_queue s = [] \<and> sw_spent s = []
     \<and> (\<forall>l. Epoll_inv (sw_epoll s l)
          \<and> (\<forall>fd. fd \<noteq> listenFd \<longrightarrow> poller_entry (sw_epoll s l) fd = poller_entry (pollers l) fd))"

lemma main_setup_ready:
  assumes "0 \<le> threadNums" and "\<And>l. Epoll_inv (pollers l)"
    and "poller_entry (pollers loop) listenFd = (None, None)"
  shows "returns (main_setup fs threadNums loop listenFd acAddr pollers alloc)
    (ready_server fs (map alloc [0..<nat threadNums]) loop listenFd pollers)"
proof -
  let ?new = "TcpServer_new loop listenFd (InternetAddress_of_port 8888) ''tinyWS'' acAddr pollers"
  have fd: "ch_fd (ac_channel (ts_acceptor ?new)) = listenFd"
    by (simp add: TcpServer_new_def Acceptor_new_def Acceptor_setNewConnectionCallback_def Let_def Socket_of_def
        Acceptor_createNonblocking_def Channel_setReadCallback_def Channel_new_def)
  from listen_frame [OF new_acceptor_synced [where pollers = pollers and loop = loop, OF assms(2,3), of acAddr "InternetAddress_of_port 8888"
      "''tinyWS''"], of "sw_sys ?new"]
  obtain ac ep sys where listen: "Acceptor_listen acAddr (ts_acceptor ?new, pollers loop, sw_sys ?new) = Inr (ac, ep, sys)"
    "ac_isListening ac" "Epoll_inv ep" "\<And>f. f \<noteq> listenFd \<Longrightarrow> poller_entry ep f = poller_entry (pollers loop) f"
    unfolding fd by (auto elim!: returnsE)
  have new: "ts_acceptorAddr ?new = acAddr" "ts_loop ?new = loop" "sw_epoll ?new = pollers" "ts_started ?new = 0"
    "ts_threadPool ?new = EventLoopThreadPool_new loop" "ts_nextConnectionId ?new = 1" "ts_connectionMap ?new = []"
    "sw_conns ?new = Map.empty" "sw_queue ?new = []" "sw_spent ?new = []"
    by (simp_all add: TcpServer_new_def split_beta Atomic_new_def)
  show ?thesis
    using assms(1,2) listen
    by (simp add: main_setup_def HttpServer_new_def HttpServer_setThreadNum_def TcpServer_setThreadNumber_def
        EventLoopThreadPool_setThreadNum_def HttpServer_start_def TcpServer_start_def Atomic_getAndSet_def
        EventLoopThreadPool_start_def TcpServer_setMessageCallback_def TcpServer_setConnectionCallback_def
        HttpServer_setHttpCallback_def ready_server_def new EventLoopThreadPool_new_def Let_def)
qed

lemma ready_server_inv:
  assumes "ready_server fs loops loop listenFd pollers s"
  shows "server_inv s"
proof (rule fresh_server_inv)
  show "respectful (server_callbacks s)"
    by (rule http_callbacks_respectful) (use assms in \<open>simp_all add: ready_server_def\<close>)
qed (use assms in \<open>simp_all add: ready_server_def\<close>)

lemma new_poller_entry: "poller_entry Epoll_new fd = (None, None)"
  by (simp add: poller_entry_def Epoll_new_def smap_get_def)

lemma run_inv: "server_inv s \<Longrightarrow> admissible_run ops s \<Longrightarrow> fold_res srv_do ops s = Inr s' \<Longrightarrow> server_inv s'"
  using run_map by blast

text \<open>
  C4. The program: whatever its argument, \<open>main\<close> sets up a listening server with that many loops,
  and in every sequence of arrivals, events, sends, rounds of the loops and rounds' ends that
  follows, with the HTTP callbacks running on the connections, the invariant of the registry holds:
  every connection is owned, synchronised with its poller, and has its queued functors.
\<close>

theorem main_keeps_invariant:
  assumes "0 \<le> threadNums" and "\<And>l. Epoll_inv (pollers l)"
    and "poller_entry (pollers loop) listenFd = (None, None)"
  shows "returns (main_setup fs threadNums loop listenFd acAddr pollers alloc) (\<lambda>s.
    ac_isListening (ts_acceptor s) \<and> etp_loops (ts_threadPool s) = map alloc [0..<nat threadNums]
    \<and> server_inv s
    \<and> (\<forall>ops s'. admissible_run ops s \<longrightarrow> fold_res srv_do ops s = Inr s' \<longrightarrow> server_inv s'))"
proof (rule returns_mono [OF main_setup_ready [where pollers = pollers and loop = loop, OF assms]])
  fix s assume ready: "ready_server fs (map alloc [0..<nat threadNums]) loop listenFd pollers s"
  then have "server_inv s" by (rule ready_server_inv)
  moreover have "ac_isListening (ts_acceptor s) \<and> etp_loops (ts_threadPool s) = map alloc [0..<nat threadNums]"
    using ready by (simp add: ready_server_def)
  ultimately show "ac_isListening (ts_acceptor s) \<and> etp_loops (ts_threadPool s) = map alloc [0..<nat threadNums]
    \<and> server_inv s \<and> (\<forall>ops s'. admissible_run ops s \<longrightarrow> fold_res srv_do ops s = Inr s' \<longrightarrow> server_inv s')"
    by (auto intro: run_inv)
qed

theorem main_keeps_invariant_witness:
  "returns (main_setup empty_fs 2 10 4 11 (\<lambda>_. Epoll_new) (\<lambda>i. 20 + i)) (\<lambda>s.
     etp_loops (ts_threadPool s) = [20, 21]
     \<and> (\<forall>ops s'. admissible_run ops s \<longrightarrow> fold_res srv_do ops s = Inr s' \<longrightarrow> server_inv s'))"
  by (rule returns_mono [OF main_keeps_invariant])
    (auto simp: Epoll_new_inv new_poller_entry upt_rec numeral_2_eq_2)

lemma onConnection_passive: "passive_cb HttpServer_onConnection"
proof (unfold passive_cb_def, rule allI)
  fix w :: conn_world
  show "\<exists>ctx. HttpServer_onConnection w = Inr (w\<lparr>tc_context := ctx\<rparr>)"
    by (rule exI [of _ "if TcpConnection_connected w then HttpContext_new else tc_context w"])
      (simp add: HttpServer_onConnection_def TcpConnection_setContext_def)
qed

text \<open>
  C34. The first client of the program ends it: however many loops \<open>main\<close> was told to start, a
  client that connects and closes the connection without a byte makes the process abort.
\<close>

theorem main_first_client_aborts:
  assumes "0 \<le> threadNums" and "\<And>l. Epoll_inv (pollers l)"
    and "poller_entry (pollers loop) listenFd = (None, None)"
    and "\<And>l. poller_entry (pollers l) (sockfd sock) = (None, None)" and "sockfd sock \<noteq> listenFd"
    and "has_bits r EPOLLIN" and "\<not> has_bits r EPOLLOUT"
    and "l = (if threadNums = 0 then loop else alloc 0)"
  shows "returns (bind_res (main_setup fs threadNums loop listenFd acAddr pollers alloc) (\<lambda>s.
      bind_res (bind_res (TcpServer_newConnection (a, chan, local, kern) sock peer s) (loop_runs l))
        (TcpServer_event a (Inr []) r)))
    (\<lambda>s'. bind_res (loop_runs loop s') (loop_runs l) = Inl AssertFailed)"
proof (rule returns_bind [OF main_setup_ready [where pollers = pollers and loop = loop, OF assms(1-3)]])
  fix s assume ready: "ready_server fs (map alloc [0..<nat threadNums]) loop listenFd pollers s"
  have adm: "admissible (NewConnection (a, chan, local, kern) sock peer) s"
    using ready assms(4,5) by (simp add: ready_server_def)
  have "\<exists>pool. EventLoopThreadPool_getNextLoop (ts_threadPool s) = Inr (l, pool)"
    using ready assms(1,8) by (cases "threadNums = 0")
      (simp_all add: ready_server_def EventLoopThreadPool_getNextLoop_def Let_def)
  then obtain pool where "EventLoopThreadPool_getNextLoop (ts_threadPool s) = Inr (l, pool)" ..
  note crash = client_session_crashes_server [OF ready_server_inv [OF ready] adm this _ onConnection_passive _ _ assms(6,7)]
  show "returns (bind_res (bind_res (TcpServer_newConnection (a, chan, local, kern) sock peer s) (loop_runs l))
        (TcpServer_event a (Inr []) r)) (\<lambda>s'. bind_res (loop_runs loop s') (loop_runs l) = Inl AssertFailed)"
    by (rule returns_mono [OF crash]) (use ready in \<open>auto simp: ready_server_def\<close>)
qed

theorem main_first_client_aborts_witness:
  "returns (bind_res (main_setup empty_fs 1 10 4 11 (\<lambda>_. Epoll_new) (\<lambda>i. 20 + i)) (\<lambda>s.
      bind_res (bind_res (TcpServer_newConnection (5, 101, None, slow_kernel) (Socket_of 6) zero_address s)
        (loop_runs 20)) (TcpServer_event 5 (Inr []) EPOLLIN)))
    (\<lambda>s'. bind_res (loop_runs 10 s') (loop_runs 20) = Inl AssertFailed)"
  by (rule main_first_client_aborts)
    (auto simp: Epoll_new_inv new_poller_entry Socket_of_def has_bits_def epoll_bits)

section \<open>What a client can put into a response\<close>

definition safe_response :: "http_response \<Rightarrow> bool" where
  "safe_response r \<longleftrightarrow> one_line (resp_statusMessage r)
     \<and> list_all (\<lambda>h. one_line (fst h) \<and> one_line (snd h)) (resp_headers r)"

lemma safe_setters:
  "safe_response (HttpResponse_new close)"
  "safe_response r \<Longrightarrow> one_line k \<Longrightarrow> one_line v \<Longrightarrow> safe_response (HttpResponse_addHeader r k v)"
  "safe_response r \<Longrightarrow> one_line m \<Longrightarrow> safe_response (HttpResponse_setStatusMessage r m)"
  "safe_response r \<Longrightarrow> safe_response (HttpResponse_setStatusCode r c)"
  "safe_response r \<Longrightarrow> safe_response (HttpResponse_setBody r s)"
  "safe_response r \<Longrightarrow> safe_response (HttpResponse_setCloseConnection r close)"
  by (simp_all add: safe_response_def response_setters HttpResponse_new_def HttpResponse_setCloseConnection_def
      list_all_smap_put)

lemma getHeader_one_line: "typed_request req \<Longrightarrow> one_line (HttpRequest_getHeader req field)"
  by (auto simp: HttpRequest_getHeader_def typed_request_def typed_header_def list_all_iff smap_get_def
      split: option.split dest!: map_of_SomeD)

lemma constant_lines: "one_line ''OK''" "one_line ''Not Found''" "one_line ''server''" "one_line ''tinyWS''"
  "one_line ''User-Agent''" "one_line ''Content-Type''" "one_line ''text/html''" "one_line ''image/x-icon''"
  by (simp_all add: one_line_Cons)

lemma set404_safe: "safe_response r \<Longrightarrow> safe_response (set404NotFound r)"
  unfolding set404NotFound_def by (intro safe_setters constant_lines)

lemma serve_file_safe:
  assumes "typed_request req" and "safe_response r"
  shows "safe_response (serve_file fs req f r)"
  using assms
  by (auto simp: serve_file_def Let_def split: option.split
      intro!: safe_setters set404_safe constant_lines getHeader_one_line)

lemma response_safe:
  assumes "typed_request req"
  shows "safe_response (response_for (Some (httpCallback fs)) req)"
  unfolding response_for_def httpCallback_def Let_def
  by (auto intro!: serve_file_safe assms safe_setters constant_lines simp: HttpResponse_setContentType_def)

text \<open>
  C5. No request can split a response: whatever bytes a client sends and however they are cut, the
  response to a request that the parser accepts, the echoed \<open>User-Agent\<close> included, is read back by
  its receiver as one head with exactly the lines of the status, the connection and each header,
  followed by exactly the body.
\<close>

theorem response_not_split:
  assumes "Buffer_inv b" and "typed_context ctx" and "HttpContext_parseRequest ctx b t = Some (Inr (ctx', b', True))"
    and "HttpContext_gotAll ctx'"
  shows "head_lines (render_response (response_for (Some (httpCallback fs)) (ctx_request ctx')))
    = (response_lines (response_for (Some (httpCallback fs)) (ctx_request ctx')),
       resp_body (response_for (Some (httpCallback fs)) (ctx_request ctx')))"
proof -
  from parse_loop_refines [OF assms(1), of t ctx] assms(3)
  have "parse_text t ctx (Buffer_content b) = Some (Inr (ctx', Buffer_content b', True))"
    by (simp add: HttpContext_parseRequest_def)
  from parse_text_typed [OF assms(2) this] assms(4) have "typed_request (ctx_request ctx')"
    by (simp add: HttpContext_gotAll_def)
  then show ?thesis using response_safe [of "ctx_request ctx'" fs] head_of_response by (simp add: safe_response_def)
qed

theorem response_not_split_witness:
  "\<exists>ctx b'. HttpContext_parseRequest HttpContext_new
       (text_buffer (render_request kGet ''/'' [] [(''User-Agent'', ''w/1'')])) 3 = Some (Inr (ctx, b', True))
     \<and> head_lines (render_response (response_for (Some (httpCallback page_fs)) (ctx_request ctx)))
       = ([''HTTP/1.1 200 OK'', ''Content-Length: 2'', ''Connection: Keep-Alive'', ''Content-Type: text/html'',
           ''User-Agent: w/1'', ''server: tinyWS''], ''hi'')"
proof -
  let ?b = "text_buffer (render_request kGet ''/'' [] [(''User-Agent'', ''w/1'')])"
  let ?req = "parsed_request 3 kGet ''/'' [] [(''User-Agent'', ''w/1'')]"
  have inv: "Buffer_inv ?b" by (rule text_buffer_ok) (simp add: render_request_def render_header_def)
  have "Buffer_content ?b = render_request kGet ''/'' [] [(''User-Agent'', ''w/1'')] @ []" by simp
  from parse_request_rendered [OF inv this, of 3] obtain b' where b': "HttpContext_parseRequest HttpContext_new ?b 3
      = Some (Inr (\<lparr>ctx_state = kGotAll, ctx_request = ?req\<rparr>, b', True))"
    by (auto simp: wf_target_def wf_header_def trimmed_def isspace_def)
  have lines: "response_lines (response_for (Some (httpCallback page_fs)) ?req) = [''HTTP/1.1 200 OK'',
      ''Content-Length: 2'', ''Connection: Keep-Alive'', ''Content-Type: text/html'', ''User-Agent: w/1'', ''server: tinyWS'']"
    "resp_body (response_for (Some (httpCallback page_fs)) ?req) = ''hi''"
    by code_simp+
  have "HttpContext_gotAll \<lparr>ctx_state = kGotAll, ctx_request = ?req\<rparr>" by (simp add: HttpContext_gotAll_def)
  note answer = response_not_split [OF inv new_typed b' this, of page_fs, unfolded http_context.select_convs lines]
  show ?thesis by (rule exI, rule exI, rule conjI, rule b', unfold http_context.select_convs, rule answer)
qed

end
