(* ===== verification/Http_Clients.thy ===== *)
theory Http_Clients
  imports Http_Session Http_Program
begin

text \<open>
  Any number of clients of the HTTP server at the same time. A connection of the server is, between
  two operations, on its way through its own session (\<open>Http_Session\<close>); an operation on another
  connection, an arrival, or a round of any loop does not take it off that way. So the server that
  \<open>main\<close> starts answers every client, however their requests are interleaved and cut. No code is
  modelled in this theory.
\<close>

section \<open>A session among others\<close>

text \<open>The poller of its loop, the log of system calls and the queue are all that others may change.\<close>

definition amid :: "epoll_t \<Rightarrow> sys_call list \<Rightarrow> conn_functor list \<Rightarrow> conn_world \<Rightarrow> conn_world" where
  "amid ep sys q w = w\<lparr>cw_epoll := ep, cw_sys := sys, cw_queue := q\<rparr>"

lemma amid_fields [simp]:
  "tc_channelAddr (amid ep sys q w) = tc_channelAddr w" "tc_channel (amid ep sys q w) = tc_channel w"
  "tc_state (amid ep sys q w) = tc_state w" "cw_kernel (amid ep sys q w) = cw_kernel w"
  "cw_wire (amid ep sys q w) = cw_wire w" "tc_outputBuffer (amid ep sys q w) = tc_outputBuffer w"
  "tc_context (amid ep sys q w) = tc_context w" "tc_inputBuffer (amid ep sys q w) = tc_inputBuffer w"
  "out_stream (amid ep sys q w) = out_stream w" "cw_epoll (amid ep sys q w) = ep"
  by (simp_all add: amid_def out_stream_def)

lemma amid_session:
  assumes "in_session k ctx left n m w" and "chan_synced (tc_channelAddr w) (tc_channel w) ep"
  shows "in_session k ctx left n m (amid ep sys q w)"
  using assms by (auto simp: in_session_def conn_inv_def)

lemma amid_on_track:
  assumes "on_track cb k W evs w" and "chan_synced (tc_channelAddr w) (tc_channel w) ep"
  shows "on_track cb k W evs (amid ep sys q w)"
  using assms(1)
proof (cases rule: on_track.cases)
  case (awaiting rs j es)
  then show ?thesis
    unfolding awaiting(1) by (intro on_track.awaiting amid_session assms(2)) simp_all
next
  case (receiving r u ps ctx left rs qs j es)
  then show ?thesis
    unfolding receiving(1) by (intro on_track.receiving amid_session assms(2)) simp_all
qed

lemma taken_again: "taken_conn sc s' = amid (sw_epoll s' (conn_loop (sc_conn sc))) (sw_sys s') [] (taken_conn sc s)"
  by (simp add: taken_conn_def amid_def)

section \<open>What the clients will do\<close>

text \<open>The plan of the client whose connection is at an address: its requests, and how they arrive.\<close>

type_synonym client_plan = "http_msg list \<times> (string list \<times> nat) list"

definition plan_ok :: "http_callback option \<Rightarrow> (nat \<Rightarrow> nat \<Rightarrow> write_answer) \<Rightarrow> client_plan \<Rightarrow> bool" where
  "plan_ok cb k p \<longleftrightarrow> takes_some k \<and> to_come cb k (fst p) (snd p)
     \<and> texts (fst p) \<le> 2 ^ 62 \<and> length (replies cb (fst p)) \<le> 2 ^ 62"

fun client_op :: "nat \<Rightarrow> client_event \<Rightarrow> srv_op" where
  "client_op a (Arrives bytes) = ConnEvent a (Inr bytes) EPOLLIN"
| "client_op a Drains = ConnEvent a (Inr []) EPOLLOUT"

text \<open>The connection at an address is established.\<close>

definition up :: "srv_world \<Rightarrow> nat \<Rightarrow> bool" where
  "up s a \<longleftrightarrow> (\<exists>sc. sw_conns s a = Some sc \<and> tc_state (sc_conn sc) = kConnected)"

text \<open>What is left of each client's script after an operation.\<close>

fun rest_of :: "srv_op \<Rightarrow> (nat \<Rightarrow> client_event list) \<Rightarrow> nat \<Rightarrow> client_event list" where
  "rest_of (ConnEvent a answer revents) rem = rem(a := tl (rem a))"
| "rest_of x rem = rem"

text \<open>
  A client arrives at an address and on a descriptor that are free; an event is the next one of a
  client whose connection is established, as the poller watches no other. Loops run and end their
  rounds at any time.
\<close>

fun expected ::
  "http_callback option \<Rightarrow> (nat \<Rightarrow> client_plan) \<Rightarrow> (nat \<Rightarrow> client_event list) \<Rightarrow> srv_op \<Rightarrow> srv_world \<Rightarrow> bool" where
  "expected cb plan rem (NewConnection (a, chan, local, kern) sock peer) s \<longleftrightarrow>
     admissible (NewConnection (a, chan, local, kern) sock peer) s \<and> ts_nextConnectionId s + 1 < 2 ^ 31
     \<and> plan_ok cb kern (plan a)"
| "expected cb plan rem (ConnEvent a answer revents) s \<longleftrightarrow>
     up s a \<and> (case rem a of [] \<Rightarrow> False | e # evs \<Rightarrow> ConnEvent a answer revents = client_op a e)"
| "expected cb plan rem (LoopRuns l) s \<longleftrightarrow> True"
| "expected cb plan rem (RoundEnds l) s \<longleftrightarrow> True"
| "expected cb plan rem x s \<longleftrightarrow> False"

fun all_expected ::
  "http_callback option \<Rightarrow> (nat \<Rightarrow> client_plan) \<Rightarrow> (nat \<Rightarrow> client_event list) \<Rightarrow> srv_op list \<Rightarrow> srv_world \<Rightarrow> bool" where
  "all_expected cb plan rem [] s \<longleftrightarrow> True"
| "all_expected cb plan rem (x # xs) s \<longleftrightarrow> expected cb plan rem x s
     \<and> (case srv_do x s of Inl e \<Rightarrow> True | Inr s' \<Rightarrow> all_expected cb plan (rest_of x rem) xs s')"

section \<open>The server between two operations\<close>

text \<open>A connection that is not established yet would be ready for its session if it were.\<close>

definition made_for :: "http_callback option \<Rightarrow> client_plan \<Rightarrow> conn_world \<Rightarrow> bool" where
  "made_for cb p w \<longleftrightarrow> plan_ok cb (cw_kernel w) p \<and> cw_wire w = [] \<and> pending w = []
     \<and> in_session (cw_kernel w) HttpContext_new [] (texts (fst p)) (length (replies cb (fst p)))
         (TcpConnection_setState kConnected w)"

definition client_ok ::
  "http_callback option \<Rightarrow> (nat \<Rightarrow> client_plan) \<Rightarrow> (nat \<Rightarrow> client_event list) \<Rightarrow> srv_world \<Rightarrow> nat \<Rightarrow> srv_conn \<Rightarrow> bool" where
  "client_ok cb plan rem s a sc \<longleftrightarrow> sc_callbacks sc = http_callbacks cb \<and> registered s a
     \<and> (if tc_state (sc_conn sc) = kConnecting
        then made_for cb (plan a) (taken_conn sc s) \<and> rem a = script (snd (plan a))
          \<and> count_list (map snd (sw_queue s)) (Establish a) = 1
        else on_track cb (cw_kernel (sc_conn sc)) (replies cb (fst (plan a))) (rem a) (taken_conn sc s)
          \<and> takes_some (cw_kernel (sc_conn sc)) \<and> count_list (map snd (sw_queue s)) (Establish a) = 0)"

definition pool_ok :: "thread_pool \<Rightarrow> bool" where
  "pool_ok p \<longleftrightarrow> etp_loops p \<noteq> [] \<longrightarrow> etp_next p < length (etp_loops p)"

definition in_order :: "nat \<times> srv_functor \<Rightarrow> bool" where
  "in_order t \<longleftrightarrow> (\<exists>a. snd t = Establish a \<or> snd t = OnConnection a WriteComplete)"

text \<open>The server while the connection at \<open>a\<close> is being worked on, and with all of them in their place.\<close>

definition hosting_but ::
  "nat \<Rightarrow> http_callback option \<Rightarrow> (nat \<Rightarrow> client_plan) \<Rightarrow> (nat \<Rightarrow> client_event list) \<Rightarrow> srv_world \<Rightarrow> bool" where
  "hosting_but a cb plan rem s \<longleftrightarrow> server_inv s \<and> server_callbacks s = http_callbacks cb \<and> pool_ok (ts_threadPool s)
     \<and> (\<forall>t\<in>set (sw_queue s). in_order t)
     \<and> (\<forall>b sc. b \<noteq> a \<longrightarrow> sw_conns s b = Some sc \<longrightarrow> client_ok cb plan rem s b sc)
     \<and> (\<forall>b. b \<noteq> a \<longrightarrow> sw_conns s b = None \<longrightarrow> rem b = script (snd (plan b)))"

definition hosting ::
  "http_callback option \<Rightarrow> (nat \<Rightarrow> client_plan) \<Rightarrow> (nat \<Rightarrow> client_event list) \<Rightarrow> srv_world \<Rightarrow> bool" where
  "hosting cb plan rem s \<longleftrightarrow> (\<forall>a. hosting_but a cb plan rem s)"

lemma hosting_butD:
  assumes "hosting_but a cb plan rem s"
  shows "server_inv s" "server_callbacks s = http_callbacks cb" "pool_ok (ts_threadPool s)"
    "t \<in> set (sw_queue s) \<Longrightarrow> in_order t"
    "b \<noteq> a \<Longrightarrow> sw_conns s b = Some sc \<Longrightarrow> client_ok cb plan rem s b sc"
    "b \<noteq> a \<Longrightarrow> sw_conns s b = None \<Longrightarrow> rem b = script (snd (plan b))"
  using assms unfolding hosting_but_def by blast+

lemma hostingD:
  assumes "hosting cb plan rem s"
  shows "hosting_but a cb plan rem s" "server_inv s"
    "sw_conns s b = Some sc \<Longrightarrow> client_ok cb plan rem s b sc"
    "sw_conns s b = None \<Longrightarrow> rem b = script (snd (plan b))"
proof -
  have but: "hosting_but c cb plan rem s" for c using assms by (simp add: hosting_def)
  show "hosting_but a cb plan rem s" "server_inv s" using but hosting_butD(1) by blast+
  show "sw_conns s b = Some sc \<Longrightarrow> client_ok cb plan rem s b sc" by (rule hosting_butD(5) [OF but, of b "Suc b"]) simp_all
  show "sw_conns s b = None \<Longrightarrow> rem b = script (snd (plan b))" by (rule hosting_butD(6) [OF but, of b "Suc b"]) simp_all
qed

lemma hosting_back:
  assumes but: "hosting_but a cb plan rem s" and a: "sw_conns s a = Some sc" "client_ok cb plan rem s a sc"
  shows "hosting cb plan rem s"
proof -
  have "client_ok cb plan rem s b sd" if "sw_conns s b = Some sd" for b sd
    using that a hosting_butD(5) [OF but, of b sd] by (cases "b = a") simp_all
  moreover have "rem b = script (snd (plan b))" if "sw_conns s b = None" for b
    using that a hosting_butD(6) [OF but, of b] by (cases "b = a") simp_all
  ultimately show ?thesis using hosting_butD(1-4) [OF but] by (simp add: hosting_def hosting_but_def)
qed

text \<open>While one connection moves on or arrives the others keep their place.\<close>

definition others_kept ::
  "nat \<Rightarrow> (nat \<Rightarrow> client_event list) \<Rightarrow> srv_world \<Rightarrow> (nat \<Rightarrow> client_event list) \<Rightarrow> srv_world \<Rightarrow> bool" where
  "others_kept a rem s rem' s' \<longleftrightarrow> server_callbacks s' = server_callbacks s
     \<and> (\<forall>b. b \<noteq> a \<longrightarrow> sw_conns s' b = sw_conns s b \<and> rem' b = rem b \<and> (registered s b \<longrightarrow> registered s' b)
          \<and> count_list (map snd (sw_queue s')) (Establish b) = count_list (map snd (sw_queue s)) (Establish b))"

lemma hosting_update:
  assumes but: "hosting_but a cb plan rem s" and inv: "server_inv s'" and kept: "others_kept a rem s rem' s'"
    and "pool_ok (ts_threadPool s')" and "\<And>t. t \<in> set (sw_queue s') \<Longrightarrow> in_order t"
  shows "hosting_but a cb plan rem' s'"
proof -
  have "client_ok cb plan rem' s' b sc" if "b \<noteq> a" "sw_conns s' b = Some sc" for b sc
  proof -
    have same: "sw_conns s' b = sw_conns s b" "rem' b = rem b" "registered s b \<longrightarrow> registered s' b"
      "count_list (map snd (sw_queue s')) (Establish b) = count_list (map snd (sw_queue s)) (Establish b)"
      using kept that(1) by (simp_all add: others_kept_def)
    have old: "client_ok cb plan rem s b sc" by (rule hosting_butD(5) [OF but that(1)]) (use same that(2) in simp)
    from server_invD(5) [OF inv that(2)]
    have synced: "chan_synced (tc_channelAddr (taken_conn sc s)) (tc_channel (taken_conn sc s))
        (sw_epoll s' (conn_loop (sc_conn sc)))"
      by (simp add: conn_ok_def taken_conn_def)
    have "made_for cb (plan b) (taken_conn sc s')" if "made_for cb (plan b) (taken_conn sc s)"
    proof -
      let ?ready = "TcpConnection_setState kConnected (taken_conn sc s)"
      have eq: "TcpConnection_setState kConnected (taken_conn sc s')
          = amid (sw_epoll s' (conn_loop (sc_conn sc))) (sw_sys s') [] ?ready"
        unfolding taken_again [of sc s' s] by (simp add: TcpConnection_setState_def amid_def)
      have "chan_synced (tc_channelAddr ?ready) (tc_channel ?ready) (sw_epoll s' (conn_loop (sc_conn sc)))"
        using synced by (simp add: TcpConnection_setState_def)
      with that show ?thesis
        unfolding made_for_def eq unfolding taken_again [of sc s' s] by (simp add: amid_session)
    qed
    moreover have "on_track cb k W evs (taken_conn sc s')" if "on_track cb k W evs (taken_conn sc s)" for k W evs
      unfolding taken_again [of sc s' s] by (rule amid_on_track [OF that synced])
    ultimately show ?thesis using old same by (auto simp: client_ok_def split: if_splits)
  qed
  moreover have "rem' b = script (snd (plan b))" if "b \<noteq> a" "sw_conns s' b = None" for b
    using that kept hosting_butD(6) [OF but, of b] by (simp add: others_kept_def)
  ultimately show ?thesis using assms hosting_butD(2) [OF but] by (simp add: hosting_but_def others_kept_def)
qed

section \<open>An event of a client\<close>

lemma take_up_write_complete:
  "\<forall>f\<in>set fs. f = WriteComplete \<Longrightarrow> fold_res (take_up caller l a) fs s
     = Inr (s\<lparr>sw_queue := sw_queue s @ replicate (length fs) (l, OnConnection a WriteComplete)\<rparr>)"
proof (induction fs arbitrary: s)
  case (Cons f fs)
  then have "f = WriteComplete" by simp
  with Cons.IH [of "queue_in l (OnConnection a WriteComplete) s"] Cons.prems show ?case
    by (simp add: take_up_def queue_in_def)
qed simp

text \<open>An operation that leaves a connected client on its track.\<close>

lemma with_conn_on_track:
  assumes but: "hosting_but a cb plan rem s" and a: "sw_conns s a = Some sc" "sc_callbacks sc = http_callbacks cb" "registered s a"
    and w: "f (sc_callbacks sc) (taken_conn sc s) = Inr w"
    and ev: "evolves (taken_conn sc s) w" and track: "on_track cb k W (rem' a) w"
    and k: "k = cw_kernel (sc_conn sc)" "takes_some k" and W: "W = replies cb (fst (plan a))"
    and others: "\<And>b. b \<noteq> a \<Longrightarrow> rem' b = rem b" and free: "count_list (map snd (sw_queue s)) (Establish a) = 0"
    and inv: "\<And>s'. with_conn caller a f s = Inr s' \<Longrightarrow> server_inv s'"
  shows "returns (with_conn caller a f s) (\<lambda>s'. hosting cb plan rem' s' \<and> up s' a)"
proof -
  let ?l = "conn_loop (sc_conn sc)"
  from on_track_state(1) [OF track] have st: "tc_state w = kConnected" "cw_kernel w = k"
    by (auto simp: in_session_def)
  with ev have "\<forall>f\<in>set (cw_queue w). f = WriteComplete" by (auto simp: evolves_def taken_conn_def)
  then have up: "fold_res (take_up caller ?l a) (cw_queue w) (put_conn a sc w s) = Inr ((put_conn a sc w s)
      \<lparr>sw_queue := sw_queue s @ replicate (length (cw_queue w)) (?l, OnConnection a WriteComplete)\<rparr>)"
    by (simp add: take_up_write_complete put_conn_def)
  define s' where "s' = (put_conn a sc w s)
      \<lparr>sw_queue := sw_queue s @ replicate (length (cw_queue w)) (?l, OnConnection a WriteComplete)\<rparr>"
  have run: "with_conn caller a f s = Inr s'"
    using up by (simp add: with_conn_put [of s a sc, OF a(1)] w s'_def)
  have f': "sw_conns s' = (sw_conns s)(a \<mapsto> sc\<lparr>sc_conn := w\<rparr>)" "ts_connectionMap s' = ts_connectionMap s"
    "server_callbacks s' = server_callbacks s" "ts_threadPool s' = ts_threadPool s"
    "sw_queue s' = sw_queue s @ replicate (length (cw_queue w)) (?l, OnConnection a WriteComplete)"
    "sw_epoll s' ?l = cw_epoll w" "sw_sys s' = cw_sys w"
    by (simp_all add: s'_def put_conn_def server_callbacks_def)
  have "conn_loop w = ?l"
    using ev by (simp add: evolves_def same_identity_def taken_conn_def TcpConnection_getLoop_def)
  then have taken: "taken_conn (sc\<lparr>sc_conn := w\<rparr>) s' = amid (cw_epoll w) (cw_sys w) [] w"
    by (simp add: taken_conn_def amid_def f')
  have "in_session k ctx left n m w \<Longrightarrow> chan_synced (tc_channelAddr w) (tc_channel w) (cw_epoll w)" for ctx left n m
    by (simp add: in_session_def conn_inv_def)
  with on_track_state(1) [OF track] have "on_track cb k W (rem' a) (taken_conn (sc\<lparr>sc_conn := w\<rparr>) s')"
    unfolding taken by (blast intro: amid_on_track [OF track])
  moreover have count: "count_list (map snd (sw_queue s')) (Establish b) = count_list (map snd (sw_queue s)) (Establish b)" for b
    by (simp add: f' map_replicate_const count_list_append count_list_0_iff)
  ultimately have "client_ok cb plan rem' s' a (sc\<lparr>sc_conn := w\<rparr>)"
    using st k W free a(2,3) by (simp add: client_ok_def f'(1,2))
  moreover have "others_kept a rem s rem' s'"
    using others count by (simp add: others_kept_def f'(1-3))
  moreover have "in_order t" if "t \<in> set (sw_queue s')" for t
    using that hosting_butD(4) [OF but, of t] by (auto simp: f' in_order_def)
  ultimately have "hosting cb plan rem' s'"
    using hosting_back [OF hosting_update [OF but inv [OF run], of rem']] hosting_butD(3) [OF but] by (simp add: f'(1,4))
  moreover have "up s' a" using st(1) by (simp add: up_def f'(1))
  ultimately show ?thesis by (simp add: run)
qed

lemma client_event_hosting:
  assumes host: "hosting cb plan rem s" and ex: "expected cb plan rem (ConnEvent a answer revents) s"
  shows "returns (srv_do (ConnEvent a answer revents) s) (\<lambda>s'.
    hosting cb plan (rest_of (ConnEvent a answer revents) rem) s' \<and> up s' a)"
proof -
  from ex obtain sc e evs where a: "sw_conns s a = Some sc" "tc_state (sc_conn sc) = kConnected"
    and rem: "rem a = e # evs" and op: "ConnEvent a answer revents = client_op a e"
    by (auto simp: up_def split: list.splits)
  let ?k = "cw_kernel (sc_conn sc)" and ?W = "replies cb (fst (plan a))"
  have ok: "sc_callbacks sc = http_callbacks cb" "on_track cb ?k ?W (e # evs) (taken_conn sc s)" "takes_some ?k"
    "count_list (map snd (sw_queue s)) (Establish a) = 0"
    "registered s a"
    using hostingD(3) [OF host a(1)] a(2) by (simp_all add: client_ok_def rem)
  have step: "client_step cb e = conn_event (http_callbacks cb) answer revents"
    using op by (cases e) (simp_all add: read_event_def write_event_def)
  from on_track_step [OF ok(2,3)] obtain w where w: "conn_event (sc_callbacks sc) answer revents (taken_conn sc s) = Inr w"
    "on_track cb ?k ?W evs w"
    by (auto simp: step ok(1) elim: returnsE)
  have inv: "server_inv s" by (rule hostingD(2) [OF host])
  have ev: "evolves (taken_conn sc s) w" by (rule world.event_R [OF conn_callbacks_respectful [OF inv a(1)] w(1)])
  have "server_inv s'" if "with_conn (conn_loop (sc_conn sc)) a (\<lambda>cbs. conn_event cbs answer revents) s = Inr s'" for s'
    using TcpServer_event_inv [OF inv, of a answer revents s'] that by (simp add: TcpServer_event_def a(1))
  note moves = with_conn_on_track [where f = "\<lambda>cbs. conn_event cbs answer revents" and rem' = "rem(a := evs)" and k = ?k and W = ?W,
      OF hostingD(1) [OF host] a(1) ok(1,5) w(1) ev _ refl ok(3) refl _ ok(4) this]
  have "returns (with_conn (conn_loop (sc_conn sc)) a (\<lambda>cbs. conn_event cbs answer revents) s) (\<lambda>s'.
      hosting cb plan (rem(a := evs)) s' \<and> up s' a)"
    by (rule moves) (use w(2) in simp_all)
  then show ?thesis by (simp add: TcpServer_event_def a(1) rem)
qed

section \<open>The rounds of the loops\<close>

lemma count_list_remove1:
  "count_list (map g q) x = count_list (map g (remove1 t q)) x + (if t \<in> set q \<and> g t = x then 1 else 0)"
  by (induction q) auto

text \<open>The establishment of a connection made for its client.\<close>

lemma established_on_track:
  assumes "made_for cb p w" and "tc_state w = kConnecting"
  shows "returns (TcpConnection_connectionEstablished (http_callbacks cb) this w) (\<lambda>w'.
    on_track cb (cw_kernel w) (replies cb (fst p)) (script (snd p)) w' \<and> tc_state w' = kConnected)"
proof -
  let ?w = "(TcpConnection_setState kConnected w)\<lparr>tc_channel := Channel_tie this (tc_channel w)\<rparr>"
  let ?w' = "channel_updated (ch_events (tc_channel ?w) OR kReadEvent) ?w"
  have sess: "in_session (cw_kernel w) HttpContext_new [] (texts (fst p)) (length (replies cb (fst p)))
      (TcpConnection_setState kConnected w)" and p: "plan_ok cb (cw_kernel w) p" "cw_wire w = []" "pending w = []"
    using assms(1) by (simp_all add: made_for_def)
  then have s: "chan_synced (tc_channelAddr ?w) (tc_channel ?w) (cw_epoll ?w)"
    by (simp add: in_session_def conn_inv_def chan_synced_def Channel_tie_def TcpConnection_setState_def)
  have "TcpConnection_connectionEstablished (http_callbacks cb) this w = Inr (?w'\<lparr>tc_context := HttpContext_new\<rparr>)"
    using assms(2) with_channel_ops(1) [OF s]
    by (simp add: TcpConnection_connectionEstablished_def run_callback_def Let_def TcpConnection_setState_def
        http_callbacks_def HttpServer_onConnection_def TcpConnection_connected_def TcpConnection_setContext_def)
  moreover have "wired (tc_channel ?w')"
    using sess by (simp add: in_session_def wired_def channel_updated_def update_result_def Let_def Channel_tie_def
        TcpConnection_setState_def)
  moreover have "\<not> has_bits kReadEvent kWriteEvent" by (simp add: has_bits_def event_masks)
  then have "Channel_isWriting (tc_channel ?w') \<longleftrightarrow> Channel_isWriting (tc_channel w)"
    by (simp add: Channel_isWriting_def has_bits_or_left Channel_tie_def)
  ultimately have "in_session (cw_kernel w) HttpContext_new [] (texts (fst p)) (length (replies cb (fst p)))
      (?w'\<lparr>tc_context := HttpContext_new\<rparr>)"
    using sess channel_updated_synced [OF s]
    by (simp add: in_session_def conn_inv_def TcpConnection_setState_def)
  then have "on_track cb (cw_kernel w) (replies cb (fst p)) (replicate 0 Drains @ script (snd p)) (?w'\<lparr>tc_context := HttpContext_new\<rparr>)"
    using p by (intro on_track.awaiting) (simp_all add: plan_ok_def TcpConnection_setState_def out_stream_def)
  then show ?thesis
    using \<open>TcpConnection_connectionEstablished (http_callbacks cb) this w = _\<close> by (simp add: TcpConnection_setState_def)
qed

lemma establish_hosting:
  assumes but: "hosting_but a cb plan rem u" and a: "sw_conns u a = Some sc" "sc_callbacks sc = http_callbacks cb" "registered u a"
    and made: "made_for cb (plan a) (taken_conn sc u)" "tc_state (sc_conn sc) = kConnecting"
    and rem: "rem a = script (snd (plan a))" and free: "count_list (map snd (sw_queue u)) (Establish a) = 0"
    and t: "functor_ok u (l, Establish a)"
  shows "returns (run_functor l (Establish a) u) (\<lambda>s'. hosting cb plan rem s' \<and> up s' a)"
proof -
  let ?f = "\<lambda>cbs. TcpConnection_connectionEstablished cbs a" and ?k = "cw_kernel (sc_conn sc)"
  have taken: "tc_state (taken_conn sc u) = kConnecting" "cw_kernel (taken_conn sc u) = ?k"
    using made(2) by (simp_all add: taken_conn_def)
  from established_on_track [OF made(1) taken(1), of a] obtain w where w: "?f (sc_callbacks sc) (taken_conn sc u) = Inr w"
    "on_track cb ?k (replies cb (fst (plan a))) (rem a) w"
    unfolding a(2) taken(2) rem by (auto elim: returnsE)
  have inv: "server_inv u" by (rule hosting_butD(1) [OF but])
  have ev: "evolves (taken_conn sc u) w"
    by (rule world.established_R [OF conn_callbacks_respectful [OF inv a(1)] w(1)])
  have k: "takes_some ?k" using made(1) by (simp add: made_for_def plan_ok_def taken(2))
  have "server_inv s'" if "with_conn l a ?f u = Inr s'" for s'
    using run_functor_inv [OF inv t, of s'] that by simp
  from with_conn_on_track [where f = ?f and rem' = rem, OF but a w(1) ev w(2) refl k refl refl free this]
  show ?thesis by simp
qed

text \<open>A write-complete callback of a connection does nothing to it.\<close>

lemma write_complete_conn:
  assumes "sw_conns u a = Some sc"
  shows "run_functor l (OnConnection a WriteComplete) u = Inr (put_conn a sc (taken_conn sc u) u)"
    and "taken_conn (sc\<lparr>sc_conn := taken_conn sc u\<rparr>) (put_conn a sc (taken_conn sc u) u) = taken_conn sc u"
  using assms by (simp_all add: with_conn_put) (simp_all add: taken_conn_def put_conn_def TcpConnection_getLoop_def)

lemma loop_runs_hosting:
  assumes host: "hosting cb plan rem s"
  shows "returns (loop_runs l s) (hosting cb plan rem)"
proof (cases "filter (\<lambda>t. fst t = l) (sw_queue s)")
  case Nil
  with host show ?thesis by (simp add: loop_runs_def)
next
  case (Cons t ts)
  let ?u = "take_functor t s" and ?a = "functor_conn (snd t)"
  have "t \<in> set (filter (\<lambda>t. fst t = l) (sw_queue s))" using Cons by simp
  then have mem: "t \<in> set (sw_queue s)" by simp
  have run: "loop_runs l s = run_functor l (snd t) ?u" using Cons by (simp add: loop_runs_def)
  have u: "server_inv ?u" "functor_ok ?u (l, snd t)"
    using take_functor_inv [OF hostingD(2) [OF host] Cons] by blast+
  have f: "sw_conns ?u = sw_conns s" "ts_connectionMap ?u = ts_connectionMap s" "sw_queue ?u = remove1 t (sw_queue s)"
    "server_callbacks ?u = server_callbacks s" "ts_threadPool ?u = ts_threadPool s" "taken_conn sc ?u = taken_conn sc s" for sc
    by (simp_all add: take_functor_def server_callbacks_def taken_conn_def)
  obtain sc where a: "sw_conns s ?a = Some sc" using u(2) by (auto simp: functor_ok_def f)
  have ok: "client_ok cb plan rem s ?a sc" by (rule hostingD(3) [OF host a])
  have count: "count_list (map snd (sw_queue s)) x = count_list (map snd (sw_queue ?u)) x + (if snd t = x then 1 else 0)" for x
    using count_list_remove1 [of snd "sw_queue s" x t] mem by (simp add: f)
  have order: "in_order x" if "x \<in> set (sw_queue ?u)" for x
    using hosting_butD(4) [OF hostingD(1) [OF host], of x] that set_remove1_subset [of t "sw_queue s"] by (auto simp: f)
  have kept: "others_kept ?a rem s rem ?u"
    using count by (auto simp: others_kept_def f)
  have but: "hosting_but ?a cb plan rem ?u"
    by (rule hosting_update [OF hostingD(1) [OF host] u(1) kept _ order])
      (use hosting_butD(3) [OF hostingD(1) [OF host]] in \<open>simp add: f\<close>)
  from hosting_butD(4) [OF hostingD(1) [OF host] mem] consider "snd t = Establish ?a" | "snd t = OnConnection ?a WriteComplete"
    by (auto simp: in_order_def)
  then show ?thesis
  proof cases
    case 1
    have "count_list (map snd (sw_queue s)) (Establish ?a) \<noteq> 0" using count [of "Establish ?a"] 1 by simp
    with ok have c: "tc_state (sc_conn sc) = kConnecting" "made_for cb (plan ?a) (taken_conn sc s)"
      "rem ?a = script (snd (plan ?a))" "count_list (map snd (sw_queue s)) (Establish ?a) = 1"
      by (auto simp: client_ok_def split: if_splits)
    have "count_list (map snd (sw_queue ?u)) (Establish ?a) = 0" using count [of "Establish ?a"] 1 c(4) by simp
    moreover have "sc_callbacks sc = http_callbacks cb" "registered ?u ?a" using ok by (simp_all add: client_ok_def f)
    ultimately have "returns (run_functor l (Establish ?a) ?u) (\<lambda>s'. hosting cb plan rem s' \<and> up s' ?a)"
      using establish_hosting [OF but, of sc l] a c u(2) 1 by (simp add: f del: run_functor.simps)
    then show ?thesis using run 1 by (auto elim!: returns_mono)
  next
    case 2
    have au: "sw_conns ?u ?a = Some sc" using a by (simp add: f)
    define s' where "s' = put_conn ?a sc (taken_conn sc ?u) ?u"
    have r: "run_functor l (snd t) ?u = Inr s'"
      using write_complete_conn(1) [OF au, of l] 2 by (simp add: s'_def del: run_functor.simps)
    have f': "sw_conns s' = (sw_conns s)(?a \<mapsto> sc\<lparr>sc_conn := taken_conn sc s\<rparr>)" "ts_connectionMap s' = ts_connectionMap s"
      "sw_queue s' = sw_queue ?u" "server_callbacks s' = server_callbacks s" "ts_threadPool s' = ts_threadPool s"
      by (simp_all add: s'_def put_conn_def f server_callbacks_def) (simp_all add: take_functor_def)
    have "server_inv s'" using run_functor_inv [OF u r] by simp
    moreover have "others_kept ?a rem ?u rem s'" by (simp add: others_kept_def f f')
    ultimately have but': "hosting_but ?a cb plan rem s'"
      by (rule hosting_update [OF but]) (use hosting_butD(3) [OF but] order in \<open>simp_all add: f f'\<close>)
    have "taken_conn (sc\<lparr>sc_conn := taken_conn sc s\<rparr>) s' = taken_conn sc s"
      using write_complete_conn(2) [OF au] by (simp add: s'_def f)
    moreover have "snd t \<noteq> Establish ?a" using 2 by (metis srv_functor.distinct(7))
    then have "count_list (map snd (sw_queue s')) (Establish ?a) = count_list (map snd (sw_queue s)) (Establish ?a)"
      using count [of "Establish ?a"] by (simp add: f'(3))
    moreover have "tc_state (taken_conn sc s) = tc_state (sc_conn sc)" "cw_kernel (taken_conn sc s) = cw_kernel (sc_conn sc)"
      by (simp_all add: taken_conn_def)
    ultimately have "client_ok cb plan rem s' ?a (sc\<lparr>sc_conn := taken_conn sc s\<rparr>)"
      using ok by (simp add: client_ok_def f'(2))
    from hosting_back [OF but' _ this] have "hosting cb plan rem s'" by (simp add: f'(1))
    then show ?thesis using r run by simp
  qed
qed

text \<open>At the end of a round no connection goes: the map holds them all.\<close>

lemma give_up_registered:
  "registered s (snd t) \<Longrightarrow> give_up (snd t) (s\<lparr>sw_spent := q\<rparr>) = Inr (s\<lparr>sw_spent := q\<rparr>)"
  by (simp add: give_up_def owned_def)

lemma round_ends_kept:
  assumes "\<And>t. t \<in> set ts \<Longrightarrow> registered s (snd t)"
  shows "\<exists>q. fold_res (\<lambda>t s. give_up (snd t) (s\<lparr>sw_spent := remove1 t (sw_spent s)\<rparr>)) ts s = Inr (s\<lparr>sw_spent := q\<rparr>)"
  using assms
proof (induction ts arbitrary: s)
  case Nil
  show ?case by (rule exI [of _ "sw_spent s"]) simp
next
  case (Cons t ts)
  let ?s = "s\<lparr>sw_spent := remove1 t (sw_spent s)\<rparr>"
  have "give_up (snd t) ?s = Inr ?s" by (rule give_up_registered) (rule Cons.prems, simp)
  with Cons.IH [of ?s] Cons.prems show ?case by simp
qed

lemma round_ends_hosting:
  assumes host: "hosting cb plan rem s"
  shows "returns (round_ends l s) (hosting cb plan rem)"
proof -
  note inv = hostingD(2) [OF host]
  have "registered s (snd t)" if "t \<in> set (filter (\<lambda>t. fst t = l) (sw_spent s))" for t
  proof -
    have "owned s (snd t)" using that by (auto simp: owned_def)
    then obtain sc where "sw_conns s (snd t) = Some sc" using server_invD(4) [OF inv, of "snd t"] by auto
    then show ?thesis using hostingD(3) [OF host] by (simp add: client_ok_def)
  qed
  from round_ends_kept [OF this] obtain q where q: "round_ends l s = Inr (s\<lparr>sw_spent := q\<rparr>)"
    unfolding round_ends_def by blast
  have "server_inv (s\<lparr>sw_spent := q\<rparr>)" using round_ends_inv [OF inv q] by simp
  then have "hosting_but a cb plan rem (s\<lparr>sw_spent := q\<rparr>)" for a
    using hosting_butD(3,4) [OF hostingD(1) [OF host]]
    by (intro hosting_update [OF hostingD(1) [OF host]]) (simp_all add: others_kept_def server_callbacks_def)
  then show ?thesis by (simp add: q hosting_def)
qed

section \<open>An arrival\<close>

lemma takes_some_ok: "takes_some k \<Longrightarrow> kernel_ok k"
proof (unfold kernel_ok_def, intro allI impI)
  fix i len n assume k: "takes_some k" "k i len = Wrote n"
  from k(1) obtain n' where "k i len = Wrote n'" "n' \<le> len" unfolding takes_some_def by blast
  with k(2) show "n \<le> len" by simp
qed

lemma new_made_for:
  assumes "Epoll_inv ep" and "poller_entry ep (sockfd sock) = (None, None)" and p: "plan_ok cb kern p"
  shows "returns (TcpConnection_new l nm sock chan la pa ep sys kern) (\<lambda>w. tc_state w = kConnecting
    \<and> conn_loop w = l \<and> made_for cb p w \<and> cw_epoll w = ep \<and> cw_queue w = [])"
proof -
  from TcpConnection_new_ok [OF assms(1,2), of l nm chan la pa sys kern] obtain w where
    w: "TcpConnection_new l nm sock chan la pa ep sys kern = Inr w" "tc_state w = kConnecting" "wired (tc_channel w)"
    "ch_loop (tc_channel w) = l" "chan_synced (tc_channelAddr w) (tc_channel w) ep" "cw_epoll w = ep"
    by (auto elim: returnsE)
  obtain b where b: "Buffer_new = Inr b" "Buffer_inv b" "Buffer_content b = []" "length (buf_store b) = 1032"
    using Buffer_new_ok by (auto elim: returnsE)
  have f: "tc_outputBuffer w = b" "tc_inputBuffer w = b" "cw_kernel w = kern" "cw_wire w = []" "cw_queue w = []"
    "tc_context w = HttpContext_new" "ch_events (tc_channel w) = 0"
    using w(1) by (auto simp: TcpConnection_new_def b(1) channel_wiring kNoneEvent_def)
  have "Buffer_room b n" if "n \<le> 2 ^ 62" for n using that b(4) by (simp add: Buffer_room_def vec_max_def)
  moreover have "kernel_ok kern" using p takes_some_ok by (simp add: plan_ok_def)
  ultimately have "in_session kern HttpContext_new [] (texts (fst p)) (length (replies cb (fst p))) (TcpConnection_setState kConnected w)"
    using w(3,5,6) p b(2,3)
    by (simp add: in_session_def conn_inv_def plan_ok_def TcpConnection_setState_def f Channel_isWriting_def)
  then show ?thesis using w p f b(3) by (simp add: made_for_def TcpConnection_getLoop_def)
qed

lemma getNextLoop_ok:
  assumes "pool_ok p"
  obtains l p' where "EventLoopThreadPool_getNextLoop p = Inr (l, p')" and "pool_ok p'"
proof (cases "etp_loops p = []")
  case True
  then show thesis by (intro that [of "etp_baseLoop p" p]) (simp_all add: EventLoopThreadPool_getNextLoop_def assms)
next
  case False
  with assms show thesis by (intro that) (auto simp: EventLoopThreadPool_getNextLoop_def pool_ok_def Let_def)
qed

lemma arrival_hosting:
  assumes host: "hosting cb plan rem s" and ex: "expected cb plan rem (NewConnection (a, chan, local, kern) sock peer) s"
  shows "returns (TcpServer_newConnection (a, chan, local, kern) sock peer s) (\<lambda>s'. hosting cb plan rem s'
    \<and> (etp_loops (ts_threadPool s) = [] \<and> etp_baseLoop (ts_threadPool s) = ts_loop s \<longrightarrow> up s' a))"
proof -
  have adm: "admissible (NewConnection (a, chan, local, kern) sock peer) s" and small: "ts_nextConnectionId s + 1 < 2 ^ 31"
    and p: "plan_ok cb kern (plan a)"
    using ex by (simp_all del: admissible.simps)
  note inv = hostingD(2) [OF host] and but = hostingD(1) [OF host, of a]
  have fresh: "sw_conns s a = None" and fd: "poller_entry (sw_epoll s l) (sockfd sock) = (None, None)" for l
    using adm by simp_all
  obtain l pool where pool: "EventLoopThreadPool_getNextLoop (ts_threadPool s) = Inr (l, pool)" "pool_ok pool"
    using getNextLoop_ok [OF hosting_butD(3) [OF but]] .
  from new_made_for [OF server_invD(3) [OF inv, of l] fd p, of l "connection_name (ts_name s) (ts_nextConnectionId s)" chan
      "InternetAddress_getLocalAddress local" peer "sw_sys s"] obtain conn where conn:
    "TcpConnection_new l (connection_name (ts_name s) (ts_nextConnectionId s)) sock chan
       (InternetAddress_getLocalAddress local) peer (sw_epoll s l) (sw_sys s) kern = Inr conn"
    "tc_state conn = kConnecting" "conn_loop conn = l" "made_for cb (plan a) conn" "cw_epoll conn = sw_epoll s l"
    "cw_queue conn = []"
    by (auto elim: returnsE)
  let ?u = "entered l a pool conn s" and ?sc = "\<lparr>sc_conn = conn, sc_callbacks = server_callbacks s\<rparr>"
  have "1 \<le> ts_nextConnectionId s" using server_invD(1) [OF inv] by (simp add: srv_inv_def)
  then have run: "TcpServer_newConnection (a, chan, local, kern) sock peer s = run_in l (Establish a) ?u"
    by (rule newConnection_enters [OF pool(1) conn(1) _ small])
  from entered_inv [OF inv adm conn(1) small, of pool] have u: "server_inv ?u" "functor_ok ?u (l, Establish a)"
    "\<And>b. registered ?u b \<longleftrightarrow> registered s b \<or> b = a" by blast+
  have f: "sw_conns ?u = (sw_conns s)(a \<mapsto> ?sc)" "sw_queue ?u = sw_queue s" "server_callbacks ?u = server_callbacks s"
    "ts_threadPool ?u = pool" "ts_loop ?u = ts_loop s" "sw_epoll ?u = sw_epoll s"
    by (simp_all add: entered_def server_callbacks_def)
  have free: "count_list (map snd (sw_queue s)) (Establish a) = 0"
  proof -
    have "functor_conn (snd t) \<noteq> a" if "t \<in> set (sw_queue s)" for t
      using server_invD(7) [OF inv that] fresh by (auto simp: functor_ok_def)
    then have "Establish a \<notin> set (map snd (sw_queue s))" by (metis functor_conn.simps(1) image_iff list.set_map)
    then show ?thesis by (simp only: count_list_0_iff not_False_eq_True)
  qed
  have rem: "rem a = script (snd (plan a))" by (rule hostingD(4) [OF host fresh])
  have cbs: "server_callbacks s = http_callbacks cb" by (rule hosting_butD(2) [OF but])
  have "conn\<lparr>cw_epoll := sw_epoll s l, cw_sys := sw_sys ?u, cw_queue := []\<rparr> = conn"
    using conn(5,6) by (simp add: entered_def)
  then have taken: "taken_conn ?sc ?u = conn" using conn(3) by (simp add: taken_conn_def f(6))
  have kept: "others_kept a rem s rem ?u" using u(3) by (simp add: others_kept_def f)
  have butu: "hosting_but a cb plan rem ?u"
    by (rule hosting_update [OF but u(1) kept]) (use hosting_butD(4) [OF but] pool(2) in \<open>simp_all add: f\<close>)
  show ?thesis
  proof (cases "l = ts_loop s")
    case True
    have "returns (run_functor l (Establish a) ?u) (\<lambda>s'. hosting cb plan rem s' \<and> up s' a)"
      by (rule establish_hosting [OF butu, of ?sc])
        (use cbs conn(2,4) rem free u in \<open>simp_all add: f taken [unfolded cbs] del: run_functor.simps\<close>)
    moreover have "ts_loop ?u = l" using True f(5) by simp
    ultimately show ?thesis unfolding run run_in_def by (auto simp del: run_functor.simps elim!: returns_mono)
  next
    case False
    let ?q = "queue_in l (Establish a) ?u"
    have fq: "sw_conns ?q = sw_conns ?u" "sw_queue ?q = sw_queue s @ [(l, Establish a)]" "ts_connectionMap ?q = ts_connectionMap ?u"
      "server_callbacks ?q = server_callbacks s" "ts_threadPool ?q = pool" "taken_conn sc ?q = taken_conn sc ?u" for sc
      by (simp_all add: queue_in_def f server_callbacks_def taken_conn_def) (simp_all add: entered_def)
    have "server_inv ?q" by (rule queue_in_inv [OF u(1,2)]) simp
    moreover have "others_kept a rem s rem ?q" using u(3) by (simp add: others_kept_def fq f)
    ultimately have "hosting_but a cb plan rem ?q"
      by (rule hosting_update [OF but])
        (use hosting_butD(4) [OF but] pool(2) in \<open>auto simp: fq in_order_def\<close>)
    moreover have "client_ok cb plan rem ?q a ?sc"
      using cbs conn(2,4) rem free u(3) [of a] by (simp add: client_ok_def fq taken [unfolded cbs])
    ultimately have "hosting cb plan rem ?q" using hosting_back [of a cb plan rem ?q ?sc] by (simp add: fq f)
    moreover have "ts_loop ?u \<noteq> l" using False f(5) by simp
    moreover have "etp_loops (ts_threadPool s) = [] \<Longrightarrow> l = etp_baseLoop (ts_threadPool s)"
      using pool(1) by (auto simp: EventLoopThreadPool_getNextLoop_def)
    ultimately show ?thesis using False unfolding run run_in_def by auto
  qed
qed

section \<open>Every run\<close>

lemma expected_step:
  assumes host: "hosting cb plan rem s" and ex: "expected cb plan rem x s"
  shows "returns (srv_do x s) (hosting cb plan (rest_of x rem))"
proof (cases x)
  case (NewConnection env sock peer)
  obtain a chan local kern where env: "env = (a, chan, local, kern)" by (cases env)
  with arrival_hosting [OF host, of a chan local kern sock peer] ex show ?thesis
    by (auto simp: NewConnection elim!: returns_mono)
next
  case (ConnEvent a answer revents)
  with client_event_hosting [OF host, of a answer revents] ex show ?thesis by (auto elim!: returns_mono)
next
  case (LoopRuns l)
  with loop_runs_hosting [OF host] show ?thesis by simp
next
  case (RoundEnds l)
  with round_ends_hosting [OF host] show ?thesis by simp
qed (use ex in simp_all)

text \<open>The events of one client in a run.\<close>

definition events_of :: "nat \<Rightarrow> srv_op list \<Rightarrow> srv_op list" where
  "events_of a ops = filter (\<lambda>x. case x of ConnEvent b answer revents \<Rightarrow> b = a | _ \<Rightarrow> False) ops"

lemma expected_rest:
  assumes "expected cb plan rem x s"
  shows "map (client_op a) (rem a) = events_of a [x] @ map (client_op a) (rest_of x rem a)"
  using assms by (cases x) (auto simp: events_of_def split: list.splits)

lemma expected_run:
  assumes "hosting cb plan rem s" and "all_expected cb plan rem ops s"
  shows "returns (fold_res srv_do ops s) (\<lambda>s'. \<exists>rem'. hosting cb plan rem' s'
    \<and> (\<forall>a. map (client_op a) (rem a) = events_of a ops @ map (client_op a) (rem' a)))"
  using assms
proof (induction ops arbitrary: rem s)
  case Nil
  then show ?case by (auto simp: events_of_def)
next
  case (Cons x ops)
  have ex: "expected cb plan rem x s" using Cons.prems(2) by simp
  from expected_step [OF Cons.prems(1) ex] obtain s1 where s1: "srv_do x s = Inr s1" "hosting cb plan (rest_of x rem) s1"
    by (auto elim: returnsE)
  have "all_expected cb plan (rest_of x rem) ops s1" using Cons.prems(2) s1(1) by simp
  from Cons.IH [OF s1(2) this] obtain s' rem' where s': "fold_res srv_do ops s1 = Inr s'" "hosting cb plan rem' s'"
    "\<And>a. map (client_op a) (rest_of x rem a) = events_of a ops @ map (client_op a) (rem' a)"
    by (auto elim!: returnsE)
  have "map (client_op a) (rem a) = events_of a (x # ops) @ map (client_op a) (rem' a)" for a
    using expected_rest [OF ex, of a] s'(3) [of a] by (simp add: events_of_def)
  with s' s1(1) show ?case by auto
qed

text \<open>What a hosted connection has on the wire.\<close>

lemma hosting_wire:
  assumes host: "hosting cb plan rem s" and a: "sw_conns s a = Some sc"
  shows "\<exists>rest. replies cb (fst (plan a)) = out_stream (sc_conn sc) @ rest"
    and "rem a = [] \<Longrightarrow> cw_wire (sc_conn sc) = replies cb (fst (plan a))"
proof -
  have taken: "out_stream (taken_conn sc s) = out_stream (sc_conn sc)" "cw_wire (taken_conn sc s) = cw_wire (sc_conn sc)"
    by (simp_all add: taken_conn_def out_stream_def)
  have ok: "client_ok cb plan rem s a sc" by (rule hostingD(3) [OF host a])
  show "\<exists>rest. replies cb (fst (plan a)) = out_stream (sc_conn sc) @ rest"
  proof (cases "tc_state (sc_conn sc) = kConnecting")
    case True
    with ok have "out_stream (taken_conn sc s) = []" by (simp add: client_ok_def made_for_def out_stream_def)
    then show ?thesis by (simp add: taken)
  next
    case False
    with ok have "on_track cb (cw_kernel (sc_conn sc)) (replies cb (fst (plan a))) (rem a) (taken_conn sc s)"
      by (simp add: client_ok_def)
    from on_track_state(2) [OF this] show ?thesis by (simp add: taken)
  qed
  show "cw_wire (sc_conn sc) = replies cb (fst (plan a))" if over: "rem a = []"
  proof (cases "tc_state (sc_conn sc) = kConnecting")
    case True
    with ok over have "made_for cb (plan a) (taken_conn sc s)" "script (snd (plan a)) = []" by (simp_all add: client_ok_def)
    then have "cw_wire (sc_conn sc) = []" "fst (plan a) = []"
      using nothing_to_come [of cb _ "fst (plan a)" "snd (plan a)"] by (auto simp: made_for_def plan_ok_def taken(2))
    then show ?thesis by (simp add: replies_def)
  next
    case False
    with ok over show ?thesis
      using on_track_end [of cb "cw_kernel (sc_conn sc)" "replies cb (fst (plan a))" "taken_conn sc s"]
      by (simp add: client_ok_def taken)
  qed
qed

lemma ready_server_hosting:
  assumes ready: "ready_server fs loops loop listenFd pollers s"
  shows "hosting (Some (httpCallback fs)) plan (\<lambda>a. script (snd (plan a))) s"
proof -
  have "server_callbacks s = http_callbacks (Some (httpCallback fs))" "pool_ok (ts_threadPool s)"
    "sw_queue s = []" "sw_conns s = Map.empty"
    using ready by (simp_all add: ready_server_def server_callbacks_def http_callbacks_def pool_ok_def)
  with ready_server_inv [OF ready] show ?thesis by (simp add: hosting_def hosting_but_def)
qed


section \<open>Two clients\<close>

text \<open>One arrival when the server has no loops but its own, and one event.\<close>

definition only_loop :: "srv_world \<Rightarrow> bool" where
  "only_loop s \<longleftrightarrow> etp_loops (ts_threadPool s) = [] \<and> etp_baseLoop (ts_threadPool s) = ts_loop s"

lemma arrival_up:
  assumes host: "hosting cb plan rem s" and ex: "expected cb plan rem (NewConnection (a, chan, local, kern) sock peer) s"
    and one: "only_loop s"
  obtains s' where "TcpServer_newConnection (a, chan, local, kern) sock peer s = Inr s'" and "hosting cb plan rem s'"
    and "up s' a" and "only_loop s'" and "\<And>b. b \<noteq> a \<Longrightarrow> sw_conns s' b = sw_conns s b"
    and "\<And>sc. sw_conns s' a = Some sc \<Longrightarrow> ch_fd (tc_channel (sc_conn sc)) = sockfd sock"
    and "\<And>l fd. fd \<noteq> sockfd sock \<Longrightarrow> poller_entry (sw_epoll s' l) fd = poller_entry (sw_epoll s l) fd"
    and "ts_nextConnectionId s' = ts_nextConnectionId s + 1"
proof -
  have adm: "admissible (NewConnection (a, chan, local, kern) sock peer) s" using ex by (simp del: admissible.simps)
  note inv = hostingD(2) [OF host]
  from arrival_hosting [OF host ex] obtain s' where ok: "TcpServer_newConnection (a, chan, local, kern) sock peer s = Inr s'"
    "hosting cb plan rem s'" "up s' a"
    using one by (auto simp: only_loop_def elim: returnsE)
  obtain l pool conn where "EventLoopThreadPool_getNextLoop (ts_threadPool s) = Inr (l, pool)"
    "effect_on {a} (entered l a pool conn s) s'"
    using newConnection_effect [OF inv adm ok(1)] by blast
  then have "only_loop s'"
    using one by (auto simp: only_loop_def EventLoopThreadPool_getNextLoop_def effect_on_def entered_def)
  moreover have "ts_nextConnectionId s' = ts_nextConnectionId s + 1" using newConnection_inv [OF inv adm ok(1)] by simp
  ultimately show thesis using that ok newConnection_others [OF inv adm ok(1)] by blast
qed

lemma event_up:
  assumes host: "hosting cb plan rem s" and a: "up s a" "rem a = e # evs"
  obtains s' where "srv_do (client_op a e) s = Inr s'" and "hosting cb plan (rem(a := evs)) s'"
    and "\<And>b. up s b \<Longrightarrow> up s' b"
proof -
  obtain answer revents where op: "client_op a e = ConnEvent a answer revents" by (cases e) simp_all
  have "expected cb plan rem (ConnEvent a answer revents) s" using a op by simp
  from client_event_hosting [OF host this] a(2) obtain s' where
    s': "srv_do (client_op a e) s = Inr s'" "hosting cb plan (rem(a := evs)) s'" "up s' a"
    by (auto simp: op elim: returnsE)
  have "effect_on {a} s s'" using TcpServer_event_inv [OF hostingD(2) [OF host], of a answer revents s'] s'(1) by (simp add: op)
  then have "up s' b" if "up s b" for b
    using that s'(3) by (cases "b = a") (simp_all add: up_def effect_on_def)
  with s' that show thesis by blast
qed

definition whole_kernel :: "nat \<Rightarrow> nat \<Rightarrow> write_answer" where
  "whole_kernel i len = Wrote len"

definition index_page :: string where
  "index_page = ''HTTP/1.1 200 OK'' @ CRLF @ ''Content-Length: 2'' @ CRLF @ ''Connection: Keep-Alive'' @ CRLF
     @ ''Content-Type: text/html'' @ CRLF @ ''User-Agent: '' @ CRLF @ ''server: tinyWS'' @ CRLF @ CRLF @ ''hi''"

text \<open>Both ask for the page; the request of the first one arrives in two pieces.\<close>

definition two_plans :: "nat \<Rightarrow> client_plan" where
  "two_plans a = ([(kGet, ''/'', [], [])],
     [(if a = 5 then [''GET / HT'', ''TP/1.1'' @ CRLF @ CRLF] else [''GET / HTTP/1.1'' @ CRLF @ CRLF], 0)])"

definition two_clients :: "srv_op list" where
  "two_clients = [NewConnection (5, 101, None, whole_kernel) (Socket_of 6) zero_address,
     NewConnection (7, 102, None, whole_kernel) (Socket_of 8) zero_address,
     client_op 5 (Arrives ''GET / HT''), client_op 7 (Arrives (''GET / HTTP/1.1'' @ CRLF @ CRLF)),
     client_op 5 (Arrives (''TP/1.1'' @ CRLF @ CRLF))]"

lemma index_reply: "reply (Some (httpCallback page_fs)) (kGet, ''/'', [], []) = index_page"
  and index_stays: "stays_open (response_to (Some (httpCallback page_fs)) (kGet, ''/'', [], []))"
proof -
  have order: "''Content-Type'' < ''server''" "''User-Agent'' < ''server''" "''Content-Type'' < ''User-Agent''"
    "\<not> ''server'' < ''Content-Type''" "\<not> ''User-Agent'' < ''Content-Type''"
    by code_simp+
  have dec: "dec 200 = ''200''" "dec (Suc (Suc 0)) = ''2''" by code_simp+
  have resp: "response_to (Some (httpCallback page_fs)) (kGet, ''/'', [], []) =
     \<lparr>resp_headers = [(''Content-Type'', ''text/html''), (''User-Agent'', []), (''server'', ''tinyWS'')],
       resp_statusCode = k200OK, resp_statusMessage = ''OK'', resp_closeConnection = False, resp_body = ''hi''\<rparr>"
    using order by (simp add: response_to_def response_for_def parsed_request_def httpCallback_cases serve_file_def
        page_fs_def response_setters HttpResponse_new_def HttpRequest_getHeader_def smap_get_def numeral_2_eq_2)
  show "reply (Some (httpCallback page_fs)) (kGet, ''/'', [], []) = index_page"
    using dec by (simp add: reply_def resp render_response_def render_header_def index_page_def)
  show "stays_open (response_to (Some (httpCallback page_fs)) (kGet, ''/'', [], []))"
    using dec by (simp add: stays_open_def resp render_response_def render_header_def)
qed

lemma two_plans_ok: "plan_ok (Some (httpCallback page_fs)) whole_kernel (two_plans a)"
proof -
  have "takes_all whole_kernel" by (simp add: takes_all_def whole_kernel_def)
  then show ?thesis
    using takes_all_some index_stays
    by (simp add: plan_ok_def two_plans_def to_come_def wf_msg_def wf_target_def delivered_def arrivals_def msg_text_def
        render_request_def extrabuf_size_def texts_def replies_def index_reply) (simp add: index_page_def)
qed

lemma two_clients_run:
  assumes ready: "ready_server page_fs [] 10 4 (\<lambda>_. Epoll_new) s"
  shows "all_expected (Some (httpCallback page_fs)) two_plans (\<lambda>a. script (snd (two_plans a))) two_clients s
    \<and> returns (fold_res srv_do two_clients s) (\<lambda>s'. up s' 5 \<and> up s' 7)"
proof -
  let ?cb = "Some (httpCallback page_fs)" and ?rem = "\<lambda>a. script (snd (two_plans a))"
  have host: "hosting ?cb two_plans ?rem s" by (rule ready_server_hosting [OF ready])
  have s: "sw_conns s = Map.empty" "ts_nextConnectionId s = 1" "only_loop s"
    using ready by (simp_all add: ready_server_def only_loop_def)
  have entry: "fd \<noteq> 4 \<Longrightarrow> poller_entry (sw_epoll s l) fd = (None, None)" for fd l
    using ready new_poller_entry by (simp add: ready_server_def)
  have ex1: "expected ?cb two_plans ?rem (NewConnection (5, 101, None, whole_kernel) (Socket_of 6) zero_address) s"
    using s entry two_plans_ok by (simp add: Socket_of_def)
  obtain s1 where s1: "TcpServer_newConnection (5, 101, None, whole_kernel) (Socket_of 6) zero_address s = Inr s1"
    "hosting ?cb two_plans ?rem s1" "up s1 5" "only_loop s1" "\<And>b. b \<noteq> 5 \<Longrightarrow> sw_conns s1 b = None"
    "\<And>sc. sw_conns s1 5 = Some sc \<Longrightarrow> ch_fd (tc_channel (sc_conn sc)) = 6"
    "\<And>l. poller_entry (sw_epoll s1 l) 8 = (None, None)" "ts_nextConnectionId s1 = 2"
    by (rule arrival_up [OF host ex1 s(3)]) (use s entry in \<open>simp_all add: Socket_of_def\<close>)
  have "ch_fd (tc_channel (sc_conn sc)) \<noteq> 8" if "sw_conns s1 b = Some sc" for b sc
    using that s1(5,6) by (cases "b = 5") auto
  then have ex2: "expected ?cb two_plans ?rem (NewConnection (7, 102, None, whole_kernel) (Socket_of 8) zero_address) s1"
    using s1(5,7,8) two_plans_ok by (auto simp: Socket_of_def)
  obtain s2 where s2: "TcpServer_newConnection (7, 102, None, whole_kernel) (Socket_of 8) zero_address s1 = Inr s2"
    "hosting ?cb two_plans ?rem s2" "up s2 7" "\<And>b. b \<noteq> 7 \<Longrightarrow> sw_conns s2 b = sw_conns s1 b"
    by (rule arrival_up [OF s1(2) ex2 s1(4)]) blast
  have "up s2 5" using s1(3) s2(4) by (simp add: up_def)
  have rem: "?rem 5 = [Arrives ''GET / HT'', Arrives (''TP/1.1'' @ CRLF @ CRLF)]"
    "?rem 7 = [Arrives (''GET / HTTP/1.1'' @ CRLF @ CRLF)]" by (simp_all add: two_plans_def)
  obtain s3 where s3: "srv_do (client_op 5 (Arrives ''GET / HT'')) s2 = Inr s3"
    "hosting ?cb two_plans (?rem(5 := [Arrives (''TP/1.1'' @ CRLF @ CRLF)])) s3" "\<And>b. up s2 b \<Longrightarrow> up s3 b"
    by (rule event_up [OF s2(2) \<open>up s2 5\<close> rem(1)]) blast
  have rem7: "(?rem(5 := [Arrives (''TP/1.1'' @ CRLF @ CRLF)])) 7 = [Arrives (''GET / HTTP/1.1'' @ CRLF @ CRLF)]"
    using rem by simp
  have rem5: "(?rem(5 := [Arrives (''TP/1.1'' @ CRLF @ CRLF)], 7 := [])) 5 = [Arrives (''TP/1.1'' @ CRLF @ CRLF)]"
    by simp
  obtain s4 where s4: "srv_do (client_op 7 (Arrives (''GET / HTTP/1.1'' @ CRLF @ CRLF))) s3 = Inr s4"
    "hosting ?cb two_plans (?rem(5 := [Arrives (''TP/1.1'' @ CRLF @ CRLF)], 7 := [])) s4" "\<And>b. up s3 b \<Longrightarrow> up s4 b"
    by (rule event_up [OF s3(2) s3(3) [OF s2(3)] rem7]) blast
  obtain s5 where s5: "srv_do (client_op 5 (Arrives (''TP/1.1'' @ CRLF @ CRLF))) s4 = Inr s5" "\<And>b. up s4 b \<Longrightarrow> up s5 b"
    by (rule event_up [OF s4(2) s4(3) [OF s3(3) [OF \<open>up s2 5\<close>]] rem5]) blast
  note ups = \<open>up s2 5\<close> s2(3) s3(3) s4(3) s5(2)
  show ?thesis
    unfolding two_clients_def
    using ex1 ex2 s1(1) s2(1) s3(1) s4(1) s5(1) ups rem
    by (simp del: expected.simps(1) add: rem)
qed


end
