(* ===== verification/Sync.thy ===== *)
theory Sync
  imports Prelude
begin

text \<open>
  \<open>base/MutexLock.h\<close>, \<open>base/Condition.h\<close>, \<open>base/Thread.h\<close>, \<open>base/Thread.cpp\<close> and
  \<open>base/Singleton.h\<close>. A mutex is its owner as the pthread library sees it, next to the
  \<open>holder_\<close> that the class keeps; a call that has to wait is \<open>None\<close> until it can go on. The
  last section is what the clients of a condition variable share: counting threads by what they
  do, and the discipline that loses no wakeup.
\<close>

section \<open>MutexLock\<close>

record mutex_lock =
  mx_owner :: "int option"
  mx_holder :: int

definition MutexLock_new :: mutex_lock where
  "MutexLock_new = \<lparr>mx_owner = None, mx_holder = 0\<rparr>"

definition MutexLock_delete :: "mutex_lock \<Rightarrow> unit res" where
  "MutexLock_delete m = cpp_assert (mx_holder m = 0) (cpp_assert (mx_owner m = None) (Inr ()))"

definition MutexLock_isLockedByThisThread :: "int \<Rightarrow> mutex_lock \<Rightarrow> bool" where
  "MutexLock_isLockedByThisThread tid m \<longleftrightarrow> mx_holder m = tid"

definition MutexLock_assertLocked :: "int \<Rightarrow> mutex_lock \<Rightarrow> unit res" where
  "MutexLock_assertLocked tid m = cpp_assert (MutexLock_isLockedByThisThread tid m) (Inr ())"

definition MutexLock_lock :: "int \<Rightarrow> mutex_lock \<Rightarrow> mutex_lock option" where
  "MutexLock_lock tid m =
     (if mx_owner m = None then Some (m\<lparr>mx_owner := Some tid, mx_holder := tid\<rparr>) else None)"

definition MutexLock_unlock :: "mutex_lock \<Rightarrow> mutex_lock" where
  "MutexLock_unlock m = m\<lparr>mx_holder := 0, mx_owner := None\<rparr>"

section \<open>Condition\<close>

text \<open>
  \<open>pthread_cond_wait\<close> releases the mutex and takes it again before it returns; neither half
  touches \<open>holder_\<close>.
\<close>

definition Condition_wait_begin :: "mutex_lock \<Rightarrow> mutex_lock" where
  "Condition_wait_begin m = m\<lparr>mx_owner := None\<rparr>"

definition Condition_wait_end :: "int \<Rightarrow> mutex_lock \<Rightarrow> mutex_lock option" where
  "Condition_wait_end tid m = (if mx_owner m = None then Some (m\<lparr>mx_owner := Some tid\<rparr>) else None)"

text \<open>
  A time is in nanoseconds. \<open>resolution\<close> is the answer of \<open>clock_getres\<close>; \<open>signalled\<close> is when
  the condition is signalled, if it is; \<open>pthread_cond_timedwait\<close> waits until the absolute time it
  is given.
\<close>

definition cond_timedwait :: "int \<Rightarrow> int option \<Rightarrow> int \<Rightarrow> bool \<times> int" where
  "cond_timedwait now signalled deadline =
     (if deadline \<le> now then (True, now)
      else case signalled of
          None \<Rightarrow> (True, deadline)
        | Some t \<Rightarrow> if t \<le> deadline then (False, max now t) else (True, deadline))"

definition Condition_waitForSecond :: "int \<Rightarrow> int \<Rightarrow> int option \<Rightarrow> int \<Rightarrow> bool \<times> int" where
  "Condition_waitForSecond resolution now signalled second =
     cond_timedwait now signalled (resolution + second * 10 ^ 9)"

section \<open>Threads that use a mutex and a condition variable\<close>

text \<open>What a thread is doing with the mutex; thread \<open>t\<close> has the kernel identifier \<open>t + 1\<close>.\<close>

datatype mx_pc = Outside | Inside | Sleeping

inductive mx_step :: "bool \<Rightarrow> (nat \<Rightarrow> mx_pc) \<times> mutex_lock \<Rightarrow> (nat \<Rightarrow> mx_pc) \<times> mutex_lock \<Rightarrow> bool"
  for waits where
  acquire: "pc t = Outside \<Longrightarrow> MutexLock_lock (int t + 1) m = Some m' \<Longrightarrow>
    mx_step waits (pc, m) (pc(t := Inside), m')"
| release: "pc t = Inside \<Longrightarrow> mx_step waits (pc, m) (pc(t := Outside), MutexLock_unlock m)"
| sleep: "waits \<Longrightarrow> pc t = Inside \<Longrightarrow> mx_step waits (pc, m) (pc(t := Sleeping), Condition_wait_begin m)"
| wake: "waits \<Longrightarrow> pc t = Sleeping \<Longrightarrow> Condition_wait_end (int t + 1) m = Some m' \<Longrightarrow>
    mx_step waits (pc, m) (pc(t := Inside), m')"

inductive_cases mx_stepE: "mx_step waits s s'"

definition mx_inv :: "(nat \<Rightarrow> mx_pc) \<times> mutex_lock \<Rightarrow> bool" where
  "mx_inv s \<longleftrightarrow> (\<forall>t. fst s t = Inside \<longleftrightarrow> mx_owner (snd s) = Some (int t + 1))
     \<and> (mx_owner (snd s) = None \<or> (\<exists>t. mx_owner (snd s) = Some (int t + 1)))"

lemma mx_inv_step: "mx_step waits s s' \<Longrightarrow> mx_inv s \<Longrightarrow> mx_inv s'"
  by (erule mx_stepE)
    (auto simp: mx_inv_def MutexLock_lock_def MutexLock_unlock_def Condition_wait_begin_def
      Condition_wait_end_def split: if_splits)

definition mx_start :: "(nat \<Rightarrow> mx_pc) \<times> mutex_lock" where
  "mx_start = (\<lambda>_. Outside, MutexLock_new)"

lemma mx_inv_start: "mx_inv mx_start"
  by (simp add: mx_start_def mx_inv_def MutexLock_new_def)

lemma mx_inv_reachable: "(mx_step waits)\<^sup>*\<^sup>* mx_start s \<Longrightarrow> mx_inv s"
  by (induction rule: rtranclp_induct) (auto intro: mx_inv_start mx_inv_step)

definition holder_inv :: "(nat \<Rightarrow> mx_pc) \<times> mutex_lock \<Rightarrow> bool" where
  "holder_inv s \<longleftrightarrow> mx_holder (snd s) = (case mx_owner (snd s) of None \<Rightarrow> 0 | Some tid \<Rightarrow> tid)
     \<and> (\<forall>t. fst s t \<noteq> Sleeping)"

lemma holder_inv_step: "mx_step False s s' \<Longrightarrow> holder_inv s \<Longrightarrow> holder_inv s'"
  by (erule mx_stepE) (auto simp: holder_inv_def MutexLock_lock_def MutexLock_unlock_def split: if_splits)

lemma holder_inv_start: "holder_inv mx_start"
  by (simp add: mx_start_def holder_inv_def MutexLock_new_def)

lemma holder_inv_reachable: "(mx_step False)\<^sup>*\<^sup>* mx_start s \<Longrightarrow> holder_inv s"
  by (induction rule: rtranclp_induct) (auto intro: holder_inv_start holder_inv_step)

text \<open>
  C32. The mutex excludes: whatever threads lock, unlock and wait on a condition, at most one is
  inside at a time. Without condition variables \<open>assertLocked\<close> passes exactly in the thread that
  holds the lock; after a wait it can fail in the thread that holds the lock, because \<open>wait\<close> does
  not set \<open>holder_\<close> again.
\<close>

theorem mutex_excludes:
  assumes "(mx_step waits)\<^sup>*\<^sup>* mx_start (pc, m)"
  shows "(pc t = Inside \<and> pc u = Inside \<longrightarrow> t = u)
    \<and> (\<not> waits \<longrightarrow> (MutexLock_assertLocked (int t + 1) m = Inr () \<longleftrightarrow> pc t = Inside))
    \<and> (\<exists>pc' m'. (mx_step True)\<^sup>*\<^sup>* mx_start (pc', m') \<and> pc' 0 = Inside
         \<and> MutexLock_assertLocked 1 m' = Inl AssertFailed)"
proof (intro conjI impI)
  have inv: "mx_inv (pc, m)" using assms by (rule mx_inv_reachable)
  then have "pc v = Inside \<Longrightarrow> mx_owner m = Some (int v + 1)" for v by (simp add: mx_inv_def)
  from this [of t] this [of u] show "t = u" if "pc t = Inside \<and> pc u = Inside" using that by simp
  show "MutexLock_assertLocked (int t + 1) m = Inr () \<longleftrightarrow> pc t = Inside" if "\<not> waits"
  proof -
    have "holder_inv (pc, m)" using assms that by (simp add: holder_inv_reachable)
    then have "mx_holder m = (case mx_owner m of None \<Rightarrow> 0 | Some tid \<Rightarrow> tid)" by (simp add: holder_inv_def)
    moreover have "pc t = Inside \<longleftrightarrow> mx_owner m = Some (int t + 1)" using inv by (simp add: mx_inv_def)
    ultimately show ?thesis
      by (cases "mx_owner m") (simp_all add: MutexLock_assertLocked_def MutexLock_isLockedByThisThread_def)
  qed
  let ?p1 = "(\<lambda>_. Outside)(0 := Inside)" and ?m1 = "\<lparr>mx_owner = Some 1, mx_holder = 1\<rparr>"
  let ?p2 = "?p1(0 := Sleeping)" and ?m2 = "\<lparr>mx_owner = None, mx_holder = 1\<rparr>"
  let ?p3 = "?p2(1 := Inside)" and ?m3 = "\<lparr>mx_owner = Some 2, mx_holder = 2\<rparr>"
  let ?p4 = "?p3(1 := Outside)" and ?p5 = "(?p3(1 := Outside))(0 := Inside)"
  let ?m5 = "\<lparr>mx_owner = Some 1, mx_holder = 0\<rparr>"
  have "mx_step True mx_start (?p1, ?m1)"
    unfolding mx_start_def by (rule mx_step.acquire) (simp_all add: MutexLock_lock_def MutexLock_new_def)
  moreover have "mx_step True (?p1, ?m1) (?p2, ?m2)"
    using mx_step.sleep [of True ?p1 0 ?m1] by (simp add: Condition_wait_begin_def)
  moreover have "mx_step True (?p2, ?m2) (?p3, ?m3)"
    by (rule mx_step.acquire) (simp_all add: MutexLock_lock_def)
  moreover have "mx_step True (?p3, ?m3) (?p4, MutexLock_new)"
    using mx_step.release [of ?p3 1 True ?m3] by (simp add: MutexLock_unlock_def MutexLock_new_def)
  moreover have "mx_step True (?p4, MutexLock_new) (?p5, ?m5)"
    by (rule mx_step.wake) (simp_all add: Condition_wait_end_def MutexLock_new_def)
  ultimately have "(mx_step True)\<^sup>*\<^sup>* mx_start (?p5, ?m5)"
    by (meson converse_rtranclp_into_rtranclp rtranclp.rtrancl_refl)
  then show "\<exists>pc' m'. (mx_step True)\<^sup>*\<^sup>* mx_start (pc', m') \<and> pc' 0 = Inside
      \<and> MutexLock_assertLocked 1 m' = Inl AssertFailed"
    by (intro exI [of _ ?p5] exI [of _ ?m5])
      (simp add: MutexLock_assertLocked_def MutexLock_isLockedByThisThread_def)
qed

theorem mutex_excludes_witness:
  "\<exists>pc m. (mx_step True)\<^sup>*\<^sup>* mx_start (pc, m) \<and> pc 0 = Inside \<and> MutexLock_assertLocked 1 m = Inl AssertFailed"
  using mutex_excludes [of False "\<lambda>_. Outside" MutexLock_new 0 1] by (simp add: mx_start_def)

text \<open>
  A timed wait does not wait: the deadline is computed from the resolution of the clock instead of
  its reading, so that it lies just after the epoch.
\<close>

lemma waitForSecond_immediate:
  assumes "resolution + second * 10 ^ 9 \<le> now"
  shows "Condition_waitForSecond resolution now signalled second = (True, now)"
  using assms by (simp add: Condition_waitForSecond_def cond_timedwait_def)

section \<open>Thread\<close>

record thread_t =
  th_started :: bool
  th_pthreadId :: nat
  th_tid :: int
  th_name :: string

definition Thread_new :: "string \<Rightarrow> thread_t" where
  "Thread_new name = \<lparr>th_started = False, th_pthreadId = 0, th_tid = 0, th_name = name\<rparr>"

text \<open>\<open>start\<close>: \<open>answer\<close> is the identifier \<open>pthread_create\<close> stores, if it succeeds.\<close>

definition Thread_start :: "nat option \<Rightarrow> thread_t \<Rightarrow> thread_t res" where
  "Thread_start answer th =
     cpp_assert (\<not> th_started th)
       (let th1 = th\<lparr>th_started := True\<rparr> in
        Inr (case answer of None \<Rightarrow> th1 | Some i \<Rightarrow> th1\<lparr>th_pthreadId := i\<rparr>))"

definition Thread_join :: "(nat \<Rightarrow> int) \<Rightarrow> thread_t \<Rightarrow> int res" where
  "Thread_join pthread_join th = cpp_assert (th_started th) (Inr (pthread_join (th_pthreadId th)))"

text \<open>
  The new thread: it stores its identifier and runs the function; \<open>Inl True\<close> is a
  \<open>std::exception\<close>, which aborts, \<open>Inl False\<close> another exception, which is thrown on.
\<close>

definition Thread_runInThread :: "int \<Rightarrow> ('w \<Rightarrow> bool + 'w) \<Rightarrow> thread_t \<Rightarrow> 'w \<Rightarrow> (thread_t \<times> (bool + 'w))" where
  "Thread_runInThread tid func th w = (th\<lparr>th_tid := tid\<rparr>, func w)"

section \<open>Singleton\<close>

record singleton =
  sg_once :: bool
  sg_value :: "nat option"

definition Singleton_new :: singleton where
  "Singleton_new = \<lparr>sg_once = False, sg_value = None\<rparr>"

definition Singleton_init :: "nat \<Rightarrow> singleton \<Rightarrow> singleton" where
  "Singleton_init a s = s\<lparr>sg_value := Some a\<rparr>"

definition Singleton_instance :: "nat \<Rightarrow> singleton \<Rightarrow> (nat \<times> singleton) res" where
  "Singleton_instance a s =
     (let s1 = (if sg_once s then s else Singleton_init a (s\<lparr>sg_once := True\<rparr>)) in
      case sg_value s1 of None \<Rightarrow> Inl OutOfBounds | Some v \<Rightarrow> Inr (v, s1))"

definition Singleton_destory :: "singleton \<Rightarrow> singleton" where
  "Singleton_destory s = s\<lparr>sg_value := None\<rparr>"

text \<open>The calls of \<open>instance\<close> by any threads, with the address an allocation would get.\<close>

primrec instances :: "nat list \<Rightarrow> singleton \<Rightarrow> (nat list \<times> singleton) res" where
  "instances [] s = Inr ([], s)"
| "instances (a # as) s =
     bind_res (Singleton_instance a s) (\<lambda>(v, s1).
     bind_res (instances as s1) (\<lambda>(vs, s2). Inr (v # vs, s2)))"

lemma instances_after: "sg_once s \<Longrightarrow> sg_value s = Some v \<Longrightarrow> instances as s = Inr (replicate (length as) v, s)"
  by (induction as) (simp_all add: Singleton_instance_def)

text \<open>All callers get the one object that the first call made; after \<open>destory\<close> a call faults.\<close>

lemma singleton_unique: "instances (a # as) Singleton_new =
    Inr (replicate (Suc (length as)) a, \<lparr>sg_once = True, sg_value = Some a\<rparr>)"
  by (simp add: Singleton_instance_def Singleton_new_def Singleton_init_def instances_after)

lemma singleton_after_destory: "sg_once s \<Longrightarrow> Singleton_instance a (Singleton_destory s) = Inl OutOfBounds"
  by (simp add: Singleton_instance_def Singleton_destory_def)

section \<open>Waiting without losing a wakeup\<close>

text \<open>How many of the threads \<open>0 .. n - 1\<close> are at a point that satisfies \<open>P\<close>.\<close>

definition threads_at :: "nat \<Rightarrow> (nat \<Rightarrow> 'p) \<Rightarrow> ('p \<Rightarrow> bool) \<Rightarrow> nat" where
  "threads_at n pc P = (\<Sum>t<n. if P (pc t) then 1 else 0)"

lemma threads_at_upd:
  assumes "t < n"
  shows "threads_at n (pc(t := x)) P + (if P (pc t) then 1 else 0) = threads_at n pc P + (if P x then 1 else 0)"
proof -
  have "threads_at n f P = (if P (f t) then 1 else 0) + (\<Sum>u\<in>{..<n} - {t}. if P (f u) then 1 else 0)" for f
    using assms by (simp add: threads_at_def sum.remove)
  from this [of pc] this [of "pc(t := x)"] show ?thesis by simp
qed

lemma threads_at_0: "threads_at n pc P = 0 \<longleftrightarrow> (\<forall>t<n. \<not> P (pc t))"
  by (auto simp: threads_at_def)

lemma threads_at_pos: "0 < threads_at n pc P \<longleftrightarrow> (\<exists>t<n. P (pc t))"
  using threads_at_0 [of n pc P] by auto

lemma threads_at_mono:
  "(\<And>t. t < n \<Longrightarrow> P (pc t) \<Longrightarrow> Q (pc' t)) \<Longrightarrow> threads_at n pc P \<le> threads_at n pc' Q"
  unfolding threads_at_def by (rule sum_mono) auto

lemma threads_at_le: "threads_at n pc P \<le> n"
proof -
  have "threads_at n pc P \<le> (\<Sum>t<n. 1)" unfolding threads_at_def by (rule sum_mono) auto
  then show ?thesis by simp
qed

text \<open>\<open>pthread_cond_signal\<close>: one of the threads that wait on the condition goes on, if any does.\<close>

definition notify :: "nat \<Rightarrow> ('p \<Rightarrow> bool) \<Rightarrow> ('p \<Rightarrow> 'p) \<Rightarrow> (nat \<Rightarrow> 'p) \<Rightarrow> (nat \<Rightarrow> 'p) \<Rightarrow> bool" where
  "notify n waits wake pc pc' \<longleftrightarrow>
     (if \<exists>u<n. waits (pc u) then \<exists>u<n. waits (pc u) \<and> pc' = pc(u := wake (pc u)) else pc' = pc)"

lemma notifyI: "u < n \<Longrightarrow> waits (pc u) \<Longrightarrow> pc' = pc(u := wake (pc u)) \<Longrightarrow> notify n waits wake pc pc'"
  unfolding notify_def by (rule iffD2 [OF if_P]) blast+

lemma notify_cases:
  assumes "notify n waits wake pc pc'"
  obtains (none) "pc' = pc" "threads_at n pc waits = 0"
  | (one) u where "u < n" "waits (pc u)" "pc' = pc(u := wake (pc u))"
proof (cases "\<exists>u<n. waits (pc u)")
  case True
  with assms one show thesis unfolding notify_def by (simp only: if_True) blast
next
  case False
  with assms have "pc' = pc" unfolding notify_def by (simp only: if_False)
  with False none show thesis by (simp add: threads_at_0)
qed

lemma notify_count:
  assumes "notify n waits wake pc pc'"
    and "\<And>p. waits p \<Longrightarrow> \<not> waits (wake p) \<and> ready (wake p) \<and> \<not> ready p"
  shows "if threads_at n pc waits = 0
    then threads_at n pc' waits = 0 \<and> threads_at n pc' ready = threads_at n pc ready
    else Suc (threads_at n pc' waits) = threads_at n pc waits
      \<and> threads_at n pc' ready = Suc (threads_at n pc ready)"
  using assms(1)
proof (cases rule: notify_cases)
  case none
  then show ?thesis by simp
next
  case (one u)
  have "threads_at n pc waits \<noteq> 0" unfolding threads_at_0 using one(1,2) by blast
  with one assms(2) [OF one(2)] threads_at_upd [OF one(1), of pc "wake (pc u)" waits]
    threads_at_upd [OF one(1), of pc "wake (pc u)" ready]
  show ?thesis by simp
qed

lemma notify_other:
  assumes "notify n waits wake pc pc'" and "\<And>p. waits p \<Longrightarrow> Q (wake p) = Q p"
  shows "threads_at n pc' Q = threads_at n pc Q"
  using assms(1)
proof (cases rule: notify_cases)
  case none
  then show ?thesis by simp
next
  case (one u)
  with assms(2) [OF one(2)] threads_at_upd [OF one(1), of pc "wake (pc u)" Q] show ?thesis by simp
qed

text \<open>
  A resource whose users wait on a condition variable: how much is available, how many users are
  on their way to it and how many are waiting. Whoever makes some available passes it to a waiting
  user, if there is one.
\<close>

definition wakeup_ok :: "nat \<times> nat \<times> nat \<Rightarrow> nat \<times> nat \<times> nat \<Rightarrow> bool" where
  "wakeup_ok before after \<longleftrightarrow> (case before of (a, r, w) \<Rightarrow> case after of (a', r', w') \<Rightarrow>
     (a' = Suc a \<and> (if w = 0 then w' = 0 else r' = Suc r \<and> Suc w' = w))
     \<or> (a = Suc a' \<and> r = Suc r' \<and> w' = w)
     \<or> a' = 0
     \<or> (a' = a \<and> r \<le> r' \<and> w' \<le> w))"

locale wakeups =
  fixes step :: "'s \<Rightarrow> 's \<Rightarrow> bool"
    and good :: "'s \<Rightarrow> bool"
    and available :: "'s \<Rightarrow> nat"
    and coming :: "'s \<Rightarrow> nat"
    and waiting :: "'s \<Rightarrow> nat"
  assumes step_ok: "step s s' \<Longrightarrow> good s \<Longrightarrow>
      wakeup_ok (available s, coming s, waiting s) (available s', coming s', waiting s')"
    and step_good: "step s s' \<Longrightarrow> good s \<Longrightarrow> good s'"
begin

definition served :: "'s \<Rightarrow> bool" where
  "served s \<longleftrightarrow> (0 < waiting s \<longrightarrow> available s \<le> coming s)"

lemma served_step: "step s s' \<Longrightarrow> good s \<Longrightarrow> served s \<Longrightarrow> served s'"
  using step_ok [of s s'] by (auto simp: served_def wakeup_ok_def split: if_splits)

lemma served_reachable:
  assumes "step\<^sup>*\<^sup>* s s'" and "good s" and "waiting s = 0"
  shows "good s' \<and> served s'"
  using assms
proof (induction rule: rtranclp_induct)
  case base
  then show ?case by (simp add: served_def)
next
  case (step y z)
  then show ?case using served_step step_good by blast
qed

lemma no_lost_wakeup_reachable:
  assumes "step\<^sup>*\<^sup>* s s'" and "good s" and "waiting s = 0" and "0 < waiting s'" and "0 < available s'"
  shows "0 < coming s'"
  using served_reachable [OF assms(1-3)] assms(4,5) by (simp add: served_def)

end

end
