(* ===== verification/BlockingQueue.thy ===== *)
theory BlockingQueue
  imports Sync
begin

text \<open>
  \<open>base/BlockingQueue.h\<close>. The data of the queue and what one
  call does to it under the mutex are functions (\<open>None\<close> when the call has to wait); the threads
  that call them are a step relation, in which a call is a step, or several when it waits, and a
  notification wakes one of the threads that wait on the condition variable it is made on. The
  histories of the elements put and taken are part of the state.
\<close>

section \<open>BlockingQueue\<close>

definition BlockingQueue_new :: "'a list" where
  "BlockingQueue_new = []"

definition BlockingQueue_put :: "'a \<Rightarrow> 'a list \<Rightarrow> 'a list" where
  "BlockingQueue_put v q = q @ [v]"

definition BlockingQueue_take :: "'a list \<Rightarrow> ('a \<times> 'a list) option" where
  "BlockingQueue_take q = (case q of [] \<Rightarrow> None | front # rest \<Rightarrow> Some (front, rest))"

definition BlockingQueue_size :: "'a list \<Rightarrow> nat" where
  "BlockingQueue_size q = length q"

datatype bq_pc = BqIdle | BqTaking | BqWaiting

record 'a bq_state =
  bq_queue :: "'a list"
  bq_pc_of :: "nat \<Rightarrow> bq_pc"
  bq_puts :: "'a list"
  bq_takes :: "'a list"

definition bq_start :: "'a bq_state" where
  "bq_start = \<lparr>bq_queue = BlockingQueue_new, bq_pc_of = (\<lambda>_. BqIdle), bq_puts = [], bq_takes = []\<rparr>"

inductive bq_step :: "nat \<Rightarrow> 'a bq_state \<Rightarrow> 'a bq_state \<Rightarrow> bool" for n where
  put: "t < n \<Longrightarrow> bq_pc_of s t = BqIdle \<Longrightarrow>
    notify n (\<lambda>p. p = BqWaiting) (\<lambda>_. BqTaking) (bq_pc_of s) pc' \<Longrightarrow>
    bq_step n s (s\<lparr>bq_queue := BlockingQueue_put v (bq_queue s), bq_pc_of := pc', bq_puts := bq_puts s @ [v]\<rparr>)"
| call_take: "t < n \<Longrightarrow> bq_pc_of s t = BqIdle \<Longrightarrow>
    bq_step n s (s\<lparr>bq_pc_of := (bq_pc_of s)(t := BqTaking)\<rparr>)"
| take_item: "t < n \<Longrightarrow> bq_pc_of s t = BqTaking \<Longrightarrow> BlockingQueue_take (bq_queue s) = Some (v, q) \<Longrightarrow>
    bq_step n s (s\<lparr>bq_queue := q, bq_pc_of := (bq_pc_of s)(t := BqIdle), bq_takes := bq_takes s @ [v]\<rparr>)"
| take_wait: "t < n \<Longrightarrow> bq_pc_of s t = BqTaking \<Longrightarrow> BlockingQueue_take (bq_queue s) = None \<Longrightarrow>
    bq_step n s (s\<lparr>bq_pc_of := (bq_pc_of s)(t := BqWaiting)\<rparr>)"
| spurious: "t < n \<Longrightarrow> bq_pc_of s t = BqWaiting \<Longrightarrow>
    bq_step n s (s\<lparr>bq_pc_of := (bq_pc_of s)(t := BqTaking)\<rparr>)"

inductive_cases bq_stepE: "bq_step n s s'"

lemma bq_fifo: "(bq_step n)\<^sup>*\<^sup>* bq_start s \<Longrightarrow> bq_puts s = bq_takes s @ bq_queue s"
proof (induction rule: rtranclp_induct)
  case base
  then show ?case by (simp add: bq_start_def BlockingQueue_new_def)
next
  case (step y z)
  from step(2,3) show ?case
    by (cases rule: bq_step.cases)
      (auto simp: BlockingQueue_put_def BlockingQueue_take_def split: list.splits)
qed

definition bq_taking :: "nat \<Rightarrow> 'a bq_state \<Rightarrow> nat" where
  "bq_taking n s = threads_at n (bq_pc_of s) (\<lambda>p. p = BqTaking)"

definition bq_waiting :: "nat \<Rightarrow> 'a bq_state \<Rightarrow> nat" where
  "bq_waiting n s = threads_at n (bq_pc_of s) (\<lambda>p. p = BqWaiting)"

lemma bq_step_ok:
  assumes "bq_step n s s'"
  shows "wakeup_ok (length (bq_queue s), bq_taking n s, bq_waiting n s)
    (length (bq_queue s'), bq_taking n s', bq_waiting n s')"
  using assms
proof (cases rule: bq_step.cases)
  case (put t pc' v)
  with notify_count [OF put(4), of "\<lambda>p. p = BqTaking"] show ?thesis
    by (auto simp: wakeup_ok_def BlockingQueue_put_def bq_taking_def bq_waiting_def split: if_splits)
next
  case (call_take t)
  then show ?thesis
    using threads_at_upd [of t n "bq_pc_of s" BqTaking "\<lambda>p. p = BqTaking"]
      threads_at_upd [of t n "bq_pc_of s" BqTaking "\<lambda>p. p = BqWaiting"]
    by (simp add: wakeup_ok_def bq_taking_def bq_waiting_def)
next
  case (take_item t v q)
  then show ?thesis
    using threads_at_upd [of t n "bq_pc_of s" BqIdle "\<lambda>p. p = BqTaking"]
      threads_at_upd [of t n "bq_pc_of s" BqIdle "\<lambda>p. p = BqWaiting"]
    by (auto simp: wakeup_ok_def bq_taking_def bq_waiting_def BlockingQueue_take_def split: list.splits)
next
  case (take_wait t)
  then show ?thesis by (auto simp: wakeup_ok_def BlockingQueue_take_def split: list.splits)
next
  case (spurious t)
  then show ?thesis
    using threads_at_upd [of t n "bq_pc_of s" BqTaking "\<lambda>p. p = BqTaking"]
      threads_at_upd [of t n "bq_pc_of s" BqTaking "\<lambda>p. p = BqWaiting"]
    by (simp add: wakeup_ok_def bq_taking_def bq_waiting_def)
qed

interpretation bq_wakeups: wakeups "bq_step n" "\<lambda>_. True" "\<lambda>s. length (bq_queue s)" "bq_taking n" "bq_waiting n"
  for n
  by unfold_locales (simp_all add: bq_step_ok)

text \<open>
  C17. The unbounded queue is first in, first out, and loses no wakeup: under every interleaving of
  its callers, spurious wakeups included, the elements taken are a prefix of those put, in order,
  what is left is in the queue, and a thread waits while there is an element only if another one
  is already on its way to take it.
\<close>

theorem blocking_queue_safe:
  assumes "(bq_step n)\<^sup>*\<^sup>* bq_start s"
  shows "bq_puts s = bq_takes s @ bq_queue s
    \<and> ((\<exists>t<n. bq_pc_of s t = BqWaiting) \<and> bq_queue s \<noteq> [] \<longrightarrow> (\<exists>u<n. bq_pc_of s u = BqTaking))"
proof (intro conjI impI)
  show "bq_puts s = bq_takes s @ bq_queue s" using assms by (rule bq_fifo)
  assume "(\<exists>t<n. bq_pc_of s t = BqWaiting) \<and> bq_queue s \<noteq> []"
  then have "0 < bq_waiting n s" "0 < length (bq_queue s)"
    by (auto simp: bq_waiting_def threads_at_pos)
  moreover have "bq_waiting n bq_start = 0" by (simp add: bq_waiting_def bq_start_def BlockingQueue_new_def threads_at_0)
  ultimately have "0 < bq_taking n s" by (rule_tac bq_wakeups.no_lost_wakeup_reachable [OF assms]) simp_all
  then show "\<exists>u<n. bq_pc_of s u = BqTaking" by (simp add: bq_taking_def threads_at_pos)
qed

theorem blocking_queue_safe_witness:
  "\<exists>s. (bq_step 2)\<^sup>*\<^sup>* bq_start s \<and> bq_puts s = bq_takes s @ bq_queue s \<and> bq_queue s = [7::nat]
     \<and> bq_pc_of s 1 = BqTaking"
proof -
  let ?s1 = "bq_start\<lparr>bq_pc_of := (\<lambda>_. BqIdle)(1 := BqTaking)\<rparr> :: nat bq_state"
  let ?s2 = "bq_start\<lparr>bq_pc_of := (\<lambda>_. BqIdle)(1 := BqWaiting)\<rparr> :: nat bq_state"
  let ?s3 = "?s1\<lparr>bq_queue := [7], bq_puts := [7]\<rparr>"
  have "bq_step 2 bq_start ?s1" using bq_step.call_take [of 1 2 "bq_start :: nat bq_state"] by (simp add: bq_start_def BlockingQueue_new_def)
  moreover have "bq_step 2 ?s1 ?s2"
    using bq_step.take_wait [of 1 2 ?s1] by (simp add: bq_start_def BlockingQueue_new_def BlockingQueue_take_def)
  moreover have "bq_step 2 ?s2 ?s3"
    using bq_step.put [of 0 2 ?s2 "(\<lambda>_. BqIdle)(1 := BqTaking)" 7]
    by (auto simp: bq_start_def BlockingQueue_new_def BlockingQueue_put_def notify_def intro!: exI [of _ 1])
  ultimately have r: "(bq_step 2)\<^sup>*\<^sup>* bq_start ?s3"
    by (meson converse_rtranclp_into_rtranclp rtranclp.rtrancl_refl)
  show ?thesis
    using r blocking_queue_safe [OF r] by (intro exI [of _ ?s3]) (simp add: bq_start_def BlockingQueue_new_def)
qed

end
