(* ===== verification/BoundedBlockingQueue.thy ===== *)
theory BoundedBlockingQueue
  imports Sync
begin

text \<open>
  \<open>base/BoundedBlockingQueue.h\<close>: the data of the queue and what one call does to it under the
  mutex (\<open>None\<close> when the call has to wait), and the threads that call it as a step relation.
  There are two overloads of \<open>put\<close>, which wait on different condition variables: the one that
  copies its argument on \<open>notEmpty_\<close>, the one that moves it on \<open>notFull_\<close>.
\<close>

section \<open>The data\<close>

record 'a bounded_queue =
  bd_size :: nat
  bd_maxSize :: nat
  bd_queue :: "'a list"

text \<open>\<open>queue_(maxSize_)\<close> makes a deque of that many value-initialised elements.\<close>

definition BoundedBlockingQueue_new :: "nat \<Rightarrow> 'a \<Rightarrow> 'a bounded_queue" where
  "BoundedBlockingQueue_new maxSize zero =
     \<lparr>bd_size = 0, bd_maxSize = maxSize, bd_queue = replicate maxSize zero\<rparr>"

definition BoundedBlockingQueue_put :: "'a \<Rightarrow> 'a bounded_queue \<Rightarrow> 'a bounded_queue res option" where
  "BoundedBlockingQueue_put v q =
     (if bd_size q = bd_maxSize q then None
      else Some (cpp_assert (bd_size q < bd_maxSize q)
        (Inr (q\<lparr>bd_queue := bd_queue q @ [v], bd_size := bd_size q + 1\<rparr>))))"

definition BoundedBlockingQueue_take :: "'a bounded_queue \<Rightarrow> ('a \<times> 'a bounded_queue) res option" where
  "BoundedBlockingQueue_take q =
     (if bd_size q = 0 then None
      else Some (cpp_assert (0 < bd_size q \<and> bd_size q \<le> bd_maxSize q)
        (case bd_queue q of
           [] \<Rightarrow> Inl OutOfBounds
         | front # rest \<Rightarrow> Inr (front, q\<lparr>bd_queue := rest, bd_size := bd_size q - 1\<rparr>))))"

definition BoundedBlockingQueue_size :: "'a bounded_queue \<Rightarrow> nat" where
  "BoundedBlockingQueue_size q = bd_size q"

definition BoundedBlockingQueue_capacity :: "'a bounded_queue \<Rightarrow> nat" where
  "BoundedBlockingQueue_capacity q = bd_maxSize q"

section \<open>The threads\<close>

text \<open>The flag of a put says whether it is the overload that copies.\<close>

datatype 'a bd_pc = BdIdle | BdPutting 'a bool | BdPutWait 'a bool | BdTaking | BdTakeWait

fun on_notEmpty :: "'a bd_pc \<Rightarrow> bool" where
  "on_notEmpty BdTakeWait = True"
| "on_notEmpty (BdPutWait v copies) = copies"
| "on_notEmpty p = False"

fun on_notFull :: "'a bd_pc \<Rightarrow> bool" where
  "on_notFull (BdPutWait v copies) = (\<not> copies)"
| "on_notFull p = False"

fun bd_wake :: "'a bd_pc \<Rightarrow> 'a bd_pc" where
  "bd_wake BdTakeWait = BdTaking"
| "bd_wake (BdPutWait v copies) = BdPutting v copies"
| "bd_wake p = p"

record 'a bd_state =
  bd_data :: "'a bounded_queue"
  bd_pc_of :: "nat \<Rightarrow> 'a bd_pc"
  bd_puts :: "'a list"
  bd_takes :: "'a list"

definition bd_start :: "nat \<Rightarrow> 'a \<Rightarrow> 'a bd_state" where
  "bd_start maxSize zero =
     \<lparr>bd_data = BoundedBlockingQueue_new maxSize zero, bd_pc_of = (\<lambda>_. BdIdle), bd_puts = [], bd_takes = []\<rparr>"

text \<open>\<open>copies\<close> says whether the copying overload is used at all, \<open>spurious\<close> whether a wait may end
  without a notification.\<close>

inductive bd_step :: "nat \<Rightarrow> bool \<Rightarrow> bool \<Rightarrow> 'a bd_state \<Rightarrow> 'a bd_state \<Rightarrow> bool" for n copies spurious where
  call_put: "t < n \<Longrightarrow> bd_pc_of s t = BdIdle \<Longrightarrow> (c \<longrightarrow> copies) \<Longrightarrow>
    bd_step n copies spurious s (s\<lparr>bd_pc_of := (bd_pc_of s)(t := BdPutting v c)\<rparr>)"
| put_item: "t < n \<Longrightarrow> bd_pc_of s t = BdPutting v c \<Longrightarrow> BoundedBlockingQueue_put v (bd_data s) = Some (Inr q) \<Longrightarrow>
    notify n on_notEmpty bd_wake ((bd_pc_of s)(t := BdIdle)) pc' \<Longrightarrow>
    bd_step n copies spurious s (s\<lparr>bd_data := q, bd_pc_of := pc', bd_puts := bd_puts s @ [v]\<rparr>)"
| put_wait: "t < n \<Longrightarrow> bd_pc_of s t = BdPutting v c \<Longrightarrow> BoundedBlockingQueue_put v (bd_data s) = None \<Longrightarrow>
    bd_step n copies spurious s (s\<lparr>bd_pc_of := (bd_pc_of s)(t := BdPutWait v c)\<rparr>)"
| call_take: "t < n \<Longrightarrow> bd_pc_of s t = BdIdle \<Longrightarrow>
    bd_step n copies spurious s (s\<lparr>bd_pc_of := (bd_pc_of s)(t := BdTaking)\<rparr>)"
| take_item: "t < n \<Longrightarrow> bd_pc_of s t = BdTaking \<Longrightarrow> BoundedBlockingQueue_take (bd_data s) = Some (Inr (v, q)) \<Longrightarrow>
    notify n on_notFull bd_wake ((bd_pc_of s)(t := BdIdle)) pc' \<Longrightarrow>
    bd_step n copies spurious s (s\<lparr>bd_data := q, bd_pc_of := pc', bd_takes := bd_takes s @ [v]\<rparr>)"
| take_wait: "t < n \<Longrightarrow> bd_pc_of s t = BdTaking \<Longrightarrow> BoundedBlockingQueue_take (bd_data s) = None \<Longrightarrow>
    bd_step n copies spurious s (s\<lparr>bd_pc_of := (bd_pc_of s)(t := BdTakeWait)\<rparr>)"
| wake_up: "spurious \<Longrightarrow> t < n \<Longrightarrow> on_notEmpty (bd_pc_of s t) \<or> on_notFull (bd_pc_of s t) \<Longrightarrow>
    bd_step n copies spurious s (s\<lparr>bd_pc_of := (bd_pc_of s)(t := bd_wake (bd_pc_of s t))\<rparr>)"

inductive_cases bd_stepE: "bd_step n copies spurious s s'"

section \<open>What comes out\<close>

definition bd_inv :: "nat \<Rightarrow> 'a \<Rightarrow> 'a bd_state \<Rightarrow> bool" where
  "bd_inv maxSize zero s \<longleftrightarrow> bd_maxSize (bd_data s) = maxSize \<and> bd_size (bd_data s) \<le> maxSize
     \<and> length (bd_queue (bd_data s)) = bd_size (bd_data s) + maxSize
     \<and> replicate maxSize zero @ bd_puts s = bd_takes s @ bd_queue (bd_data s)"

lemma bd_inv_start: "bd_inv maxSize zero (bd_start maxSize zero)"
  by (simp add: bd_inv_def bd_start_def BoundedBlockingQueue_new_def)

lemma bd_put_cases:
  "BoundedBlockingQueue_put v q = Some (Inr q') \<longleftrightarrow> bd_size q < bd_maxSize q
     \<and> q' = q\<lparr>bd_queue := bd_queue q @ [v], bd_size := bd_size q + 1\<rparr>"
  "BoundedBlockingQueue_put v q = None \<longleftrightarrow> bd_size q = bd_maxSize q"
  by (auto simp: BoundedBlockingQueue_put_def)

lemma bd_take_cases:
  "BoundedBlockingQueue_take q = Some (Inr (v, q')) \<longleftrightarrow> 0 < bd_size q \<and> bd_size q \<le> bd_maxSize q
     \<and> bd_queue q = v # bd_queue q' \<and> q' = q\<lparr>bd_queue := bd_queue q', bd_size := bd_size q - 1\<rparr>"
  "BoundedBlockingQueue_take q = None \<longleftrightarrow> bd_size q = 0"
  by (auto simp: BoundedBlockingQueue_take_def split: list.split if_splits)

lemma bd_take_parts:
  assumes "BoundedBlockingQueue_take q = Some (Inr (v, q'))"
  shows "bd_queue q = v # bd_queue q'" "bd_size q = Suc (bd_size q')" "bd_maxSize q' = bd_maxSize q"
    "bd_size q \<le> bd_maxSize q"
  using assms by (auto simp: BoundedBlockingQueue_take_def split: list.splits if_splits)

lemma bd_inv_step:
  assumes "bd_step n copies spurious s s'" and "bd_inv maxSize zero s"
  shows "bd_inv maxSize zero s'"
  using assms(1)
proof (cases rule: bd_step.cases)
  case (put_item t v c q pc')
  with assms(2) show ?thesis by (auto simp: bd_inv_def bd_put_cases)
next
  case (take_item t v q pc')
  with assms(2) bd_take_parts [OF take_item(4)] show ?thesis by (simp add: bd_inv_def)
qed (use assms(2) in \<open>simp_all add: bd_inv_def\<close>)

lemma bd_inv_reachable:
  "(bd_step n copies spurious)\<^sup>*\<^sup>* (bd_start maxSize zero) s \<Longrightarrow> bd_inv maxSize zero s"
  by (induction rule: rtranclp_induct) (auto intro: bd_inv_start bd_inv_step)

text \<open>
  C20. The bound holds and no assertion can fail, whatever the callers do; but the deque starts with
  as many value-initialised elements as the bound, so that the first takes return those instead of
  what was put, every element comes out that many takes late, and the deque holds up to twice the
  bound.
\<close>

theorem bounded_queue_contents:
  assumes "(bd_step n copies spurious)\<^sup>*\<^sup>* (bd_start maxSize zero) s"
  shows "BoundedBlockingQueue_size (bd_data s) \<le> BoundedBlockingQueue_capacity (bd_data s)
    \<and> BoundedBlockingQueue_capacity (bd_data s) = maxSize
    \<and> length (bd_queue (bd_data s)) = BoundedBlockingQueue_size (bd_data s) + maxSize
    \<and> length (bd_takes s) + BoundedBlockingQueue_size (bd_data s) = length (bd_puts s)
    \<and> bd_takes s = take (length (bd_takes s)) (replicate maxSize zero @ bd_puts s)
    \<and> BoundedBlockingQueue_put v (bd_data s) \<noteq> Some (Inl e)
    \<and> BoundedBlockingQueue_take (bd_data s) \<noteq> Some (Inl e)"
proof -
  have inv: "bd_inv maxSize zero s" using assms by (rule bd_inv_reachable)
  then have eq: "replicate maxSize zero @ bd_puts s = bd_takes s @ bd_queue (bd_data s)" by (simp add: bd_inv_def)
  from inv have "length (bd_queue (bd_data s)) = bd_size (bd_data s) + maxSize" by (simp add: bd_inv_def)
  moreover from arg_cong [OF eq, of length]
  have "maxSize + length (bd_puts s) = length (bd_takes s) + length (bd_queue (bd_data s))" by simp
  ultimately have "length (bd_takes s) + bd_size (bd_data s) = length (bd_puts s)" by simp
  moreover have "bd_takes s = take (length (bd_takes s)) (replicate maxSize zero @ bd_puts s)"
    by (simp only: eq) simp
  moreover have "BoundedBlockingQueue_put v (bd_data s) \<noteq> Some (Inl e)"
    using inv by (auto simp: bd_inv_def BoundedBlockingQueue_put_def)
  moreover have "BoundedBlockingQueue_take (bd_data s) \<noteq> Some (Inl e)"
    using inv by (auto simp: bd_inv_def BoundedBlockingQueue_take_def split: list.split)
  ultimately show ?thesis
    using inv by (simp add: bd_inv_def BoundedBlockingQueue_size_def BoundedBlockingQueue_capacity_def)
qed

section \<open>Moving puts lose no wakeup\<close>

fun copying :: "'a bd_pc \<Rightarrow> bool" where
  "copying (BdPutting v c) = c"
| "copying (BdPutWait v c) = c"
| "copying p = False"

fun to_notEmpty :: "'a bd_pc \<Rightarrow> bool" where
  "to_notEmpty BdTaking = True"
| "to_notEmpty (BdPutting v c) = c"
| "to_notEmpty p = False"

fun to_notFull :: "'a bd_pc \<Rightarrow> bool" where
  "to_notFull (BdPutting v c) = (\<not> c)"
| "to_notFull p = False"

definition bd_good :: "nat \<Rightarrow> 'a \<Rightarrow> 'a bd_state \<Rightarrow> bool" where
  "bd_good maxSize zero s \<longleftrightarrow> bd_inv maxSize zero s \<and> (\<forall>t. \<not> copying (bd_pc_of s t))"

lemma wake_kinds:
  "on_notEmpty p \<Longrightarrow> \<not> on_notEmpty (bd_wake p) \<and> to_notEmpty (bd_wake p) \<and> \<not> to_notEmpty p"
  "on_notFull p \<Longrightarrow> \<not> on_notFull (bd_wake p) \<and> to_notFull (bd_wake p) \<and> \<not> to_notFull p"
  "on_notEmpty p \<Longrightarrow> on_notFull (bd_wake p) = on_notFull p \<and> to_notFull (bd_wake p) = to_notFull p"
  "on_notFull p \<Longrightarrow> on_notEmpty (bd_wake p) = on_notEmpty p \<and> to_notEmpty (bd_wake p) = to_notEmpty p"
  "copying (bd_wake p) = copying p"
  by (cases p; simp)+

lemma wake_moves:
  "on_notEmpty p \<or> on_notFull p \<Longrightarrow> \<not> on_notEmpty (bd_wake p) \<and> \<not> on_notFull (bd_wake p)
     \<and> (to_notEmpty (bd_wake p) = on_notEmpty p) \<and> (to_notFull (bd_wake p) = on_notFull p)
     \<and> \<not> to_notEmpty p \<and> \<not> to_notFull p"
  by (cases p) auto

lemma notify_copying: "notify n waits bd_wake pc pc' \<Longrightarrow> \<forall>t. \<not> copying (pc t) \<Longrightarrow> \<forall>t. \<not> copying (pc' t)"
  by (erule notify_cases) (auto simp: wake_kinds(5))

lemma notify_notFull:
  "notify n on_notFull bd_wake pc pc' \<Longrightarrow> threads_at n pc' to_notEmpty = threads_at n pc to_notEmpty"
  "notify n on_notFull bd_wake pc pc' \<Longrightarrow> threads_at n pc' on_notEmpty = threads_at n pc on_notEmpty"
  by (erule notify_other, simp add: wake_kinds)+

lemma notify_notEmpty:
  "notify n on_notEmpty bd_wake pc pc' \<Longrightarrow> threads_at n pc' to_notFull = threads_at n pc to_notFull"
  "notify n on_notEmpty bd_wake pc pc' \<Longrightarrow> threads_at n pc' on_notFull = threads_at n pc on_notFull"
  by (erule notify_other, simp add: wake_kinds)+

lemma bd_good_step:
  assumes "bd_step n False spurious s s'" and "bd_good maxSize zero s"
  shows "bd_good maxSize zero s'"
proof -
  have pc: "\<forall>t. \<not> copying (bd_pc_of s t)" using assms(2) by (simp add: bd_good_def)
  have "\<forall>t. \<not> copying (bd_pc_of s' t)"
    using assms(1)
  proof (cases rule: bd_step.cases)
    case (put_item t v c q pc')
    then show ?thesis using notify_copying [OF put_item(5)] pc by simp
  next
    case (take_item t v q pc')
    then show ?thesis using notify_copying [OF take_item(5)] pc by simp
  next
    case (put_wait t v c)
    have "\<not> c" using pc [rule_format, of t] put_wait(3) by simp
    with put_wait(1) pc show ?thesis by simp
  qed (use pc in \<open>simp_all add: wake_kinds(5)\<close>)
  moreover have "bd_inv maxSize zero s'"
    using assms(2) by (intro bd_inv_step [OF assms(1)]) (simp add: bd_good_def)
  ultimately show ?thesis by (simp add: bd_good_def)
qed

abbreviation pcs_at :: "nat \<Rightarrow> 'a bd_state \<Rightarrow> ('a bd_pc \<Rightarrow> bool) \<Rightarrow> nat" where
  "pcs_at n s P \<equiv> threads_at n (bd_pc_of s) P"

lemma bd_items_ok:
  assumes "bd_step n False spurious s s'" and "bd_good maxSize zero s"
  shows "wakeup_ok (bd_size (bd_data s), pcs_at n s to_notEmpty, pcs_at n s on_notEmpty)
    (bd_size (bd_data s'), pcs_at n s' to_notEmpty, pcs_at n s' on_notEmpty)"
  using assms(1)
proof (cases rule: bd_step.cases)
  case (call_put t c v)
  then show ?thesis
    using threads_at_upd [of t n "bd_pc_of s" "BdPutting v c" to_notEmpty]
      threads_at_upd [of t n "bd_pc_of s" "BdPutting v c" on_notEmpty]
    by (simp add: wakeup_ok_def)
next
  case (put_item t v c q pc')
  have "\<not> c" using assms(2) put_item(3) by (auto simp: bd_good_def dest: spec [of _ t])
  with put_item show ?thesis
    using threads_at_upd [of t n "bd_pc_of s" BdIdle to_notEmpty]
      threads_at_upd [of t n "bd_pc_of s" BdIdle on_notEmpty]
      notify_count [OF put_item(5) wake_kinds(1)]
    by (auto simp: wakeup_ok_def bd_put_cases split: if_splits)
next
  case (put_wait t v c)
  have "\<not> c" using assms(2) put_wait(3) by (auto simp: bd_good_def dest: spec [of _ t])
  with put_wait show ?thesis
    using threads_at_upd [of t n "bd_pc_of s" "BdPutWait v c" to_notEmpty]
      threads_at_upd [of t n "bd_pc_of s" "BdPutWait v c" on_notEmpty]
    by (simp add: wakeup_ok_def)
next
  case (call_take t)
  then show ?thesis
    using threads_at_upd [of t n "bd_pc_of s" BdTaking to_notEmpty]
      threads_at_upd [of t n "bd_pc_of s" BdTaking on_notEmpty]
    by (simp add: wakeup_ok_def)
next
  case (take_item t v q pc')
  have "bd_size (bd_data s) = Suc (bd_size q)"
    by (rule bd_take_parts [OF take_item(4)])
  moreover note notify_notFull [OF take_item(5)]
  ultimately show ?thesis
    using threads_at_upd [of t n "bd_pc_of s" BdIdle to_notEmpty] take_item
      threads_at_upd [of t n "bd_pc_of s" BdIdle on_notEmpty]
    by (simp add: wakeup_ok_def)
next
  case (take_wait t)
  then show ?thesis by (simp add: wakeup_ok_def bd_take_cases)
next
  case (wake_up t)
  then show ?thesis
    using threads_at_upd [of t n "bd_pc_of s" "bd_wake (bd_pc_of s t)" to_notEmpty]
      threads_at_upd [of t n "bd_pc_of s" "bd_wake (bd_pc_of s t)" on_notEmpty] wake_moves [OF wake_up(4)]
    by (auto simp: wakeup_ok_def split: if_splits)
qed

definition free_slots :: "'a bd_state \<Rightarrow> nat" where
  "free_slots s = bd_maxSize (bd_data s) - bd_size (bd_data s)"

lemma bd_slots_ok:
  assumes "bd_step n False spurious s s'" and "bd_good maxSize zero s"
  shows "wakeup_ok (free_slots s, pcs_at n s to_notFull, pcs_at n s on_notFull)
    (free_slots s', pcs_at n s' to_notFull, pcs_at n s' on_notFull)"
  using assms(1)
proof (cases rule: bd_step.cases)
  case (call_put t c v)
  then show ?thesis
    using threads_at_upd [of t n "bd_pc_of s" "BdPutting v c" to_notFull]
      threads_at_upd [of t n "bd_pc_of s" "BdPutting v c" on_notFull]
    by (simp add: wakeup_ok_def free_slots_def)
next
  case (put_item t v c q pc')
  have "\<not> c" using assms(2) put_item(3) by (auto simp: bd_good_def dest: spec [of _ t])
  moreover have "free_slots s = Suc (free_slots s')"
    using put_item(1,4) by (auto simp: bd_put_cases free_slots_def)
  ultimately show ?thesis
    using threads_at_upd [of t n "bd_pc_of s" BdIdle to_notFull] put_item
      threads_at_upd [of t n "bd_pc_of s" BdIdle on_notFull] notify_notEmpty [OF put_item(5)]
    by (simp add: wakeup_ok_def)
next
  case (put_wait t v c)
  then show ?thesis by (simp add: wakeup_ok_def bd_put_cases free_slots_def)
next
  case (call_take t)
  then show ?thesis
    using threads_at_upd [of t n "bd_pc_of s" BdTaking to_notFull]
      threads_at_upd [of t n "bd_pc_of s" BdTaking on_notFull]
    by (simp add: wakeup_ok_def free_slots_def)
next
  case (take_item t v q pc')
  have "free_slots s' = Suc (free_slots s)"
    using take_item(1) bd_take_parts [OF take_item(4)] by (simp add: free_slots_def)
  with take_item show ?thesis
    using threads_at_upd [of t n "bd_pc_of s" BdIdle to_notFull]
      threads_at_upd [of t n "bd_pc_of s" BdIdle on_notFull]
      notify_count [OF take_item(5) wake_kinds(2)]
    by (auto simp: wakeup_ok_def split: if_splits)
next
  case (take_wait t)
  then show ?thesis
    using threads_at_upd [of t n "bd_pc_of s" BdTakeWait to_notFull]
      threads_at_upd [of t n "bd_pc_of s" BdTakeWait on_notFull]
    by (simp add: wakeup_ok_def free_slots_def)
next
  case (wake_up t)
  then show ?thesis
    using threads_at_upd [of t n "bd_pc_of s" "bd_wake (bd_pc_of s t)" to_notFull]
      threads_at_upd [of t n "bd_pc_of s" "bd_wake (bd_pc_of s t)" on_notFull] wake_moves [OF wake_up(4)]
    by (auto simp: wakeup_ok_def free_slots_def split: if_splits)
qed

interpretation bd_items: wakeups "bd_step n False spurious" "bd_good maxSize zero"
    "\<lambda>s. bd_size (bd_data s)" "\<lambda>s. pcs_at n s to_notEmpty" "\<lambda>s. pcs_at n s on_notEmpty"
  for n spurious maxSize zero
  by unfold_locales (blast intro: bd_items_ok bd_good_step)+

interpretation bd_slots: wakeups "bd_step n False spurious" "bd_good maxSize zero"
    free_slots "\<lambda>s. pcs_at n s to_notFull" "\<lambda>s. pcs_at n s on_notFull"
  for n spurious maxSize zero
  by unfold_locales (blast intro: bd_slots_ok bd_good_step)+

lemma bd_good_start: "bd_good maxSize zero (bd_start maxSize zero)"
  by (simp add: bd_good_def bd_inv_start) (simp add: bd_start_def)

lemma no_waiters_start: "pcs_at n (bd_start maxSize zero) on_notEmpty = 0" "pcs_at n (bd_start maxSize zero) on_notFull = 0"
  by (simp_all add: bd_start_def threads_at_0)

text \<open>
  C25. As long as only the moving overload of \<open>put\<close> is used, no wakeup is lost in either direction:
  a taker waits while there are elements only if another thread is on its way to take one, and a
  putter waits while there is room only if another thread is on its way to put.
\<close>

theorem moving_puts_live:
  assumes "(bd_step n False spurious)\<^sup>*\<^sup>* (bd_start maxSize zero) s"
  shows "((\<exists>t<n. bd_pc_of s t = BdTakeWait) \<and> 0 < BoundedBlockingQueue_size (bd_data s) \<longrightarrow>
        (\<exists>u<n. bd_pc_of s u = BdTaking))
    \<and> ((\<exists>t<n. \<exists>v c. bd_pc_of s t = BdPutWait v c)
          \<and> BoundedBlockingQueue_size (bd_data s) < BoundedBlockingQueue_capacity (bd_data s) \<longrightarrow>
        (\<exists>u<n. \<exists>v. bd_pc_of s u = BdPutting v False))"
proof (intro conjI impI)
  have good: "bd_good maxSize zero s" using bd_items.served_reachable [OF assms bd_good_start no_waiters_start(1)] by simp
  then have pc: "\<not> copying (bd_pc_of s t)" for t by (simp add: bd_good_def)
  {
    assume "(\<exists>t<n. bd_pc_of s t = BdTakeWait) \<and> 0 < BoundedBlockingQueue_size (bd_data s)"
    then have "0 < pcs_at n s on_notEmpty" "0 < bd_size (bd_data s)"
      by (auto simp: threads_at_pos BoundedBlockingQueue_size_def intro: on_notEmpty.simps(1))
    then have "0 < pcs_at n s to_notEmpty"
      by (rule bd_items.no_lost_wakeup_reachable [OF assms bd_good_start no_waiters_start(1)])
    then obtain u where u: "u < n" "to_notEmpty (bd_pc_of s u)" by (auto simp: threads_at_pos)
    moreover have "bd_pc_of s u = BdTaking" using u(2) pc [of u] by (cases "bd_pc_of s u") auto
    ultimately show "\<exists>u<n. bd_pc_of s u = BdTaking" by blast
  next
    assume *: "(\<exists>t<n. \<exists>v c. bd_pc_of s t = BdPutWait v c)
          \<and> BoundedBlockingQueue_size (bd_data s) < BoundedBlockingQueue_capacity (bd_data s)"
    then obtain t v c where t: "t < n" "bd_pc_of s t = BdPutWait v c" by blast
    with pc [of t] have "on_notFull (bd_pc_of s t)" by simp
    with t(1) * have "0 < pcs_at n s on_notFull" "0 < free_slots s"
      by (auto simp: threads_at_pos free_slots_def BoundedBlockingQueue_size_def BoundedBlockingQueue_capacity_def)
    then have "0 < pcs_at n s to_notFull"
      by (rule bd_slots.no_lost_wakeup_reachable [OF assms bd_good_start no_waiters_start(2)])
    then obtain u where u: "u < n" "to_notFull (bd_pc_of s u)" by (auto simp: threads_at_pos)
    moreover have "\<exists>v. bd_pc_of s u = BdPutting v False" using u(2) by (cases "bd_pc_of s u") auto
    ultimately show "\<exists>u<n. \<exists>v. bd_pc_of s u = BdPutting v False" by blast
  }
qed

section \<open>Copying puts can deadlock\<close>

text \<open>Two threads, and a queue with room for one element.\<close>

definition duo :: "'a bd_pc \<Rightarrow> 'a bd_pc \<Rightarrow> nat \<Rightarrow> 'a bd_pc" where
  "duo p0 p1 t = (if t = 0 then p0 else if t = 1 then p1 else BdIdle)"

lemma duo_simps [simp]:
  "duo p0 p1 0 = p0" "duo p0 p1 (Suc 0) = p1"
  "(duo p0 p1)(0 := p) = duo p p1" "(duo p0 p1)(Suc 0 := p) = duo p0 p"
  by (auto simp: duo_def)

lemma two_threads: "(t::nat) < 2 \<longleftrightarrow> t = 0 \<or> t = Suc 0"
  by auto

definition duo_state :: "'a \<Rightarrow> nat \<Rightarrow> 'a list \<Rightarrow> 'a bd_pc \<Rightarrow> 'a bd_pc \<Rightarrow> 'a list \<Rightarrow> 'a list \<Rightarrow> 'a bd_state" where
  "duo_state zero k q p0 p1 puts takes =
     \<lparr>bd_data = \<lparr>bd_size = k, bd_maxSize = 1, bd_queue = q\<rparr>, bd_pc_of = duo p0 p1,
      bd_puts = puts, bd_takes = takes\<rparr>"

lemma duo_notify: "\<not> waits p0 \<Longrightarrow> \<not> waits p1 \<Longrightarrow> notify 2 waits wake (duo p0 p1) pc' \<longleftrightarrow> pc' = duo p0 p1"
  by (auto simp: notify_def two_threads)

lemmas duo_defs = duo_state_def BoundedBlockingQueue_put_def BoundedBlockingQueue_take_def duo_notify

lemma copying_put_stuck_reached:
  "(bd_step 2 True False)\<^sup>*\<^sup>* (bd_start 1 zero) (duo_state zero 0 [v] (BdPutWait w True) BdTakeWait [v] [zero])"
proof -
  let ?s = "duo_state zero"
  have "bd_start 1 zero = ?s 0 [zero] BdIdle BdIdle [] []"
    by (auto simp: bd_start_def duo_state_def BoundedBlockingQueue_new_def duo_def)
  moreover have "bd_step 2 True False (?s 0 [zero] BdIdle BdIdle [] []) (?s 0 [zero] (BdPutting v True) BdIdle [] [])"
    using bd_step.call_put [of 0 2 "?s 0 [zero] BdIdle BdIdle [] []" True True False v] by (simp add: duo_state_def)
  moreover have "bd_step 2 True False (?s 0 [zero] (BdPutting v True) BdIdle [] []) (?s 1 [zero, v] BdIdle BdIdle [v] [])"
    using bd_step.put_item [of 0 2 "?s 0 [zero] (BdPutting v True) BdIdle [] []" v True _ _ True False]
    by (simp add: duo_defs)
  moreover have "bd_step 2 True False (?s 1 [zero, v] BdIdle BdIdle [v] []) (?s 1 [zero, v] (BdPutting w True) BdIdle [v] [])"
    using bd_step.call_put [of 0 2 "?s 1 [zero, v] BdIdle BdIdle [v] []" True True False w] by (simp add: duo_state_def)
  moreover have "bd_step 2 True False (?s 1 [zero, v] (BdPutting w True) BdIdle [v] [])
      (?s 1 [zero, v] (BdPutWait w True) BdIdle [v] [])"
    using bd_step.put_wait [of 0 2 "?s 1 [zero, v] (BdPutting w True) BdIdle [v] []" w True True False]
    by (simp add: duo_defs)
  moreover have "bd_step 2 True False (?s 1 [zero, v] (BdPutWait w True) BdIdle [v] [])
      (?s 1 [zero, v] (BdPutWait w True) BdTaking [v] [])"
    using bd_step.call_take [of 1 2 "?s 1 [zero, v] (BdPutWait w True) BdIdle [v] []" True False] by (simp add: duo_state_def)
  moreover have "bd_step 2 True False (?s 1 [zero, v] (BdPutWait w True) BdTaking [v] [])
      (?s 0 [v] (BdPutWait w True) BdIdle [v] [zero])"
    using bd_step.take_item [of 1 2 "?s 1 [zero, v] (BdPutWait w True) BdTaking [v] []" zero _ _ True False]
    by (simp add: duo_defs)
  moreover have "bd_step 2 True False (?s 0 [v] (BdPutWait w True) BdIdle [v] [zero])
      (?s 0 [v] (BdPutWait w True) BdTaking [v] [zero])"
    using bd_step.call_take [of 1 2 "?s 0 [v] (BdPutWait w True) BdIdle [v] [zero]" True False] by (simp add: duo_state_def)
  moreover have "bd_step 2 True False (?s 0 [v] (BdPutWait w True) BdTaking [v] [zero])
      (?s 0 [v] (BdPutWait w True) BdTakeWait [v] [zero])"
    using bd_step.take_wait [of 1 2 "?s 0 [v] (BdPutWait w True) BdTaking [v] [zero]" True False] by (simp add: duo_defs)
  ultimately show ?thesis by (simp add: converse_rtranclp_into_rtranclp)
qed

lemma copying_put_stuck: "\<not> bd_step 2 True False (duo_state zero k q (BdPutWait w True) BdTakeWait puts takes) s'"
  by (auto simp: duo_state_def two_threads elim!: bd_stepE)

text \<open>
  C38. The copying overload of \<open>put\<close> can deadlock its users: with room for one element, a producer
  that finds the queue full waits on \<open>notEmpty_\<close>, the consumer's notification goes to
  \<open>notFull_\<close>, and both then wait for ever although the queue has room.
\<close>

theorem copying_put_deadlock:
  "\<exists>s. (bd_step 2 True False)\<^sup>*\<^sup>* (bd_start 1 zero) s
    \<and> bd_pc_of s 0 = BdPutWait v True \<and> bd_pc_of s 1 = BdTakeWait
    \<and> BoundedBlockingQueue_size (bd_data s) < BoundedBlockingQueue_capacity (bd_data s)
    \<and> (\<forall>s'. \<not> bd_step 2 True False s s')"
proof (intro exI conjI allI)
  show "(bd_step 2 True False)\<^sup>*\<^sup>* (bd_start 1 zero) (duo_state zero 0 [v] (BdPutWait v True) BdTakeWait [v] [zero])"
    by (rule copying_put_stuck_reached)
qed (simp_all add: copying_put_stuck, simp_all add: duo_state_def BoundedBlockingQueue_size_def
      BoundedBlockingQueue_capacity_def)

section \<open>Witnesses\<close>

theorem bounded_queue_contents_witness:
  "(bd_step 2 True False)\<^sup>*\<^sup>* (bd_start 1 (0::nat)) (duo_state 0 0 [7] (BdPutWait 8 True) BdTakeWait [7] [0])
    \<and> bd_takes (duo_state 0 0 [7] (BdPutWait 8 True) BdTakeWait [7] [0]) = take 1 ([0] @ [7::nat])"
  using bounded_queue_contents [OF copying_put_stuck_reached [of "0::nat" 7 8]]
    copying_put_stuck_reached [of "0::nat" 7 8]
  by (simp add: duo_state_def)

lemma duo_idle [simp]: "(duo p0 p1)(2 := BdIdle) = duo p0 p1"
  by (auto simp: duo_def)

lemma woken_taker_reached:
  "(bd_step 3 False False)\<^sup>*\<^sup>* (bd_start 1 zero) (duo_state zero 1 [zero, v] BdTaking BdTakeWait [v] [])"
proof -
  let ?s = "\<lambda>p0 p1. duo_state zero 0 [zero] p0 p1 [] []"
  let ?s2 = "(?s BdTakeWait BdTakeWait)\<lparr>bd_pc_of := (duo BdTakeWait BdTakeWait)(2 := BdPutting v False)\<rparr>"
  have "bd_start 1 zero = ?s BdIdle BdIdle"
    by (auto simp: bd_start_def duo_state_def BoundedBlockingQueue_new_def duo_def)
  moreover have "bd_step 3 False False (?s BdIdle BdIdle) (?s BdTaking BdIdle)"
    using bd_step.call_take [of 0 3 "?s BdIdle BdIdle" False False] by (simp add: duo_state_def)
  moreover have "bd_step 3 False False (?s BdTaking BdIdle) (?s BdTakeWait BdIdle)"
    using bd_step.take_wait [of 0 3 "?s BdTaking BdIdle" False False] by (simp add: duo_defs)
  moreover have "bd_step 3 False False (?s BdTakeWait BdIdle) (?s BdTakeWait BdTaking)"
    using bd_step.call_take [of 1 3 "?s BdTakeWait BdIdle" False False] by (simp add: duo_state_def)
  moreover have "bd_step 3 False False (?s BdTakeWait BdTaking) (?s BdTakeWait BdTakeWait)"
    using bd_step.take_wait [of 1 3 "?s BdTakeWait BdTaking" False False] by (simp add: duo_defs)
  moreover have "bd_step 3 False False (?s BdTakeWait BdTakeWait) ?s2"
    using bd_step.call_put [of 2 3 "?s BdTakeWait BdTakeWait" False False False v] by (simp add: duo_state_def duo_def)
  moreover have "notify 3 on_notEmpty bd_wake (duo BdTakeWait BdTakeWait) (duo BdTaking BdTakeWait)"
    by (rule notifyI [of 0]) simp_all
  then have "bd_step 3 False False ?s2 (duo_state zero 1 [zero, v] BdTaking BdTakeWait [v] [])"
    using bd_step.put_item [of 2 3 ?s2 v False _ "duo BdTaking BdTakeWait" False False]
    by (simp add: duo_defs)
  ultimately show ?thesis by (simp add: converse_rtranclp_into_rtranclp)
qed

theorem moving_puts_live_witness:
  "\<exists>s. (bd_step 3 False False)\<^sup>*\<^sup>* (bd_start 1 (0::nat)) s \<and> bd_pc_of s 1 = BdTakeWait
    \<and> BoundedBlockingQueue_size (bd_data s) = 1 \<and> (\<exists>u<3. bd_pc_of s u = BdTaking)"
proof -
  have "1 < (3::nat)" by simp
  then show ?thesis
    using moving_puts_live [OF woken_taker_reached [of "0::nat" 7]] woken_taker_reached [of "0::nat" 7]
    by (intro exI [of _ "duo_state (0::nat) 1 [0, 7] BdTaking BdTakeWait [7] []"])
      (auto simp: duo_state_def BoundedBlockingQueue_size_def intro!: exI [of _ 0])
qed

end
