(* ===== verification/ThreadPool.thy ===== *)
theory ThreadPool
  imports Sync
begin

text \<open>
  \<open>base/ThreadPool.h\<close> and \<open>base/ThreadPool.cpp\<close>. The pool's data and what one operation does to it
  under the mutex are functions; the workers, the threads that submit tasks and the one that stops
  the pool are a step relation. A task is an identifier; an empty \<open>std::function\<close> is \<open>None\<close>.
\<close>

section \<open>The data\<close>

record 't task_pool =
  tp_name :: string
  tp_threads :: "string list"
  tp_dequeue :: "'t option list"
  tp_running :: bool

definition ThreadPool_new :: "string \<Rightarrow> 't task_pool" where
  "ThreadPool_new name = \<lparr>tp_name = name, tp_threads = [], tp_dequeue = [], tp_running = False\<rparr>"

text \<open>A negative number of threads becomes a length that \<open>reserve\<close> refuses.\<close>

definition ThreadPool_start :: "int \<Rightarrow> 't task_pool \<Rightarrow> 't task_pool res" where
  "ThreadPool_start numThreads p =
     cpp_assert (tp_threads p = [])
       (if numThreads < 0 then Inl LengthError
        else Inr (p\<lparr>tp_running := True,
                    tp_threads := map (\<lambda>i. tp_name p @ snprintf 32 (dec i)) [0..<nat numThreads]\<rparr>))"

text \<open>\<open>run\<close> on a pool with threads; without any, the task runs in the caller.\<close>

definition ThreadPool_run ::
  "('t \<Rightarrow> 'w \<Rightarrow> 'w res) \<Rightarrow> 't option \<Rightarrow> 't task_pool \<times> 'w \<Rightarrow> ('t task_pool \<times> 'w) res" where
  "ThreadPool_run call task s =
     (if tp_threads (fst s) = []
      then (case task of None \<Rightarrow> Inl BadFunctionCall
            | Some f \<Rightarrow> bind_res (call f (snd s)) (\<lambda>w. Inr (fst s, w)))
      else Inr ((fst s)\<lparr>tp_dequeue := tp_dequeue (fst s) @ [task]\<rparr>, snd s))"

text \<open>\<open>None\<close> while the call waits; otherwise the task it returns, which is empty when the pool has
  been stopped and nothing is queued.\<close>

definition ThreadPool_take :: "'t task_pool \<Rightarrow> ('t option \<times> 't task_pool) option" where
  "ThreadPool_take p =
     (case tp_dequeue p of
        [] \<Rightarrow> if tp_running p then None else Some (None, p)
      | task # rest \<Rightarrow> Some (task, p\<lparr>tp_dequeue := rest\<rparr>))"

definition ThreadPool_stop :: "'t task_pool \<Rightarrow> 't task_pool" where
  "ThreadPool_stop p = p\<lparr>tp_running := False\<rparr>"

definition ThreadPool_delete :: "'t task_pool \<Rightarrow> 't task_pool" where
  "ThreadPool_delete p = (if tp_running p then ThreadPool_stop p else p)"

section \<open>The threads\<close>

datatype 't tp_pc = TpCheck | TpTaking | TpWaiting | TpRunning 't | TpExited

record 't tp_state =
  tp_pool :: "'t task_pool"
  tp_pc_of :: "nat \<Rightarrow> 't tp_pc"
  tp_submitted :: "'t option list"
  tp_taken :: "'t option list"

text \<open>\<open>notifyAll\<close>.\<close>

definition wake_all :: "(nat \<Rightarrow> 't tp_pc) \<Rightarrow> nat \<Rightarrow> 't tp_pc" where
  "wake_all pc t = (if pc t = TpWaiting then TpTaking else pc t)"

text \<open>A worker \<open>t\<close> runs \<open>runInThread\<close>.\<close>

inductive tp_worker :: "nat \<Rightarrow> 't tp_state \<Rightarrow> 't tp_state \<Rightarrow> bool" for n where
  check_running: "t < n \<Longrightarrow> tp_pc_of s t = TpCheck \<Longrightarrow> tp_running (tp_pool s) \<Longrightarrow>
    tp_worker n s (s\<lparr>tp_pc_of := (tp_pc_of s)(t := TpTaking)\<rparr>)"
| check_stopped: "t < n \<Longrightarrow> tp_pc_of s t = TpCheck \<Longrightarrow> \<not> tp_running (tp_pool s) \<Longrightarrow>
    tp_worker n s (s\<lparr>tp_pc_of := (tp_pc_of s)(t := TpExited)\<rparr>)"
| take_task: "t < n \<Longrightarrow> tp_pc_of s t = TpTaking \<Longrightarrow> tp_dequeue (tp_pool s) \<noteq> [] \<Longrightarrow>
    ThreadPool_take (tp_pool s) = Some (task, p) \<Longrightarrow>
    tp_worker n s (s\<lparr>tp_pool := p, tp_taken := tp_taken s @ [task],
      tp_pc_of := (tp_pc_of s)(t := (case task of None \<Rightarrow> TpCheck | Some f \<Rightarrow> TpRunning f))\<rparr>)"
| take_nothing: "t < n \<Longrightarrow> tp_pc_of s t = TpTaking \<Longrightarrow> tp_dequeue (tp_pool s) = [] \<Longrightarrow>
    ThreadPool_take (tp_pool s) = Some (task, p) \<Longrightarrow>
    tp_worker n s (s\<lparr>tp_pool := p, tp_pc_of := (tp_pc_of s)(t := TpCheck)\<rparr>)"
| take_wait: "t < n \<Longrightarrow> tp_pc_of s t = TpTaking \<Longrightarrow> ThreadPool_take (tp_pool s) = None \<Longrightarrow>
    tp_worker n s (s\<lparr>tp_pc_of := (tp_pc_of s)(t := TpWaiting)\<rparr>)"
| task_done: "t < n \<Longrightarrow> tp_pc_of s t = TpRunning f \<Longrightarrow>
    tp_worker n s (s\<lparr>tp_pc_of := (tp_pc_of s)(t := TpCheck)\<rparr>)"

inductive tp_step :: "nat \<Rightarrow> 't tp_state \<Rightarrow> 't tp_state \<Rightarrow> bool" for n where
  worker: "tp_worker n s s' \<Longrightarrow> tp_step n s s'"
| submit: "notify n (\<lambda>p. p = TpWaiting) (\<lambda>_. TpTaking) (tp_pc_of s) pc' \<Longrightarrow>
    ThreadPool_run call task (tp_pool s, ()) = Inr (p, ()) \<Longrightarrow> tp_threads (tp_pool s) \<noteq> [] \<Longrightarrow>
    tp_step n s (s\<lparr>tp_pool := p, tp_pc_of := pc', tp_submitted := tp_submitted s @ [task]\<rparr>)"
| stop: "tp_step n s (s\<lparr>tp_pool := ThreadPool_stop (tp_pool s),
      tp_pc_of := wake_all (tp_pc_of s)\<rparr>)"
| spurious: "t < n \<Longrightarrow> tp_pc_of s t = TpWaiting \<Longrightarrow>
    tp_step n s (s\<lparr>tp_pc_of := (tp_pc_of s)(t := TpTaking)\<rparr>)"

inductive_cases tp_workerE: "tp_worker n s s'"
inductive_cases tp_stepE: "tp_step n s s'"

text \<open>A pool that has just been started.\<close>

definition tp_start :: "'t task_pool \<Rightarrow> 't tp_state" where
  "tp_start p = \<lparr>tp_pool = p, tp_pc_of = (\<lambda>_. TpCheck), tp_submitted = [], tp_taken = []\<rparr>"

section \<open>Safety\<close>

definition tp_inv :: "'t tp_state \<Rightarrow> bool" where
  "tp_inv s \<longleftrightarrow> tp_submitted s = tp_taken s @ tp_dequeue (tp_pool s)
     \<and> (\<forall>t. tp_pc_of s t = TpWaiting \<longrightarrow> tp_running (tp_pool s))"

lemma ThreadPool_take_cases:
  "ThreadPool_take p = None \<longleftrightarrow> tp_dequeue p = [] \<and> tp_running p"
  "tp_dequeue p = [] \<Longrightarrow> ThreadPool_take p = Some (task, p') \<longleftrightarrow> \<not> tp_running p \<and> task = None \<and> p' = p"
  "tp_dequeue p \<noteq> [] \<Longrightarrow> ThreadPool_take p = Some (task, p') \<Longrightarrow>
     tp_dequeue p = task # tp_dequeue p' \<and> tp_running p' = tp_running p \<and> tp_threads p' = tp_threads p"
  by (auto simp: ThreadPool_take_def split: list.splits)

lemma ThreadPool_run_queued:
  "ThreadPool_run call task (p, ()) = Inr (p', ()) \<Longrightarrow> tp_threads p \<noteq> [] \<Longrightarrow>
   p' = p\<lparr>tp_dequeue := tp_dequeue p @ [task]\<rparr>"
  by (simp add: ThreadPool_run_def)

lemma tp_inv_worker:
  assumes "tp_worker n s s'" and "tp_inv s"
  shows "tp_inv s'"
  using assms(1)
proof (cases rule: tp_worker.cases)
  case (take_task t task p)
  with assms(2) ThreadPool_take_cases(3) [OF take_task(4,5)] show ?thesis
    by (auto simp: tp_inv_def split: option.splits)
next
  case (take_nothing t task p)
  with assms(2) show ?thesis by (auto simp: tp_inv_def ThreadPool_take_cases)
next
  case (take_wait t)
  with assms(2) show ?thesis by (auto simp: tp_inv_def ThreadPool_take_cases)
qed (use assms(2) in \<open>auto simp: tp_inv_def\<close>)

lemma tp_inv_step:
  assumes "tp_step n s s'" and "tp_inv s"
  shows "tp_inv s'"
  using assms(1)
proof (cases rule: tp_step.cases)
  case worker
  then show ?thesis using assms(2) by (rule tp_inv_worker)
next
  case (submit pc' call task p)
  have "tp_running (tp_pool s)" if "pc' t = TpWaiting" for t
    using submit(2)
  proof (cases rule: notify_cases)
    case none
    with that assms(2) show ?thesis by (auto simp: tp_inv_def)
  next
    case (one u)
    with that assms(2) show ?thesis by (auto simp: tp_inv_def split: if_splits)
  qed
  with submit assms(2) ThreadPool_run_queued [OF submit(3,4)] show ?thesis by (auto simp: tp_inv_def)
next
  case stop
  with assms(2) show ?thesis by (auto simp: tp_inv_def ThreadPool_stop_def wake_all_def split: if_splits)
next
  case (spurious t)
  with assms(2) show ?thesis by (auto simp: tp_inv_def)
qed

definition tp_at :: "nat \<Rightarrow> 't tp_pc \<Rightarrow> 't tp_state \<Rightarrow> nat" where
  "tp_at n p s = threads_at n (tp_pc_of s) (\<lambda>q. q = p)"

lemma tp_at_upd: "t < n \<Longrightarrow> tp_at n p (s\<lparr>tp_pc_of := (tp_pc_of s)(t := q)\<rparr>)
    + (if tp_pc_of s t = p then 1 else 0) = tp_at n p s + (if q = p then 1 else 0)"
  using threads_at_upd [of t n "tp_pc_of s" q "\<lambda>q. q = p"] by (simp add: tp_at_def)

lemma tp_step_ok:
  assumes "tp_step n s s'"
  shows "wakeup_ok (length (tp_dequeue (tp_pool s)), tp_at n TpTaking s, tp_at n TpWaiting s)
    (length (tp_dequeue (tp_pool s')), tp_at n TpTaking s', tp_at n TpWaiting s')"
  using assms
proof (cases rule: tp_step.cases)
  case worker
  then show ?thesis
  proof (cases rule: tp_worker.cases)
    case (check_running t)
    then show ?thesis
      using tp_at_upd [of t n TpTaking s TpTaking] tp_at_upd [of t n TpWaiting s TpTaking]
      by (simp add: wakeup_ok_def)
  next
    case (check_stopped t)
    then show ?thesis
      using tp_at_upd [of t n TpTaking s TpExited] tp_at_upd [of t n TpWaiting s TpExited]
      by (simp add: wakeup_ok_def)
  next
    case (take_task t task p)
    let ?q = "case task of None \<Rightarrow> TpCheck | Some f \<Rightarrow> TpRunning f"
    have "?q \<noteq> TpTaking" "?q \<noteq> TpWaiting" by (auto split: option.split)
    then show ?thesis
      using take_task ThreadPool_take_cases(3) [OF take_task(4,5)]
        threads_at_upd [OF take_task(2), of "tp_pc_of s" ?q "\<lambda>q. q = TpTaking"]
        threads_at_upd [OF take_task(2), of "tp_pc_of s" ?q "\<lambda>q. q = TpWaiting"]
      by (simp add: wakeup_ok_def tp_at_def)
  next
    case (take_nothing t task p)
    then show ?thesis by (simp add: wakeup_ok_def ThreadPool_take_cases)
  next
    case (take_wait t)
    then show ?thesis by (simp add: wakeup_ok_def ThreadPool_take_cases)
  next
    case (task_done t f)
    then show ?thesis
      using tp_at_upd [of t n TpTaking s TpCheck] tp_at_upd [of t n TpWaiting s TpCheck]
      by (simp add: wakeup_ok_def)
  qed
next
  case (submit pc' call task p)
  with notify_count [OF submit(2), of "\<lambda>p. p = TpTaking"] ThreadPool_run_queued [OF submit(3,4)]
  show ?thesis by (auto simp: wakeup_ok_def tp_at_def split: if_splits)
next
  case stop
  have "tp_at n TpTaking s \<le> tp_at n TpTaking s'" "tp_at n TpWaiting s' = 0"
    unfolding tp_at_def stop(1) threads_at_0 by (auto simp: wake_all_def intro!: threads_at_mono)
  with stop show ?thesis by (simp add: wakeup_ok_def ThreadPool_stop_def)
next
  case (spurious t)
  then show ?thesis
    using tp_at_upd [of t n TpTaking s TpTaking] tp_at_upd [of t n TpWaiting s TpTaking]
    by (simp add: wakeup_ok_def)
qed

interpretation tp_wakeups: wakeups "tp_step n" tp_inv "\<lambda>s. length (tp_dequeue (tp_pool s))"
    "tp_at n TpTaking" "tp_at n TpWaiting"
  for n
  by unfold_locales (blast intro: tp_step_ok tp_inv_step)+

lemma tp_start_ok: "tp_dequeue p = [] \<Longrightarrow> tp_inv (tp_start p)" "tp_at n TpWaiting (tp_start p) = 0"
  by (simp_all add: tp_inv_def tp_start_def tp_at_def threads_at_0)


section \<open>Stopping\<close>

fun tp_rank :: "'t tp_pc \<Rightarrow> nat" where
  "tp_rank TpExited = 0"
| "tp_rank TpCheck = 1"
| "tp_rank (TpRunning f) = 2"
| "tp_rank TpTaking = 3"
| "tp_rank TpWaiting = 3"

definition tp_work :: "nat \<Rightarrow> 't tp_state \<Rightarrow> nat" where
  "tp_work n s = (\<Sum>t<n. tp_rank (tp_pc_of s t))"

lemma tp_work_upd:
  assumes "t < n"
  shows "tp_work n (s\<lparr>tp_pc_of := (tp_pc_of s)(t := q)\<rparr>) + tp_rank (tp_pc_of s t) = tp_work n s + tp_rank q"
proof -
  have "tp_work n s' = tp_rank (tp_pc_of s' t) + (\<Sum>u\<in>{..<n} - {t}. tp_rank (tp_pc_of s' u))" for s' :: "'t tp_state"
    using assms by (simp add: tp_work_def sum.remove)
  from this [of s] this [of "s\<lparr>tp_pc_of := (tp_pc_of s)(t := q)\<rparr>"] show ?thesis by simp
qed

lemma tp_work_le: "tp_work n s \<le> 3 * n"
proof -
  have "tp_rank p \<le> 3" for p :: "'t tp_pc" by (cases p) auto
  then have "tp_work n s \<le> (\<Sum>t<n. 3)" unfolding tp_work_def by (intro sum_mono) simp
  then show ?thesis by simp
qed

lemma tp_worker_stopped:
  assumes "tp_worker n s s'" and "\<not> tp_running (tp_pool s)"
  shows "tp_work n s' < tp_work n s \<and> \<not> tp_running (tp_pool s')
    \<and> length (tp_taken s') + tp_at n TpTaking s' \<le> length (tp_taken s) + tp_at n TpTaking s"
  using assms(1)
proof (cases rule: tp_worker.cases)
  case (check_stopped t)
  with assms(2) show ?thesis
    using tp_work_upd [of t n s TpExited] tp_at_upd [of t n TpTaking s TpExited] by simp
next
  case (take_task t task p)
  let ?q = "case task of None \<Rightarrow> TpCheck | Some f \<Rightarrow> TpRunning f"
  have q: "tp_rank ?q \<le> 2" "?q \<noteq> TpTaking" by (auto split: option.split)
  have "tp_work n s' = tp_work n (s\<lparr>tp_pc_of := (tp_pc_of s)(t := ?q)\<rparr>)"
    "tp_at n TpTaking s' = tp_at n TpTaking (s\<lparr>tp_pc_of := (tp_pc_of s)(t := ?q)\<rparr>)"
    by (simp_all add: take_task(1) tp_work_def tp_at_def)
  then show ?thesis
    using tp_work_upd [OF take_task(2), of s ?q] tp_at_upd [OF take_task(2), of TpTaking s ?q] q take_task(1,3)
      ThreadPool_take_cases(3) [OF take_task(4,5)] assms(2)
    by simp
next
  case (take_nothing t task p)
  then have "tp_work n s' = tp_work n (s\<lparr>tp_pc_of := (tp_pc_of s)(t := TpCheck)\<rparr>)"
    "tp_at n TpTaking s' = tp_at n TpTaking (s\<lparr>tp_pc_of := (tp_pc_of s)(t := TpCheck)\<rparr>)"
    by (simp_all add: tp_work_def tp_at_def)
  then show ?thesis
    using tp_work_upd [OF take_nothing(2), of s TpCheck] tp_at_upd [OF take_nothing(2), of TpTaking s TpCheck]
      take_nothing(1,3,5) assms(2)
    by (simp add: ThreadPool_take_cases(2) [OF take_nothing(4)])
next
  case (task_done t f)
  with assms(2) show ?thesis
    using tp_work_upd [of t n s TpCheck] tp_at_upd [of t n TpTaking s TpCheck] by simp
qed (use assms(2) in \<open>simp_all add: ThreadPool_take_cases(1)\<close>)

lemma tp_workers_stopped:
  assumes "(tp_worker n ^^ k) s s'" and "\<not> tp_running (tp_pool s)"
  shows "k + tp_work n s' \<le> tp_work n s \<and> \<not> tp_running (tp_pool s')
    \<and> length (tp_taken s') + tp_at n TpTaking s' \<le> length (tp_taken s) + tp_at n TpTaking s"
  using assms(1)
proof (induction k arbitrary: s')
  case 0
  with assms(2) show ?case by simp
next
  case (Suc k)
  then obtain s1 where s1: "(tp_worker n ^^ k) s s1" "tp_worker n s1 s'" by auto
  with Suc.IH [OF s1(1)] tp_worker_stopped [OF s1(2)] show ?case by auto
qed

lemma tp_progress:
  assumes "tp_inv s" and "\<not> tp_running (tp_pool s)" and "t < n" and "tp_pc_of s t \<noteq> TpExited"
  shows "\<exists>s'. tp_worker n s s'"
proof (cases "tp_pc_of s t")
  case TpCheck
  with assms show ?thesis by (blast intro: tp_worker.check_stopped)
next
  case TpTaking
  show ?thesis
  proof (cases "tp_dequeue (tp_pool s) = []")
    case True
    then have "ThreadPool_take (tp_pool s) = Some (None, tp_pool s)" using assms(2) by (simp add: ThreadPool_take_cases)
    with tp_worker.take_nothing [OF assms(3) TpTaking True] show ?thesis by blast
  next
    case False
    then obtain task rest where "ThreadPool_take (tp_pool s) = Some (task, rest)"
      by (auto simp: ThreadPool_take_def neq_Nil_conv)
    with tp_worker.take_task [OF assms(3) TpTaking False] show ?thesis by blast
  qed
next
  case (TpRunning f)
  with assms(3) show ?thesis by (blast intro: tp_worker.task_done)
qed (use assms in \<open>auto simp: tp_inv_def\<close>)

lemma tp_inv_workers: "(tp_worker n ^^ k) s s' \<Longrightarrow> tp_inv s \<Longrightarrow> tp_inv s'"
  by (induction k arbitrary: s') (auto intro: tp_inv_worker)


section \<open>A run of one worker\<close>

definition one_pool :: "bool \<Rightarrow> nat option list \<Rightarrow> nat task_pool" where
  "one_pool run q = \<lparr>tp_name = ''p'', tp_threads = [''p0''], tp_dequeue = q, tp_running = run\<rparr>"

definition one_state ::
  "bool \<Rightarrow> nat tp_pc \<Rightarrow> nat option list \<Rightarrow> nat option list \<Rightarrow> nat option list \<Rightarrow> nat tp_state" where
  "one_state run pc q subm taken =
     \<lparr>tp_pool = one_pool run q, tp_pc_of = (\<lambda>_. TpCheck)(0 := pc), tp_submitted = subm, tp_taken = taken\<rparr>"

lemma one_pool_started: "ThreadPool_start 1 (ThreadPool_new ''p'') = Inr (one_pool True [])"
proof -
  have "dec 0 = ''0''" by code_simp
  then show ?thesis by (simp add: ThreadPool_start_def ThreadPool_new_def one_pool_def snprintf_def)
qed

lemma one_notify: "notify 1 (\<lambda>p. p = TpWaiting) (\<lambda>_. TpTaking) ((\<lambda>_. TpCheck)(0 := TpWaiting)) ((\<lambda>_. TpCheck)(0 := TpTaking))"
  "notify 1 (\<lambda>p. p = TpWaiting) (\<lambda>_. TpTaking) ((\<lambda>_. TpCheck)(0 := TpTaking)) ((\<lambda>_. TpCheck)(0 := TpTaking))"
  by (rule notifyI [of 0], simp_all) (simp add: notify_def)

lemmas one_defs = one_state_def one_pool_def ThreadPool_take_def ThreadPool_run_def ThreadPool_stop_def

lemma one_stopped_reached:
  "(tp_step 1)\<^sup>*\<^sup>* (tp_start (one_pool True [])) (one_state False TpTaking [Some 5, Some 6] [Some 5, Some 6] [])"
proof -
  have "tp_start (one_pool True []) = one_state True TpCheck [] [] []"
    by (auto simp: tp_start_def one_state_def)
  moreover have "tp_step 1 (one_state True TpCheck [] [] []) (one_state True TpTaking [] [] [])"
    using tp_worker.check_running [of 0 1 "one_state True TpCheck [] [] []"]
    by (intro tp_step.worker) (simp add: one_defs)
  moreover have "tp_step 1 (one_state True TpTaking [] [] []) (one_state True TpWaiting [] [] [])"
    using tp_worker.take_wait [of 0 1 "one_state True TpTaking [] [] []"]
    by (intro tp_step.worker) (simp add: one_defs)
  moreover have "tp_step 1 (one_state True TpWaiting [] [] []) (one_state True TpTaking [Some 5] [Some 5] [])"
    using tp_step.submit [of 1 "one_state True TpWaiting [] [] []" "(\<lambda>_. TpCheck)(0 := TpTaking)" _ "Some 5" "one_pool True [Some 5]"] one_notify(1)
    by (simp add: one_defs)
  moreover have "tp_step 1 (one_state True TpTaking [Some 5] [Some 5] [])
      (one_state True TpTaking [Some 5, Some 6] [Some 5, Some 6] [])"
    using tp_step.submit [of 1 "one_state True TpTaking [Some 5] [Some 5] []" "(\<lambda>_. TpCheck)(0 := TpTaking)" _ "Some 6"
        "one_pool True [Some 5, Some 6]"]
      one_notify(2)
    by (simp add: one_defs)
  moreover have "wake_all ((\<lambda>_. TpCheck)(0 := TpTaking)) = ((\<lambda>_. TpCheck)(0 := TpTaking) :: nat \<Rightarrow> nat tp_pc)"
    by (auto simp: wake_all_def)
  then have "tp_step 1 (one_state True TpTaking [Some 5, Some 6] [Some 5, Some 6] [])
      (one_state False TpTaking [Some 5, Some 6] [Some 5, Some 6] [])"
    using tp_step.stop [of 1 "one_state True TpTaking [Some 5, Some 6] [Some 5, Some 6] []"]
    by (simp add: one_defs)
  ultimately show ?thesis by (simp add: converse_rtranclp_into_rtranclp)
qed


lemma one_worker_run:
  "(tp_worker 1 ^^ 3) (one_state False TpTaking [Some 5, Some 6] [Some 5, Some 6] [])
    (one_state False TpExited [Some 6] [Some 5, Some 6] [Some 5])"
proof -
  have "tp_worker 1 (one_state False TpTaking [Some 5, Some 6] [Some 5, Some 6] [])
      (one_state False (TpRunning 5) [Some 6] [Some 5, Some 6] [Some 5])"
    using tp_worker.take_task [of 0 1 "one_state False TpTaking [Some 5, Some 6] [Some 5, Some 6] []"] by (simp add: one_defs)
  moreover have "tp_worker 1 (one_state False (TpRunning 5) [Some 6] [Some 5, Some 6] [Some 5])
      (one_state False TpCheck [Some 6] [Some 5, Some 6] [Some 5])"
    using tp_worker.task_done [of 0 1 "one_state False (TpRunning 5) [Some 6] [Some 5, Some 6] [Some 5]"] by (simp add: one_defs)
  moreover have "tp_worker 1 (one_state False TpCheck [Some 6] [Some 5, Some 6] [Some 5])
      (one_state False TpExited [Some 6] [Some 5, Some 6] [Some 5])"
    using tp_worker.check_stopped [of 0 1 "one_state False TpCheck [Some 6] [Some 5, Some 6] [Some 5]"] by (simp add: one_defs)
  ultimately show ?thesis by (auto simp: numeral_3_eq_3 relcompp.simps)
qed


end
