(* ===== verification/Thread_Samples.thy ===== *)
theory Thread_Samples
  imports Sync "HOL-Library.Word"
begin

text \<open>
  The thread samples \<open>src/recipes/thread\<close> that have a protocol of their own, and
  \<open>src/recipes/C++11/condition_variable_test.cpp\<close>: two threads that take turns, a bounded buffer
  with one condition variable, a gate, a class that locks its mutexes twice, and a thread pool.
  What a thread does while it holds the mutex is one step, except where the code lets something
  happen in between. Waiting on a condition variable is a program point; a thread leaves it when it
  is notified, or without a reason.
\<close>

section \<open>Monitors\<close>

text \<open>
  The discipline of a monitor: a step that ends the reason for which a thread waits also wakes it.
  Then nobody waits without a reason.
\<close>

locale monitor =
  fixes step :: "'s \<Rightarrow> 's \<Rightarrow> bool" and waits :: "'s \<Rightarrow> 't \<Rightarrow> bool" and blocked :: "'s \<Rightarrow> 't \<Rightarrow> bool"
  assumes wait_blocked: "step s s' \<Longrightarrow> waits s' t \<Longrightarrow> waits s t \<longrightarrow> blocked s t \<Longrightarrow> blocked s' t"
begin

lemma waits_with_reason:
  assumes "step\<^sup>*\<^sup>* s0 s" and "\<And>t. waits s0 t \<Longrightarrow> blocked s0 t" and "waits s t"
  shows "blocked s t"
  using assms(1,3)
proof (induction arbitrary: t rule: rtranclp_induct)
  case base
  then show ?case by (rule assms(2))
next
  case (step y z)
  then show ?case using wait_blocked [OF step(2)] by blast
qed

end

section \<open>Taking turns: \<open>thread_cross_printAB.cpp\<close>\<close>

datatype letter = LetterA | LetterB

datatype ab_pc = AbTrying | AbWaiting

record ab_state =
  ab_flag :: bool
  ab_pc_of :: "letter \<Rightarrow> ab_pc"
  ab_out :: "letter list"

definition ab_start :: ab_state where
  "ab_start = \<lparr>ab_flag = True, ab_pc_of = (\<lambda>_. AbTrying), ab_out = []\<rparr>"

text \<open>The predicates of the two waits, and the other thread, the only one that can be waiting.\<close>

fun ab_turn :: "letter \<Rightarrow> bool \<Rightarrow> bool" where
  "ab_turn LetterA flag = flag"
| "ab_turn LetterB flag = (\<not> flag)"

fun other :: "letter \<Rightarrow> letter" where
  "other LetterA = LetterB"
| "other LetterB = LetterA"

text \<open>One pass of the loop of \<open>printA\<close> or \<open>printB\<close>; \<open>None\<close> while it waits.\<close>

definition print_letter :: "letter \<Rightarrow> ab_state \<Rightarrow> ab_state option" where
  "print_letter x s =
     (if ab_turn x (ab_flag s)
      then Some (s\<lparr>ab_out := ab_out s @ [x], ab_flag := (x = LetterB), ab_pc_of := (ab_pc_of s)(other x := AbTrying)\<rparr>)
      else None)"

inductive ab_step :: "ab_state \<Rightarrow> ab_state \<Rightarrow> bool" where
  ab_print: "ab_pc_of s x = AbTrying \<Longrightarrow> print_letter x s = Some s' \<Longrightarrow> ab_step s s'"
| ab_wait: "ab_pc_of s x = AbTrying \<Longrightarrow> print_letter x s = None \<Longrightarrow>
    ab_step s (s\<lparr>ab_pc_of := (ab_pc_of s)(x := AbWaiting)\<rparr>)"
| ab_spurious: "ab_pc_of s x = AbWaiting \<Longrightarrow> ab_step s (s\<lparr>ab_pc_of := (ab_pc_of s)(x := AbTrying)\<rparr>)"

inductive_cases ab_stepE: "ab_step s s'"

lemma other_neq [simp]: "other x \<noteq> x" "x \<noteq> other x"
  by (cases x; simp)+

lemma letter_other: "y \<noteq> x \<Longrightarrow> y = other x"
  by (cases x; cases y) simp_all

interpretation ab: monitor ab_step "\<lambda>s x. ab_pc_of s x = AbWaiting" "\<lambda>s x. \<not> ab_turn x (ab_flag s)"
proof
  fix s s' t
  assume "ab_step s s'" "ab_pc_of s' t = AbWaiting" "ab_pc_of s t = AbWaiting \<longrightarrow> \<not> ab_turn t (ab_flag s)"
  then show "\<not> ab_turn t (ab_flag s')"
  proof (cases rule: ab_step.cases)
    case (ab_print x)
    then show ?thesis
      using letter_other [of t x] \<open>ab_pc_of s' t = AbWaiting\<close> \<open>ab_pc_of s t = AbWaiting \<longrightarrow> _\<close>
      by (cases "t = x") (auto simp: print_letter_def split: if_splits)
  qed (auto simp: print_letter_def split: if_splits)
qed

definition turns :: "nat \<Rightarrow> letter list" where
  "turns n = map (\<lambda>i. if even i then LetterA else LetterB) [0..<n]"

lemma ab_alternates: "ab_step\<^sup>*\<^sup>* ab_start s \<Longrightarrow> ab_out s = turns (length (ab_out s)) \<and> ab_flag s = even (length (ab_out s))"
proof (induction rule: rtranclp_induct)
  case base
  then show ?case by (simp add: ab_start_def turns_def)
next
  case (step y z)
  from step(2) show ?case
  proof (cases rule: ab_step.cases)
    case (ab_print x)
    then show ?thesis
      using step(3) by (cases x) (auto simp: print_letter_def turns_def split: if_splits)
  qed (use step(3) in auto)
qed

text \<open>
  The letters alternate, beginning with A, and the two threads never wait at the same time.
\<close>

lemma print_alternates:
  assumes "ab_step\<^sup>*\<^sup>* ab_start s"
  shows "ab_out s = turns (length (ab_out s)) \<and> \<not> (\<forall>x. ab_pc_of s x = AbWaiting)"
proof (intro conjI notI)
  show "ab_out s = turns (length (ab_out s))" using ab_alternates [OF assms] by simp
  assume "\<forall>x. ab_pc_of s x = AbWaiting"
  then have "\<not> ab_turn x (ab_flag s)" for x
    using ab.waits_with_reason [OF assms, of x] by (simp add: ab_start_def)
  from this [of LetterA] this [of LetterB] show False by simp
qed

section \<open>A bounded buffer with one condition: \<open>product_consume_model_test.cpp\<close>\<close>

record bounded_buffer =
  bf_buffer :: "int list"
  bf_size :: int

definition BoundedBuffer_new :: "int \<Rightarrow> bounded_buffer" where
  "BoundedBuffer_new sz = \<lparr>bf_buffer = [], bf_size = sz\<rparr>"

text \<open>\<open>buffer.size() < size\<close> compares a \<open>size_t\<close> with an \<open>int\<close>, which is converted.\<close>

definition bf_bound :: "bounded_buffer \<Rightarrow> nat" where
  "bf_bound b = unat (word_of_int (bf_size b) :: 64 word)"

definition BoundedBuffer_produce :: "int \<Rightarrow> bounded_buffer \<Rightarrow> bounded_buffer option" where
  "BoundedBuffer_produce num b =
     (if length (bf_buffer b) < bf_bound b then Some (b\<lparr>bf_buffer := bf_buffer b @ [num]\<rparr>) else None)"

definition BoundedBuffer_consume :: "bounded_buffer \<Rightarrow> (int \<times> bounded_buffer) option" where
  "BoundedBuffer_consume b =
     (case bf_buffer b of [] \<Rightarrow> None | res # rest \<Rightarrow> Some (res, b\<lparr>bf_buffer := rest\<rparr>))"

datatype bf_pc = BfIdle | BfProducing int | BfProduceWait int | BfConsuming | BfConsumeWait

text \<open>\<open>notify_all\<close> on the one condition variable.\<close>

fun bf_woken :: "bf_pc \<Rightarrow> bf_pc" where
  "bf_woken (BfProduceWait v) = BfProducing v"
| "bf_woken BfConsumeWait = BfConsuming"
| "bf_woken p = p"

record bf_state =
  bf_data :: bounded_buffer
  bf_pc_of :: "nat \<Rightarrow> bf_pc"
  bf_produced :: "int list"
  bf_consumed :: "int list"

definition bf_start :: "int \<Rightarrow> bf_state" where
  "bf_start sz = \<lparr>bf_data = BoundedBuffer_new sz, bf_pc_of = (\<lambda>_. BfIdle), bf_produced = [], bf_consumed = []\<rparr>"

inductive bf_step :: "bf_state \<Rightarrow> bf_state \<Rightarrow> bool" where
  bf_call: "bf_pc_of s t = BfIdle \<Longrightarrow> p = BfProducing v \<or> p = BfConsuming \<Longrightarrow>
    bf_step s (s\<lparr>bf_pc_of := (bf_pc_of s)(t := p)\<rparr>)"
| bf_produce: "bf_pc_of s t = BfProducing v \<Longrightarrow> BoundedBuffer_produce v (bf_data s) = Some b \<Longrightarrow>
    bf_step s (s\<lparr>bf_data := b, bf_produced := bf_produced s @ [v],
      bf_pc_of := (bf_woken \<circ> bf_pc_of s)(t := BfIdle)\<rparr>)"
| bf_produce_wait: "bf_pc_of s t = BfProducing v \<Longrightarrow> BoundedBuffer_produce v (bf_data s) = None \<Longrightarrow>
    bf_step s (s\<lparr>bf_pc_of := (bf_pc_of s)(t := BfProduceWait v)\<rparr>)"
| bf_consume: "bf_pc_of s t = BfConsuming \<Longrightarrow> BoundedBuffer_consume (bf_data s) = Some (v, b) \<Longrightarrow>
    bf_step s (s\<lparr>bf_data := b, bf_consumed := bf_consumed s @ [v],
      bf_pc_of := (bf_woken \<circ> bf_pc_of s)(t := BfIdle)\<rparr>)"
| bf_consume_wait: "bf_pc_of s t = BfConsuming \<Longrightarrow> BoundedBuffer_consume (bf_data s) = None \<Longrightarrow>
    bf_step s (s\<lparr>bf_pc_of := (bf_pc_of s)(t := BfConsumeWait)\<rparr>)"
| bf_spurious: "bf_step s (s\<lparr>bf_pc_of := (bf_pc_of s)(t := bf_woken (bf_pc_of s t))\<rparr>)"

inductive_cases bf_stepE: "bf_step s s'"

fun bf_waits :: "bf_pc \<Rightarrow> bool" where
  "bf_waits (BfProduceWait v) = True"
| "bf_waits BfConsumeWait = True"
| "bf_waits p = False"

fun bf_blocked :: "bounded_buffer \<Rightarrow> bf_pc \<Rightarrow> bool" where
  "bf_blocked b (BfProduceWait v) = (BoundedBuffer_produce v b = None)"
| "bf_blocked b BfConsumeWait = (BoundedBuffer_consume b = None)"
| "bf_blocked b p = False"

lemma woken_waits [simp]: "\<not> bf_waits (bf_woken p)"
  by (cases p) simp_all

interpretation bf: monitor bf_step "\<lambda>s t. bf_waits (bf_pc_of s t)" "\<lambda>s t. bf_blocked (bf_data s) (bf_pc_of s t)"
  by unfold_locales (erule bf_stepE, auto split: if_splits)

definition bf_inv :: "bf_state \<Rightarrow> bool" where
  "bf_inv s \<longleftrightarrow> bf_produced s = bf_consumed s @ bf_buffer (bf_data s)
     \<and> length (bf_buffer (bf_data s)) \<le> bf_bound (bf_data s)"

lemma bf_inv_step: "bf_step s s' \<Longrightarrow> bf_inv s \<Longrightarrow> bf_inv s' \<and> bf_bound (bf_data s') = bf_bound (bf_data s)"
  by (erule bf_stepE)
    (auto simp: bf_inv_def bf_bound_def BoundedBuffer_produce_def BoundedBuffer_consume_def split: if_splits list.splits)

lemma bf_inv_reachable:
  "bf_step\<^sup>*\<^sup>* (bf_start sz) s \<Longrightarrow> bf_inv s \<and> bf_bound (bf_data s) = unat (word_of_int sz :: 64 word)"
proof (induction rule: rtranclp_induct)
  case base
  then show ?case by (simp add: bf_start_def bf_inv_def BoundedBuffer_new_def bf_bound_def)
next
  case (step y z)
  then show ?case using bf_inv_step by auto
qed

text \<open>
  The buffer is first in, first out and keeps its bound; a producer waits only while it is full and
  a consumer only while it is empty, so that with room for one element they never wait for each
  other. A negative size is taken as one close to \<open>2 ^ 64\<close>.
\<close>

lemma sample_buffer_safe:
  assumes "bf_step\<^sup>*\<^sup>* (bf_start sz) s"
  shows "bf_produced s = bf_consumed s @ bf_buffer (bf_data s)
    \<and> length (bf_buffer (bf_data s)) \<le> unat (word_of_int sz :: 64 word)
    \<and> (bf_pc_of s t = BfProduceWait v \<and> bf_pc_of s u = BfConsumeWait \<longrightarrow> word_of_int sz = (0 :: 64 word))"
proof (intro conjI impI)
  have inv: "bf_inv s" "bf_bound (bf_data s) = unat (word_of_int sz :: 64 word)"
    using bf_inv_reachable [OF assms] by simp_all
  then show "bf_produced s = bf_consumed s @ bf_buffer (bf_data s)"
    "length (bf_buffer (bf_data s)) \<le> unat (word_of_int sz :: 64 word)"
    by (simp_all add: bf_inv_def)
  assume w: "bf_pc_of s t = BfProduceWait v \<and> bf_pc_of s u = BfConsumeWait"
  have "bf_blocked (bf_data s) (bf_pc_of s x)" if "bf_waits (bf_pc_of s x)" for x
    using that by (intro bf.waits_with_reason [OF assms]) (simp_all add: bf_start_def)
  from this [of t] this [of u] w have "bf_bound (bf_data s) = 0"
    by (auto simp: BoundedBuffer_produce_def BoundedBuffer_consume_def split: if_splits list.splits)
  with inv(2) show "word_of_int sz = (0 :: 64 word)" by (simp add: unat_eq_0)
qed

section \<open>A gate: \<open>condition_variable_test.cpp\<close>\<close>

datatype gate_pc = GateTrying | GateWaiting | GatePassed

record gate_state =
  gt_ready :: bool
  gt_pc_of :: "nat \<Rightarrow> gate_pc"
  gt_out :: "nat list"

definition gate_start :: gate_state where
  "gate_start = \<lparr>gt_ready = False, gt_pc_of = (\<lambda>_. GateTrying), gt_out = []\<rparr>"

definition print_id :: "nat \<Rightarrow> gate_state \<Rightarrow> gate_state option" where
  "print_id i s =
     (if gt_ready s then Some (s\<lparr>gt_out := gt_out s @ [i], gt_pc_of := (gt_pc_of s)(i := GatePassed)\<rparr>) else None)"

definition go :: "gate_state \<Rightarrow> gate_state" where
  "go s = s\<lparr>gt_ready := True,
     gt_pc_of := (\<lambda>i. if gt_pc_of s i = GateWaiting then GateTrying else gt_pc_of s i)\<rparr>"

inductive gate_step :: "gate_state \<Rightarrow> gate_state \<Rightarrow> bool" where
  gate_pass: "gt_pc_of s i = GateTrying \<Longrightarrow> print_id i s = Some s' \<Longrightarrow> gate_step s s'"
| gate_wait: "gt_pc_of s i = GateTrying \<Longrightarrow> print_id i s = None \<Longrightarrow>
    gate_step s (s\<lparr>gt_pc_of := (gt_pc_of s)(i := GateWaiting)\<rparr>)"
| gate_go: "gate_step s (go s)"
| gate_spurious: "gt_pc_of s i = GateWaiting \<Longrightarrow> gate_step s (s\<lparr>gt_pc_of := (gt_pc_of s)(i := GateTrying)\<rparr>)"

inductive_cases gate_stepE: "gate_step s s'"

interpretation gate: monitor gate_step "\<lambda>s i. gt_pc_of s i = GateWaiting" "\<lambda>s i. \<not> gt_ready s"
  by unfold_locales (erule gate_stepE, auto simp: print_id_def go_def split: if_splits)

lemma gate_inv: "gate_step\<^sup>*\<^sup>* gate_start s \<Longrightarrow>
    distinct (gt_out s) \<and> (\<forall>i. i \<in> set (gt_out s) \<longleftrightarrow> gt_pc_of s i = GatePassed) \<and> (gt_out s \<noteq> [] \<longrightarrow> gt_ready s)"
proof (induction rule: rtranclp_induct)
  case base
  then show ?case by (simp add: gate_start_def)
next
  case (step y z)
  from step(2,3) show ?case
    by (cases rule: gate_step.cases) (auto simp: print_id_def go_def split: if_splits)
qed

text \<open>Nobody prints before \<open>go\<close>, everybody at most once, and after it nobody is left waiting.\<close>

lemma gate_opens:
  assumes "gate_step\<^sup>*\<^sup>* gate_start s"
  shows "distinct (gt_out s) \<and> (if gt_ready s then \<forall>i. gt_pc_of s i \<noteq> GateWaiting else gt_out s = [])"
  using gate_inv [OF assms] gate.waits_with_reason [OF assms] by (auto simp: gate_start_def)

section \<open>Locking twice: \<open>mutex_dead_lock_test.cpp\<close>\<close>

text \<open>
  The two threads of \<open>main\<close> run \<open>inMsgRecvQueue\<close> and \<open>outMgLULProc\<close>. A mutex is held by a thread
  or free; a thread that asks for a mutex that is held waits, also when it holds it itself, and
  \<open>std::lock\<close> waits until both are free.
\<close>

datatype msg_thread = InThread | OutThread

datatype in_pc = InLock1 | InLock2 | InPush | InUnlock1 | InDone

datatype out_pc = OutLock1 | OutLock2 | OutLockBoth | OutCheck | OutDone

record msg_state =
  ms_queue :: "nat list"
  ms_mutex1 :: "msg_thread option"
  ms_mutex2 :: "msg_thread option"
  ms_in :: in_pc
  ms_i :: nat
  ms_out :: out_pc

definition msg_start :: msg_state where
  "msg_start = \<lparr>ms_queue = [], ms_mutex1 = None, ms_mutex2 = None, ms_in = InLock1, ms_i = 0, ms_out = OutLock1\<rparr>"

text \<open>A step of \<open>inMsgRecvQueue\<close>, and one of \<open>outMgLULProc\<close>; \<open>None\<close> while it waits or when it has returned.\<close>

definition msg_in_step :: "msg_state \<Rightarrow> msg_state option" where
  "msg_in_step s =
     (case ms_in s of
        InLock1 \<Rightarrow>
          if 100000 \<le> ms_i s then Some (s\<lparr>ms_in := InDone\<rparr>)
          else if ms_mutex1 s = None then Some (s\<lparr>ms_mutex1 := Some InThread, ms_in := InLock2\<rparr>) else None
      | InLock2 \<Rightarrow>
          if ms_mutex2 s = None then Some (s\<lparr>ms_mutex2 := Some InThread, ms_in := InPush\<rparr>) else None
      | InPush \<Rightarrow> Some (s\<lparr>ms_queue := ms_queue s @ [ms_i s], ms_mutex2 := None, ms_in := InUnlock1\<rparr>)
      | InUnlock1 \<Rightarrow> Some (s\<lparr>ms_mutex1 := None, ms_i := ms_i s + 1, ms_in := InLock1\<rparr>)
      | InDone \<Rightarrow> None)"

definition msg_out_step :: "msg_state \<Rightarrow> msg_state option" where
  "msg_out_step s =
     (case ms_out s of
        OutLock1 \<Rightarrow> if ms_mutex1 s = None then Some (s\<lparr>ms_mutex1 := Some OutThread, ms_out := OutLock2\<rparr>) else None
      | OutLock2 \<Rightarrow> if ms_mutex2 s = None then Some (s\<lparr>ms_mutex2 := Some OutThread, ms_out := OutLockBoth\<rparr>) else None
      | OutLockBoth \<Rightarrow>
          if ms_mutex1 s = None \<and> ms_mutex2 s = None
          then Some (s\<lparr>ms_mutex1 := Some OutThread, ms_mutex2 := Some OutThread, ms_out := OutCheck\<rparr>) else None
      | OutCheck \<Rightarrow> Some (s\<lparr>ms_queue := tl (ms_queue s), ms_mutex1 := None, ms_mutex2 := None, ms_out := OutDone\<rparr>)
      | OutDone \<Rightarrow> None)"

inductive msg_step :: "msg_state \<Rightarrow> msg_state \<Rightarrow> bool" where
  step_in: "msg_in_step s = Some s' \<Longrightarrow> msg_step s s'"
| step_out: "msg_out_step s = Some s' \<Longrightarrow> msg_step s s'"

definition msg_inv :: "msg_state \<Rightarrow> bool" where
  "msg_inv s \<longleftrightarrow> ms_out s \<noteq> OutCheck \<and> ms_out s \<noteq> OutDone
     \<and> ms_mutex1 s = (if ms_in s \<in> {InLock2, InPush, InUnlock1} then Some InThread
          else if ms_out s = OutLock1 then None else Some OutThread)
     \<and> ms_mutex2 s = (if ms_in s = InPush then Some InThread
          else if ms_out s = OutLockBoth then Some OutThread else None)
     \<and> (ms_in s \<in> {InLock2, InPush, InUnlock1} \<longrightarrow> ms_out s = OutLock1)"

lemma msg_inv_step: "msg_step s s' \<Longrightarrow> msg_inv s \<Longrightarrow> msg_inv s'"
  by (erule msg_step.cases)
    (auto simp: msg_inv_def msg_in_step_def msg_out_step_def split: in_pc.splits out_pc.splits if_splits)

lemma msg_inv_reachable: "msg_step\<^sup>*\<^sup>* msg_start s \<Longrightarrow> msg_inv s"
proof (induction rule: rtranclp_induct)
  case base
  then show ?case by (simp add: msg_start_def msg_inv_def)
next
  case (step y z)
  show ?case by (rule msg_inv_step [OF step(2,3)])
qed

text \<open>
  The program never ends: the two threads take the mutexes in the same order and cannot block each
  other there, but \<open>outMgLULProc\<close> asks for both again while it holds them and never returns, and
  when it has got that far the other thread does not get a mutex any more.
\<close>

lemma locked_twice:
  assumes "msg_step\<^sup>*\<^sup>* msg_start s"
  shows "ms_out s \<noteq> OutDone
    \<and> (ms_out s = OutLockBoth \<longrightarrow> msg_out_step s = None \<and> (msg_in_step s = None \<or> 100000 \<le> ms_i s))
    \<and> (ms_out s \<noteq> OutLockBoth \<longrightarrow> (\<exists>s'. msg_step s s'))"
proof -
  have inv: "msg_inv s" by (rule msg_inv_reachable [OF assms])
  have "\<exists>s'. msg_step s s'" if "ms_out s \<noteq> OutLockBoth"
  proof (cases "ms_in s \<in> {InLock2, InPush, InUnlock1}")
    case True
    with inv have "msg_in_step s \<noteq> None" by (auto simp: msg_inv_def msg_in_step_def)
    then show ?thesis using step_in by blast
  next
    case False
    with inv that have "msg_out_step s \<noteq> None" by (cases "ms_out s") (auto simp: msg_inv_def msg_out_step_def)
    then show ?thesis using step_out by blast
  qed
  with inv show ?thesis by (cases "ms_in s") (auto simp: msg_inv_def msg_in_step_def msg_out_step_def)
qed

section \<open>A pool that may not shut down: \<open>thread_pool_test.cpp\<close>\<close>

record 'f threadpool =
  tps_pool :: nat
  tps_tasks :: "'f list"
  tps_stop :: bool

definition threadpool_new :: "nat \<Rightarrow> 'f threadpool" where
  "threadpool_new n = \<lparr>tps_pool = (if n < 1 then 1 else n), tps_tasks = [], tps_stop = False\<rparr>"

text \<open>The part of \<open>commit\<close> under the mutex.\<close>

definition threadpool_commit :: "'f \<Rightarrow> 'f threadpool \<Rightarrow> 'f threadpool" where
  "threadpool_commit task p = p\<lparr>tps_tasks := tps_tasks p @ [task]\<rparr>"

text \<open>
  \<open>get_one_task\<close> with the mutex held: \<open>None\<close> when the predicate of the wait is false; otherwise the
  task it returns, empty when the pool is being stopped.
\<close>

definition threadpool_get_one_task :: "'f threadpool \<Rightarrow> ('f option \<times> 'f threadpool) option" where
  "threadpool_get_one_task p =
     (if tps_tasks p = [] \<and> \<not> tps_stop p then None
      else if tps_stop p then Some (None, p)
      else Some (Some (hd (tps_tasks p)), p\<lparr>tps_tasks := tl (tps_tasks p)\<rparr>))"

text \<open>The first statement of \<open>shutdown\<close>, which does not take the mutex.\<close>

definition threadpool_shutdown :: "'f threadpool \<Rightarrow> 'f threadpool" where
  "threadpool_shutdown p = p\<lparr>tps_stop := True\<rparr>"

text \<open>
  A worker is at the test of the loop of \<open>schedual\<close>, about to take the mutex in \<open>get_one_task\<close>, on
  its way to sleep (it has seen the predicate false and holds the mutex), asleep, running a task, or
  has returned. \<open>tps_due\<close> counts the calls of \<open>notify_all\<close> that are still to come.
\<close>

datatype 'f tps_pc = TpsLoop | TpsGet | TpsFalling | TpsAsleep | TpsRunning 'f | TpsReturned

record 'f tps_state =
  tps_data :: "'f threadpool"
  tps_mutex :: "nat option"
  tps_pc_of :: "nat \<Rightarrow> 'f tps_pc"
  tps_due :: nat
  tps_committed :: "'f list"
  tps_begun :: "'f list"

definition tps_start :: "nat \<Rightarrow> 'f tps_state" where
  "tps_start n = \<lparr>tps_data = threadpool_new n, tps_mutex = None, tps_pc_of = (\<lambda>_. TpsLoop), tps_due = 0,
     tps_committed = [], tps_begun = []\<rparr>"

inductive tps_worker :: "'f tps_state \<Rightarrow> 'f tps_state \<Rightarrow> bool" where
  loop_go: "t < tps_pool (tps_data s) \<Longrightarrow> tps_pc_of s t = TpsLoop \<Longrightarrow> \<not> tps_stop (tps_data s) \<Longrightarrow>
    tps_worker s (s\<lparr>tps_pc_of := (tps_pc_of s)(t := TpsGet)\<rparr>)"
| loop_end: "t < tps_pool (tps_data s) \<Longrightarrow> tps_pc_of s t = TpsLoop \<Longrightarrow> tps_stop (tps_data s) \<Longrightarrow>
    tps_worker s (s\<lparr>tps_pc_of := (tps_pc_of s)(t := TpsReturned)\<rparr>)"
| get_task: "t < tps_pool (tps_data s) \<Longrightarrow> tps_pc_of s t = TpsGet \<Longrightarrow> tps_mutex s = None \<Longrightarrow>
    threadpool_get_one_task (tps_data s) = Some (Some f, p) \<Longrightarrow>
    tps_worker s (s\<lparr>tps_data := p, tps_begun := tps_begun s @ [f], tps_pc_of := (tps_pc_of s)(t := TpsRunning f)\<rparr>)"
| get_stop: "t < tps_pool (tps_data s) \<Longrightarrow> tps_pc_of s t = TpsGet \<Longrightarrow> tps_mutex s = None \<Longrightarrow>
    threadpool_get_one_task (tps_data s) = Some (None, p) \<Longrightarrow>
    tps_worker s (s\<lparr>tps_data := p, tps_pc_of := (tps_pc_of s)(t := TpsLoop)\<rparr>)"
| get_false: "t < tps_pool (tps_data s) \<Longrightarrow> tps_pc_of s t = TpsGet \<Longrightarrow> tps_mutex s = None \<Longrightarrow>
    threadpool_get_one_task (tps_data s) = None \<Longrightarrow>
    tps_worker s (s\<lparr>tps_mutex := Some t, tps_pc_of := (tps_pc_of s)(t := TpsFalling)\<rparr>)"
| fall_asleep: "t < tps_pool (tps_data s) \<Longrightarrow> tps_pc_of s t = TpsFalling \<Longrightarrow>
    tps_worker s (s\<lparr>tps_mutex := None, tps_pc_of := (tps_pc_of s)(t := TpsAsleep)\<rparr>)"
| task_done: "t < tps_pool (tps_data s) \<Longrightarrow> tps_pc_of s t = TpsRunning f \<Longrightarrow>
    tps_worker s (s\<lparr>tps_pc_of := (tps_pc_of s)(t := TpsLoop)\<rparr>)"

definition tps_wake :: "'f tps_state \<Rightarrow> 'f tps_state" where
  "tps_wake s = s\<lparr>tps_due := tps_due s - 1,
     tps_pc_of := (\<lambda>t. if tps_pc_of s t = TpsAsleep then TpsGet else tps_pc_of s t)\<rparr>"

inductive tps_step :: "'f tps_state \<Rightarrow> 'f tps_state \<Rightarrow> bool" where
  worker: "tps_worker s s' \<Longrightarrow> tps_step s s'"
| commit: "tps_mutex s = None \<Longrightarrow> tps_step s (s\<lparr>tps_data := threadpool_commit f (tps_data s),
      tps_due := tps_due s + 1, tps_committed := tps_committed s @ [f]\<rparr>)"
| shutdown: "tps_step s (s\<lparr>tps_data := threadpool_shutdown (tps_data s), tps_due := tps_due s + 1\<rparr>)"
| notify_all: "0 < tps_due s \<Longrightarrow> tps_step s (tps_wake s)"
| spurious: "tps_pc_of s t = TpsAsleep \<Longrightarrow> tps_step s (s\<lparr>tps_pc_of := (tps_pc_of s)(t := TpsGet)\<rparr>)"

inductive_cases tps_workerE: "tps_worker s s'"
inductive_cases tps_stepE: "tps_step s s'"

text \<open>The mutex is held by the thread that falls asleep; nobody sleeps over a task.\<close>

definition tps_held :: "(nat \<Rightarrow> 'f tps_pc) \<Rightarrow> nat option \<Rightarrow> bool" where
  "tps_held pc m \<longleftrightarrow> (\<forall>t. pc t = TpsFalling \<longleftrightarrow> m = Some t)"

definition tps_awake :: "(nat \<Rightarrow> 'f tps_pc) \<Rightarrow> bool" where
  "tps_awake pc \<longleftrightarrow> (\<forall>t. pc t \<noteq> TpsAsleep)"

lemma tps_held_moves:
  "tps_held pc m \<Longrightarrow> pc t \<noteq> TpsFalling \<Longrightarrow> q \<noteq> TpsFalling \<Longrightarrow> tps_held (pc(t := q)) m"
  "tps_held pc None \<Longrightarrow> tps_held (pc(t := TpsFalling)) (Some t)"
  "tps_held pc m \<Longrightarrow> pc t = TpsFalling \<Longrightarrow> q \<noteq> TpsFalling \<Longrightarrow> tps_held (pc(t := q)) None"
  "tps_held pc m \<Longrightarrow> tps_held (\<lambda>t. if pc t = TpsAsleep then TpsGet else pc t) m"
  by (force simp: tps_held_def)+

lemma tps_awake_moves:
  "tps_awake pc \<Longrightarrow> q \<noteq> TpsAsleep \<Longrightarrow> tps_awake (pc(t := q))"
  "tps_awake (\<lambda>t. if pc t = TpsAsleep then TpsGet else pc t)"
  by (auto simp: tps_awake_def)

definition tps_inv :: "'f tps_state \<Rightarrow> bool" where
  "tps_inv s \<longleftrightarrow> tps_committed s = tps_begun s @ tps_tasks (tps_data s)
     \<and> tps_held (tps_pc_of s) (tps_mutex s)
     \<and> (tps_mutex s = None \<or> tps_tasks (tps_data s) = [])
     \<and> (tps_tasks (tps_data s) = [] \<or> 0 < tps_due s \<or> tps_awake (tps_pc_of s))"

lemma get_one_task_cases:
  "threadpool_get_one_task p = None \<longleftrightarrow> tps_tasks p = [] \<and> \<not> tps_stop p"
  "threadpool_get_one_task p = Some (None, p') \<longleftrightarrow> tps_stop p \<and> p' = p"
  "threadpool_get_one_task p = Some (Some f, p') \<Longrightarrow> tps_tasks p = f # tps_tasks p' \<and> tps_pool p' = tps_pool p"
  by (auto simp: threadpool_get_one_task_def split: if_splits)

lemma tps_inv_worker:
  assumes "tps_worker s s'" and inv: "tps_inv s"
  shows "tps_inv s'"
  using assms(1)
proof (cases rule: tps_worker.cases)
  case (get_task t f p)
  from get_task(1-4) get_one_task_cases(3) [OF get_task(5)] inv show ?thesis
    by (auto simp: tps_inv_def tps_held_moves tps_awake_moves)
next
  case (fall_asleep t)
  with inv have "tps_mutex s = Some t" by (simp add: tps_inv_def tps_held_def)
  with fall_asleep inv show ?thesis by (auto simp: tps_inv_def tps_held_moves(3))
qed (use inv in \<open>auto simp: tps_inv_def get_one_task_cases tps_held_moves(1,2) tps_awake_moves\<close>)

lemma tps_inv_step:
  assumes "tps_step s s'" and inv: "tps_inv s"
  shows "tps_inv s'"
  using assms(1)
proof (cases rule: tps_step.cases)
  case worker
  then show ?thesis using inv by (rule tps_inv_worker)
qed (use inv in \<open>auto simp: tps_inv_def threadpool_commit_def threadpool_shutdown_def tps_wake_def
    tps_held_moves(1,4) tps_awake_moves\<close>)

lemma tps_inv_reachable: "tps_step\<^sup>*\<^sup>* (tps_start n) s \<Longrightarrow> tps_inv s"
proof (induction rule: rtranclp_induct)
  case base
  then show ?case by (simp add: tps_start_def tps_inv_def tps_held_def threadpool_new_def)
next
  case (step y z)
  show ?case by (rule tps_inv_step [OF step(2,3)])
qed

text \<open>Tasks begin in the order of \<open>commit\<close>, each once, and no worker sleeps over one.\<close>

lemma threadpool_serves:
  assumes "tps_step\<^sup>*\<^sup>* (tps_start n) s"
  shows "tps_committed s = tps_begun s @ tps_tasks (tps_data s)
    \<and> (tps_tasks (tps_data s) \<noteq> [] \<and> tps_due s = 0 \<longrightarrow> (\<forall>t. tps_pc_of s t \<noteq> TpsAsleep))"
  using tps_inv_reachable [OF assms] by (auto simp: tps_inv_def tps_awake_def)

text \<open>
  \<open>shutdown\<close> may never return: it sets \<open>_stop\<close> and notifies without the mutex, and a worker that
  has just seen the old value goes to sleep after the notification. No worker can go on then, the
  one that sleeps has not returned, and \<open>join\<close> waits for ever.
\<close>

definition tps_hung :: "nat tps_state" where
  "tps_hung = \<lparr>tps_data = \<lparr>tps_pool = 1, tps_tasks = [], tps_stop = True\<rparr>, tps_mutex = None,
     tps_pc_of = (\<lambda>_. TpsLoop)(0 := TpsAsleep), tps_due = 0, tps_committed = [], tps_begun = []\<rparr>"

lemma shutdown_hangs:
  "tps_step\<^sup>*\<^sup>* (tps_start 1) tps_hung \<and> tps_stop (tps_data tps_hung) \<and> tps_due tps_hung = 0
     \<and> tps_pc_of tps_hung 0 = TpsAsleep
     \<and> (\<forall>s'. \<not> tps_worker tps_hung s')"
proof (intro conjI allI notI)
  let ?s0 = "tps_start 1 :: nat tps_state"
  let ?s1 = "?s0\<lparr>tps_pc_of := (\<lambda>_. TpsLoop)(0 := TpsGet)\<rparr>"
  let ?s2 = "?s0\<lparr>tps_mutex := Some 0, tps_pc_of := (\<lambda>_. TpsLoop)(0 := TpsFalling)\<rparr>"
  let ?s3 = "?s2\<lparr>tps_data := threadpool_shutdown (tps_data ?s2), tps_due := 1\<rparr>"
  let ?s4 = "?s3\<lparr>tps_due := 0\<rparr>"
  have "tps_step ?s0 ?s1"
    using tps_step.worker [OF tps_worker.loop_go [of 0 ?s0]] by (simp add: tps_start_def threadpool_new_def)
  moreover have "tps_step ?s1 ?s2"
    using tps_step.worker [OF tps_worker.get_false [of 0 ?s1]]
    by (simp add: tps_start_def threadpool_new_def threadpool_get_one_task_def)
  moreover have "tps_step ?s2 ?s3" using tps_step.shutdown [of ?s2] by (simp add: tps_start_def)
  moreover have "tps_step ?s3 ?s4"
  proof -
    have "(\<lambda>t. if tps_pc_of ?s3 t = TpsAsleep then TpsGet else tps_pc_of ?s3 t) = tps_pc_of ?s3" by auto
    then have "tps_wake ?s3 = ?s4" unfolding tps_wake_def by simp
    with tps_step.notify_all [of ?s3] show ?thesis by simp
  qed
  moreover have "tps_step ?s4 tps_hung"
    using tps_step.worker [OF tps_worker.fall_asleep [of 0 ?s4]]
    by (simp add: tps_start_def threadpool_new_def threadpool_shutdown_def tps_hung_def)
  ultimately show "tps_step\<^sup>*\<^sup>* ?s0 tps_hung" by (meson converse_rtranclp_into_rtranclp rtranclp.rtrancl_refl)
next
  fix s' assume "tps_worker tps_hung s'"
  then show False by (cases rule: tps_worker.cases) (simp_all add: tps_hung_def)
qed (simp_all add: tps_hung_def)

end
