(* ===== verification/Language_Samples.thy ===== *)
theory Language_Samples
  imports Prelude "HOL-Library.Multiset"
begin

text \<open>
  The samples of \<open>src/recipes/C++11\<close> on smart pointers, and those of \<open>src/recipes/thread\<close> on the
  guards of a mutex. For the first, the objects that \<open>std::make_shared\<close> makes with their use
  counts, the release of a reference with the destructors it runs, and what the counts promise in
  general. For the second, threads that print under a mutex, one insertion into \<open>std::cout\<close> a step.
\<close>

section \<open>Objects with a use count\<close>

text \<open>
  An object is known by its place in the store and stays there when it has been destroyed, with a
  use count of zero. It has at most one pointer to another object, which it owns (\<open>shared_ptr\<close>) or
  not (\<open>weak_ptr\<close>).
\<close>

datatype sample_class = Test | TestA | TestB | WeakTestA | WeakTestB

datatype link = NoLink | Shared nat | Weak nat

record shared_obj =
  ob_class :: sample_class
  ob_uses :: nat
  ob_link :: link

record shared_store =
  st_objs :: "shared_obj list"
  st_out :: "string list"

definition use_count :: "shared_store \<Rightarrow> nat \<Rightarrow> nat" where
  "use_count s p = (if p < length (st_objs s) then ob_uses (st_objs s ! p) else 0)"

definition set_uses :: "nat \<Rightarrow> nat \<Rightarrow> shared_store \<Rightarrow> shared_store" where
  "set_uses p n s = s\<lparr>st_objs := (st_objs s)[p := (st_objs s ! p)\<lparr>ob_uses := n\<rparr>]\<rparr>"

definition says :: "string list \<Rightarrow> shared_store \<Rightarrow> shared_store" where
  "says out s = s\<lparr>st_out := st_out s @ out\<rparr>"

text \<open>\<open>std::make_shared\<close>, with the line that the constructor of the class prints.\<close>

definition constructor_line :: "sample_class \<Rightarrow> string" where
  "constructor_line c = (case c of Test \<Rightarrow> ''Test()'' | TestA \<Rightarrow> ''TestA()'' | TestB \<Rightarrow> ''TestB()''
     | WeakTestA \<Rightarrow> ''TestA()'' | WeakTestB \<Rightarrow> ''TestB()'')"

definition make_shared :: "sample_class \<Rightarrow> shared_store \<Rightarrow> nat \<times> shared_store" where
  "make_shared c s = (length (st_objs s),
     says [constructor_line c] (s\<lparr>st_objs := st_objs s @ [\<lparr>ob_class = c, ob_uses = 1, ob_link = NoLink\<rparr>]\<rparr>))"

text \<open>A copy of a \<open>shared_ptr\<close>.\<close>

definition shared_copy :: "nat \<Rightarrow> shared_store \<Rightarrow> shared_store" where
  "shared_copy p s = set_uses p (use_count s p + 1) s"

text \<open>
  \<open>~TestB\<close> of the sample on \<open>weak_ptr\<close>: \<open>lock\<close> gives a second reference to an object that is still
  there, and an empty pointer otherwise; \<open>TestWork\<close> is then called on no object at all.
\<close>

definition WeakTestB_delete :: "link \<Rightarrow> shared_store \<Rightarrow> string list res" where
  "WeakTestB_delete l s =
     (case l of
        Weak q \<Rightarrow>
          if use_count s q = 0 then Inl OutOfBounds
          else Inr [''~TestA::TestWork()'', ''2 ref a:'' @ dec (use_count s q + 1), ''~TestB()'']
      | _ \<Rightarrow> Inl OutOfBounds)"

definition destructor :: "shared_obj \<Rightarrow> shared_store \<Rightarrow> string list res" where
  "destructor ob s =
     (case ob_class ob of
        Test \<Rightarrow> Inr [''~Test()'']
      | TestA \<Rightarrow> Inr [''~TestA()'']
      | TestB \<Rightarrow> Inr [''~TestB()'']
      | WeakTestA \<Rightarrow> Inr [''~TestA()'']
      | WeakTestB \<Rightarrow> WeakTestB_delete (ob_link ob) s)"

text \<open>
  The end of a \<open>shared_ptr\<close>: the last one runs the destructor and then ends the member of the
  object.
\<close>

definition total_uses :: "shared_store \<Rightarrow> nat" where
  "total_uses s = sum_list (map ob_uses (st_objs s))"

lemma total_uses_says [simp]: "total_uses (says out s) = total_uses s"
  by (simp add: total_uses_def says_def)

lemma total_uses_drop:
  assumes "n < use_count s p"
  shows "total_uses (set_uses p n s) < total_uses s"
proof -
  have p: "p < length (st_objs s)" using assms by (auto simp: use_count_def split: if_splits)
  then have "use_count s p \<le> total_uses s"
    by (auto simp: use_count_def total_uses_def intro!: member_le_sum_list)
  with p assms show ?thesis by (simp add: total_uses_def set_uses_def use_count_def map_update sum_list_update)
qed

function shared_drop :: "nat \<Rightarrow> shared_store \<Rightarrow> shared_store res" where
  "shared_drop p s =
     (if use_count s p = 0 then Inr s
      else let s1 = set_uses p (use_count s p - 1) s in
        if use_count s p \<noteq> 1 then Inr s1
        else case destructor (st_objs s ! p) s1 of
            Inl e \<Rightarrow> Inl e
          | Inr out \<Rightarrow> (case ob_link (st_objs s ! p) of
                Shared q \<Rightarrow> shared_drop q (says out s1)
              | _ \<Rightarrow> Inr (says out s1)))"
  by pat_completeness auto
termination
  by (relation "measure (\<lambda>(p, s). total_uses s)") (auto intro: total_uses_drop)

declare shared_drop.simps [simp del]

text \<open>The two members that set the pointer of an object: the argument is a copy and ends with the call.\<close>

definition set_link :: "nat \<Rightarrow> link \<Rightarrow> shared_store \<Rightarrow> shared_store" where
  "set_link p l s = s\<lparr>st_objs := (st_objs s)[p := (st_objs s ! p)\<lparr>ob_link := l\<rparr>]\<rparr>"

definition Shared_ReferTestB :: "nat \<Rightarrow> nat \<Rightarrow> shared_store \<Rightarrow> shared_store res" where
  "Shared_ReferTestB p test_ptr s =
     (let s1 = shared_copy test_ptr s;
          s2 = set_link p (Shared test_ptr) (shared_copy test_ptr s1)
      in bind_res (case ob_link (st_objs s1 ! p) of Shared old \<Rightarrow> shared_drop old s2 | _ \<Rightarrow> Inr s2)
           (shared_drop test_ptr))"

definition Weak_ReferTestB :: "nat \<Rightarrow> nat \<Rightarrow> shared_store \<Rightarrow> shared_store res" where
  "Weak_ReferTestB p test_ptr s = shared_drop test_ptr (set_link p (Weak test_ptr) (shared_copy test_ptr s))"

definition no_store :: shared_store where
  "no_store = \<lparr>st_objs = [], st_out = []\<rparr>"

text \<open>The three programs; the pointers of \<open>main\<close> end in the reverse of their order.\<close>

definition shared_main :: "shared_store res" where
  "shared_main =
     (let (p1, s1) = make_shared Test no_store;
          s2 = shared_copy p1 (says [''1 ref:'' @ dec (use_count s1 p1)] s1)
      in bind_res (shared_drop p1 (says [''2 ref:'' @ dec (use_count s2 p1)] s2)) (\<lambda>s3.
           shared_drop p1 (says [''3 ref:'' @ dec (use_count s3 p1)] s3)))"

definition cross_main :: "shared_store res" where
  "cross_main =
     (let (ptr_a, s1) = make_shared TestA no_store; (ptr_b, s2) = make_shared TestB s1
      in bind_res (Shared_ReferTestB ptr_a ptr_b s2) (\<lambda>s3.
         bind_res (Shared_ReferTestB ptr_b ptr_a s3) (\<lambda>s4.
         bind_res (shared_drop ptr_b s4) (shared_drop ptr_a))))"

definition weak_main :: "shared_store res" where
  "weak_main =
     (let (ptr_a, s1) = make_shared WeakTestA no_store; (ptr_b, s2) = make_shared WeakTestB s1
      in bind_res (Weak_ReferTestB ptr_a ptr_b s2) (\<lambda>s3.
         bind_res (Weak_ReferTestB ptr_b ptr_a s3) (\<lambda>s4.
         bind_res (shared_drop ptr_b (says [''1 ref a:'' @ dec (use_count s4 ptr_a),
             ''1 ref b:'' @ dec (use_count s4 ptr_a)] s4)) (shared_drop ptr_a))))"

section \<open>What the counts promise\<close>

text \<open>
  With \<open>L\<close> the pointers of the program's variables, an object's count is the number of pointers
  to it, in variables and in objects that are still there.
\<close>

definition owns :: "shared_obj \<Rightarrow> nat multiset" where
  "owns ob = (if ob_uses ob = 0 then {#} else case ob_link ob of Shared q \<Rightarrow> {#q#} | _ \<Rightarrow> {#})"

definition counts_exact :: "nat multiset \<Rightarrow> shared_store \<Rightarrow> bool" where
  "counts_exact L s \<longleftrightarrow> (\<forall>p. use_count s p = count (L + \<Sum>\<^sub># (mset (map owns (st_objs s)))) p)"

lemma owned_after_update:
  "p < length obs \<Longrightarrow> \<Sum>\<^sub># (mset (map owns (obs[p := ob]))) + owns (obs ! p)
     = \<Sum>\<^sub># (mset (map owns obs)) + owns ob"
proof (induction obs arbitrary: p)
  case (Cons x obs)
  then show ?case by (cases p) auto
qed simp

lemma count_owned:
  "p < length obs \<Longrightarrow> count (\<Sum>\<^sub># (mset (map owns (obs[p := ob])))) q + count (owns (obs ! p)) q
     = count (\<Sum>\<^sub># (mset (map owns obs))) q + count (owns ob) q"
  using owned_after_update [of p obs ob] by (metis count_union)

lemma use_count_less: "0 < use_count s p \<Longrightarrow> p < length (st_objs s)"
  by (auto simp: use_count_def split: if_splits)

lemma use_count_set_uses:
  "p < length (st_objs s) \<Longrightarrow> use_count (set_uses p n s) q = (if q = p then n else use_count s q)"
  by (simp add: use_count_def set_uses_def)

lemma counts_exact_says [simp]: "counts_exact L (says out s) = counts_exact L s"
  by (simp add: counts_exact_def says_def use_count_def)

lemma counts_exact_new:
  "counts_exact {#} no_store"
  by (simp add: counts_exact_def no_store_def use_count_def)

lemma counts_exact_make:
  assumes "counts_exact L s" and "make_shared c s = (p, s')"
  shows "counts_exact (add_mset p L) s'"
proof -
  have p: "p = length (st_objs s)" and objs: "st_objs s' = st_objs s @ [\<lparr>ob_class = c, ob_uses = 1, ob_link = NoLink\<rparr>]"
    using assms(2) by (auto simp: make_shared_def says_def)
  have "use_count s' q = use_count s q + (if q = p then 1 else 0)" for q
    by (auto simp: use_count_def p objs nth_append)
  moreover have "\<Sum>\<^sub># (mset (map owns (st_objs s'))) = \<Sum>\<^sub># (mset (map owns (st_objs s)))"
    by (simp add: objs owns_def)
  ultimately show ?thesis using assms(1) by (simp add: counts_exact_def)
qed

lemma counts_exact_copy:
  assumes "counts_exact L s" and "0 < use_count s p"
  shows "counts_exact (add_mset p L) (shared_copy p s)"
proof -
  let ?ob = "st_objs s ! p"
  have p: "p < length (st_objs s)" by (rule use_count_less [OF assms(2)])
  have "owns (?ob\<lparr>ob_uses := use_count s p + 1\<rparr>) = owns ?ob"
    using assms(2) p by (simp add: owns_def use_count_def)
  then have "count (\<Sum>\<^sub># (mset (map owns (st_objs (shared_copy p s))))) q = count (\<Sum>\<^sub># (mset (map owns (st_objs s)))) q" for q
    using count_owned [OF p, of "?ob\<lparr>ob_uses := use_count s p + 1\<rparr>" q] by (simp add: shared_copy_def set_uses_def)
  with assms(1) p show ?thesis
    by (auto simp: counts_exact_def shared_copy_def use_count_set_uses)
qed

text \<open>Ending one of the pointers keeps the counts exact, however many destructors it sets off.\<close>

lemma shared_drop_exact:
  "counts_exact (add_mset p L) s \<Longrightarrow> shared_drop p s = Inr s' \<Longrightarrow> counts_exact L s'"
proof (induction p s arbitrary: L rule: shared_drop.induct)
  case (1 p s)
  let ?ob = "st_objs s ! p" and ?s1 = "set_uses p (use_count s p - 1) s"
  have use: "0 < use_count s p" using "1.prems"(1) by (simp add: counts_exact_def)
  have p: "p < length (st_objs s)" by (rule use_count_less [OF use])
  have sum: "count (\<Sum>\<^sub># (mset (map owns (st_objs ?s1)))) q + count (owns ?ob) q
      = count (\<Sum>\<^sub># (mset (map owns (st_objs s)))) q + count (owns (?ob\<lparr>ob_uses := use_count s p - 1\<rparr>)) q" for q
    using count_owned [OF p] by (simp add: set_uses_def)
  have counts: "use_count s q = count (add_mset p L) q + count (\<Sum>\<^sub># (mset (map owns (st_objs s)))) q" for q
    using "1.prems"(1) by (simp add: counts_exact_def)
  have owned: "owns ?ob = (case ob_link ?ob of Shared q \<Rightarrow> {#q#} | _ \<Rightarrow> {#})"
    using use p by (simp add: owns_def use_count_def)
  show ?case
  proof (cases "use_count s p = 1")
    case False
    then have "owns (?ob\<lparr>ob_uses := use_count s p - 1\<rparr>) = owns ?ob"
      using use p by (simp add: owns_def use_count_def)
    then have "counts_exact L ?s1"
      using sum counts by (auto simp: counts_exact_def use_count_set_uses [OF p])
    with False use "1.prems"(2) show ?thesis by (subst (asm) shared_drop.simps) (simp add: Let_def)
  next
    case True
    then have gone: "owns (?ob\<lparr>ob_uses := 0\<rparr>) = {#}" by (simp add: owns_def)
    have "use_count ?s1 q = count (L + owns ?ob + \<Sum>\<^sub># (mset (map owns (st_objs ?s1)))) q" for q
      using sum [of q] counts [of q] True by (cases "q = p") (auto simp: use_count_set_uses [OF p] gone)
    then have exact: "counts_exact (L + owns ?ob) ?s1" by (simp add: counts_exact_def)
    obtain out where out: "destructor ?ob ?s1 = Inr out"
      using "1.prems"(2) True by (subst (asm) shared_drop.simps) (simp add: Let_def split: sum.splits)
    show ?thesis
    proof (cases "ob_link ?ob")
      case (Shared q)
      have "shared_drop q (says out ?s1) = Inr s'"
        using "1.prems"(2) True out Shared by (subst (asm) shared_drop.simps) (simp add: Let_def)
      moreover have "counts_exact (add_mset q L) (says out ?s1)" using exact owned Shared by simp
      ultimately show ?thesis using "1.IH" [of ?s1 out q L] True out Shared use by simp
    next
      case NoLink
      with "1.prems"(2) True out exact owned show ?thesis by (subst (asm) shared_drop.simps) (auto simp: Let_def)
    next
      case (Weak q)
      with "1.prems"(2) True out exact owned show ?thesis by (subst (asm) shared_drop.simps) (auto simp: Let_def)
    qed
  qed
qed

text \<open>
  When the variables are gone, whatever is left is owned by something that is left: only a cycle
  keeps objects, and where the pointers go one way nothing is kept.
\<close>

lemma leak_needs_owner:
  assumes "counts_exact {#} s" and "0 < use_count s p"
  obtains q where "0 < use_count s q" and "ob_link (st_objs s ! q) = Shared p"
proof -
  have "0 < count (\<Sum>\<^sub># (mset (map owns (st_objs s)))) p" using assms by (simp add: counts_exact_def)
  then have "p \<in># \<Sum>\<^sub># (mset (map owns (st_objs s)))" by (simp only: count_greater_zero_iff)
  then obtain ob where ob: "ob \<in> set (st_objs s)" "p \<in># owns ob" by auto
  then obtain q where q: "q < length (st_objs s)" "st_objs s ! q = ob" by (auto simp: in_set_conv_nth)
  have "0 < use_count s q" "ob_link (st_objs s ! q) = Shared p"
    using ob q by (auto simp: owns_def use_count_def split: if_splits link.splits)
  then show thesis by (rule that)
qed

lemma one_way_no_leak:
  assumes "counts_exact {#} s" and "\<And>q p. ob_link (st_objs s ! q) = Shared p \<Longrightarrow> p < q"
  shows "use_count s p = 0"
proof (rule ccontr)
  assume "use_count s p \<noteq> 0"
  then have some: "p \<in> {p. 0 < use_count s p}" by simp
  have fin: "finite {p. 0 < use_count s p}"
    by (rule finite_subset [of _ "{..<length (st_objs s)}"]) (auto simp: use_count_less)
  let ?m = "Max {p. 0 < use_count s p}"
  have "0 < use_count s ?m" using Max_in [OF fin] some by blast
  then obtain q where q: "0 < use_count s q" "ob_link (st_objs s ! q) = Shared ?m"
    by (rule leak_needs_owner [OF assms(1)])
  with assms(2) have "?m < q" by blast
  moreover have "q \<le> ?m" using Max_ge [OF fin] q(1) by blast
  ultimately show False by simp
qed

text \<open>The programs: the one with the two owners leaks both objects, the one with \<open>weak_ptr\<close> none.\<close>

lemma dec_small: "dec (Suc 0) = ''1''" "dec (Suc (Suc 0)) = ''2''"
  by code_simp+

lemma dec_two: "dec 2 = ''2''"
  by code_simp

lemmas sample_simps = shared_drop.simps make_shared_def no_store_def says_def use_count_def set_uses_def
  set_link_def shared_copy_def destructor_def WeakTestB_delete_def constructor_line_def Let_def dec_small

lemma shared_main_counts:
  "map_sum id st_out shared_main = Inr [''Test()'', ''1 ref:1'', ''2 ref:2'', ''3 ref:1'', ''~Test()'']"
  by (simp add: shared_main_def sample_simps)

lemma cross_main_leaks:
  "map_sum id (\<lambda>s. (st_out s, map (use_count s) [0, 1])) cross_main = Inr ([''TestA()'', ''TestB()''], [1, 1])"
  by (simp add: cross_main_def Shared_ReferTestB_def sample_simps)

lemma weak_main_frees:
  "map_sum id (\<lambda>s. (st_out s, map (use_count s) [0, 1])) weak_main =
     Inr ([''TestA()'', ''TestB()'', ''1 ref a:1'', ''1 ref b:1'', ''~TestA::TestWork()'', ''2 ref a:2'',
       ''~TestB()'', ''~TestA()''], [0, 0])"
  by (simp add: weak_main_def Weak_ReferTestB_def sample_simps)

section \<open>Printing under a mutex: \<open>mutex_test.cpp\<close>\<close>

text \<open>
  Threads that run \<open>print_block\<close> with arguments \<open>n\<close> and \<open>c\<close> of their own. A thread waits for
  the mutex, prints the characters and at last the end of the line, and has returned.
\<close>

datatype pb_pc = PbLock | PbPrint nat | PbDone

record pb_state =
  pb_mtx :: "nat option"
  pb_out :: string
  pb_pc_of :: "nat \<Rightarrow> pb_pc"

definition pb_start :: pb_state where
  "pb_start = \<lparr>pb_mtx = None, pb_out = [], pb_pc_of = (\<lambda>_. PbLock)\<rparr>"

definition print_block :: "(nat \<Rightarrow> nat) \<Rightarrow> (nat \<Rightarrow> char) \<Rightarrow> nat \<Rightarrow> pb_state \<Rightarrow> pb_state option" where
  "print_block n c t s =
     (case pb_pc_of s t of
        PbLock \<Rightarrow>
          if pb_mtx s = None then Some (s\<lparr>pb_mtx := Some t, pb_pc_of := (pb_pc_of s)(t := PbPrint 0)\<rparr>) else None
      | PbPrint i \<Rightarrow>
          if i < n t then Some (s\<lparr>pb_out := pb_out s @ [c t], pb_pc_of := (pb_pc_of s)(t := PbPrint (Suc i))\<rparr>)
          else Some (s\<lparr>pb_out := pb_out s @ [CHR 0x0A], pb_mtx := None, pb_pc_of := (pb_pc_of s)(t := PbDone)\<rparr>)
      | PbDone \<Rightarrow> None)"

inductive pb_step :: "(nat \<Rightarrow> nat) \<Rightarrow> (nat \<Rightarrow> char) \<Rightarrow> pb_state \<Rightarrow> pb_state \<Rightarrow> bool" for n c where
  "print_block n c t s = Some s' \<Longrightarrow> pb_step n c s s'"

definition pb_line :: "(nat \<Rightarrow> nat) \<Rightarrow> (nat \<Rightarrow> char) \<Rightarrow> nat \<Rightarrow> string" where
  "pb_line n c t = replicate (n t) (c t) @ [CHR 0x0A]"

definition pb_begun :: "(nat \<Rightarrow> nat) \<Rightarrow> (nat \<Rightarrow> char) \<Rightarrow> pb_state \<Rightarrow> string" where
  "pb_begun n c s = (case pb_mtx s of None \<Rightarrow> [] | Some t \<Rightarrow>
     (case pb_pc_of s t of PbPrint i \<Rightarrow> replicate i (c t) | _ \<Rightarrow> []))"

definition pb_inv :: "(nat \<Rightarrow> nat) \<Rightarrow> (nat \<Rightarrow> char) \<Rightarrow> pb_state \<Rightarrow> bool" where
  "pb_inv n c s \<longleftrightarrow>
     (\<forall>t i. pb_pc_of s t = PbPrint i \<longrightarrow> pb_mtx s = Some t \<and> i \<le> n t)
     \<and> (\<forall>t. pb_mtx s = Some t \<longrightarrow> (\<exists>i. pb_pc_of s t = PbPrint i))
     \<and> (\<exists>ts. distinct ts \<and> set ts = {t. pb_pc_of s t = PbDone}
          \<and> pb_out s = concat (map (pb_line n c) ts) @ pb_begun n c s)"

lemma pb_inv_step:
  assumes "pb_inv n c s" and "print_block n c t s = Some s'"
  shows "pb_inv n c s'"
proof -
  obtain ts where ts: "distinct ts" "set ts = {t. pb_pc_of s t = PbDone}"
      "pb_out s = concat (map (pb_line n c) ts) @ pb_begun n c s"
    using assms(1) by (auto simp: pb_inv_def)
  show ?thesis
  proof (cases "pb_pc_of s t")
    case PbLock
    with assms(2) have s': "pb_mtx s = None" "s' = s\<lparr>pb_mtx := Some t, pb_pc_of := (pb_pc_of s)(t := PbPrint 0)\<rparr>"
      by (auto simp: print_block_def split: if_splits)
    have "set ts = {u. pb_pc_of s' u = PbDone} \<and> pb_out s' = concat (map (pb_line n c) ts) @ pb_begun n c s'"
      using ts s' PbLock by (auto simp: pb_begun_def)
    with assms(1) s' ts(1) show ?thesis unfolding pb_inv_def by auto
  next
    case (PbPrint i)
    with assms(1) have holder: "pb_mtx s = Some t" "i \<le> n t" by (auto simp: pb_inv_def)
    have others: "pb_pc_of s u \<noteq> PbPrint j" if "u \<noteq> t" for u j
      using assms(1) holder that by (auto simp: pb_inv_def)
    show ?thesis
    proof (cases "i < n t")
      case True
      with assms(2) PbPrint have s': "s' = s\<lparr>pb_out := pb_out s @ [c t], pb_pc_of := (pb_pc_of s)(t := PbPrint (Suc i))\<rparr>"
        by (simp add: print_block_def)
      have "set ts = {u. pb_pc_of s' u = PbDone} \<and> pb_out s' = concat (map (pb_line n c) ts) @ pb_begun n c s'"
        using ts s' PbPrint holder by (auto simp: pb_begun_def replicate_append_same)
      with others s' ts(1) holder True show ?thesis unfolding pb_inv_def by auto
    next
      case False
      with assms(2) PbPrint have s': "s' = s\<lparr>pb_out := pb_out s @ [CHR 0x0A], pb_mtx := None,
          pb_pc_of := (pb_pc_of s)(t := PbDone)\<rparr>" by (simp add: print_block_def)
      have "distinct (ts @ [t]) \<and> set (ts @ [t]) = {u. pb_pc_of s' u = PbDone}
          \<and> pb_out s' = concat (map (pb_line n c) (ts @ [t])) @ pb_begun n c s'"
        using ts s' PbPrint holder False by (auto simp: pb_begun_def pb_line_def)
      with others s' show ?thesis unfolding pb_inv_def by (metis option.distinct(1) fun_upd_apply
          pb_pc.distinct(5) pb_state.select_convs(1,3) pb_state.update_convs(1,3) pb_state.surjective)
    qed
  next
    case PbDone
    with assms(2) show ?thesis by (simp add: print_block_def)
  qed
qed

text \<open>
  Lines are never mixed: what has been printed is the lines of the threads that have returned,
  whole and in some order, and the beginning of the line of the thread that has the mutex. While a
  thread has not returned some thread can go on.
\<close>

lemma print_block_lines:
  assumes "(pb_step n c)\<^sup>*\<^sup>* pb_start s"
  shows "pb_inv n c s"
  using assms
proof (induction rule: rtranclp_induct)
  case base
  show ?case by (auto simp: pb_inv_def pb_start_def pb_begun_def)
next
  case (step y z)
  from step(2) step(3) show ?case by (cases rule: pb_step.cases) (rule pb_inv_step)
qed

lemma print_block_ends:
  assumes "(pb_step n c)\<^sup>*\<^sup>* pb_start s" and "pb_pc_of s t \<noteq> PbDone"
  shows "\<exists>s'. pb_step n c s s'"
proof (cases "pb_mtx s")
  case None
  with assms print_block_lines [OF assms(1)] have "pb_pc_of s t = PbLock"
    by (cases "pb_pc_of s t") (auto simp: pb_inv_def)
  with None have "print_block n c t s \<noteq> None" by (simp add: print_block_def)
  then show ?thesis by (auto intro: pb_step.intros)
next
  case (Some u)
  with print_block_lines [OF assms(1)] obtain i where "pb_pc_of s u = PbPrint i" by (auto simp: pb_inv_def)
  then have "print_block n c u s \<noteq> None" by (simp add: print_block_def)
  then show ?thesis by (auto intro: pb_step.intros)
qed

section \<open>A guard and an exception: \<open>lock_guard_test.cpp\<close>\<close>

text \<open>
  \<open>print_thread_id\<close> holds the mutex in its \<open>try\<close> block. An even number is printed there in two
  insertions; an odd one leaves the block by an exception, which ends the guard before the handler
  prints.
\<close>

datatype lg_pc = LgLock | LgEven | LgTail | LgCatch | LgDone

record lg_state =
  lg_mtx :: "nat option"
  lg_out :: "string list"
  lg_pc_of :: "nat \<Rightarrow> lg_pc"

definition lg_start :: lg_state where
  "lg_start = \<lparr>lg_mtx = None, lg_out = [], lg_pc_of = (\<lambda>_. LgLock)\<rparr>"

definition lg_to :: "nat \<Rightarrow> lg_pc \<Rightarrow> nat option \<Rightarrow> string list \<Rightarrow> lg_state \<Rightarrow> lg_state" where
  "lg_to x p m out s = s\<lparr>lg_mtx := m, lg_out := lg_out s @ out, lg_pc_of := (lg_pc_of s)(x := p)\<rparr>"

definition print_thread_id :: "nat \<Rightarrow> lg_state \<Rightarrow> lg_state option" where
  "print_thread_id x s =
     (case lg_pc_of s x of
        LgLock \<Rightarrow> if lg_mtx s = None then Some (lg_to x LgEven (Some x) [] s) else None
      | LgEven \<Rightarrow> if x mod 2 = 0 then Some (lg_to x LgTail (Some x) [dec x] s) else Some (lg_to x LgCatch None [] s)
      | LgTail \<Rightarrow> Some (lg_to x LgDone None ['' is even'' @ [CHR 0x0A]] s)
      | LgCatch \<Rightarrow> Some (lg_to x LgDone (lg_mtx s) [''[exception caught]'' @ [CHR 0x0A]] s)
      | LgDone \<Rightarrow> None)"

inductive lg_step :: "lg_state \<Rightarrow> lg_state \<Rightarrow> bool" where
  "print_thread_id x s = Some s' \<Longrightarrow> lg_step s s'"

definition lg_inv :: "lg_state \<Rightarrow> bool" where
  "lg_inv s \<longleftrightarrow> (\<forall>x. lg_mtx s = Some x \<longleftrightarrow> lg_pc_of s x \<in> {LgEven, LgTail})"

lemma lg_inv_to:
  assumes "lg_inv s" and "p = LgEven \<or> p = LgTail \<longleftrightarrow> m = Some x"
    and "m = lg_mtx s \<or> m \<in> {None, Some x} \<and> lg_mtx s \<in> {None, Some x}"
  shows "lg_inv (lg_to x p m out s)"
proof -
  have "m = Some u \<longleftrightarrow> lg_pc_of s u \<in> {LgEven, LgTail}" if "u \<noteq> x" for u
  proof -
    have "m = Some u \<longleftrightarrow> lg_mtx s = Some u" using assms(3) that by auto
    with assms(1) show ?thesis by (simp add: lg_inv_def)
  qed
  with assms(2) show ?thesis by (simp add: lg_inv_def lg_to_def)
qed

lemma lg_inv_step:
  assumes "print_thread_id x s = Some s'" and "lg_inv s"
  shows "lg_inv s'"
proof -
  have holder: "lg_mtx s = Some x \<longleftrightarrow> lg_pc_of s x = LgEven \<or> lg_pc_of s x = LgTail"
    using assms(2) by (simp add: lg_inv_def)
  show ?thesis
    using assms holder
    by (cases "lg_pc_of s x") (auto simp: print_thread_id_def split: if_splits intro!: lg_inv_to)
qed

lemma lg_inv_reachable: "lg_step\<^sup>*\<^sup>* lg_start s \<Longrightarrow> lg_inv s"
proof (induction rule: rtranclp_induct)
  case base
  show ?case by (simp add: lg_inv_def lg_start_def)
next
  case (step y z)
  from step(2,3) show ?case by (cases rule: lg_step.cases) (rule lg_inv_step)
qed

text \<open>The exception does not keep the mutex: while a thread has not returned some thread can go on.\<close>

lemma guard_releases:
  assumes "lg_step\<^sup>*\<^sup>* lg_start s" and "lg_pc_of s x \<noteq> LgDone"
  shows "\<exists>s'. lg_step s s'"
proof -
  have inv: "lg_inv s" by (rule lg_inv_reachable [OF assms(1)])
  obtain y where "print_thread_id y s \<noteq> None"
  proof (cases "lg_mtx s")
    case None
    with assms(2) have "print_thread_id x s \<noteq> None" by (cases "lg_pc_of s x") (auto simp: print_thread_id_def)
    then show thesis by (rule that)
  next
    case (Some y)
    with inv have "lg_pc_of s y = LgEven \<or> lg_pc_of s y = LgTail" by (auto simp: lg_inv_def)
    then have "print_thread_id y s \<noteq> None" by (auto simp: print_thread_id_def)
    then show thesis by (rule that)
  qed
  then show ?thesis by (auto intro: lg_step.intros)
qed

text \<open>The handler is outside the guard, so what it prints may come between a number and \<open>is even\<close>.\<close>

fun lg_run :: "nat list \<Rightarrow> lg_state \<Rightarrow> lg_state option" where
  "lg_run [] s = Some s"
| "lg_run (x # xs) s = (case print_thread_id x s of None \<Rightarrow> None | Some s' \<Rightarrow> lg_run xs s')"

lemma lg_run_steps: "lg_run xs s = Some s' \<Longrightarrow> lg_step\<^sup>*\<^sup>* s s'"
  by (induction xs s rule: lg_run.induct)
    (auto split: option.splits intro: converse_rtranclp_into_rtranclp lg_step.intros)

lemma handler_mixes_lines:
  "\<exists>s. lg_step\<^sup>*\<^sup>* lg_start s \<and> lg_out s = [''2'', ''[exception caught]'' @ [CHR 0x0A], '' is even'' @ [CHR 0x0A]]"
proof -
  have "map_option lg_out (lg_run [1, 1, 2, 2, 1, 2] lg_start) = Some [''2'', ''[exception caught]'' @ [CHR 0x0A], '' is even'' @ [CHR 0x0A]]"
    by (simp add: print_thread_id_def lg_start_def lg_to_def dec_two)
  then obtain s where "lg_run [1, 1, 2, 2, 1, 2] lg_start = Some s"
      "lg_out s = [''2'', ''[exception caught]'' @ [CHR 0x0A], '' is even'' @ [CHR 0x0A]]" by (auto simp del: lg_run.simps)
  then show ?thesis using lg_run_steps by blast
qed

end
