(* ===== verification/Accessors.thy ===== *)
theory Accessors
  imports Http_Program ThreadPool
begin

text \<open>
  The member functions that only read their object, what they read after the operations that write
  it, and the small functions around the kernel objects of a loop and of a condition variable: how
  a descriptor is obtained, what is printed for debugging, and which loop is the one of the current
  thread.
\<close>

section \<open>Reading an object\<close>

definition HttpRequest_method :: "http_request \<Rightarrow> http_method" where
  "HttpRequest_method r = req_method r"

definition HttpRequest_path :: "http_request \<Rightarrow> string" where
  "HttpRequest_path r = req_path r"

definition HttpRequest_query :: "http_request \<Rightarrow> string" where
  "HttpRequest_query r = req_query r"

definition HttpRequest_receiveTime :: "http_request \<Rightarrow> int" where
  "HttpRequest_receiveTime r = req_receiveTime r"

definition HttpRequest_headers :: "http_request \<Rightarrow> (string \<times> string) list" where
  "HttpRequest_headers r = req_headers r"

definition HttpContext_request :: "http_context \<Rightarrow> http_request" where
  "HttpContext_request c = ctx_request c"

definition HttpResponse_closeConnection :: "http_response \<Rightarrow> bool" where
  "HttpResponse_closeConnection r = resp_closeConnection r"

definition Channel_fd :: "'cb channel_t \<Rightarrow> int" where
  "Channel_fd ch = ch_fd ch"

text \<open>The events are returned as an \<open>int\<close>.\<close>

definition Channel_getEvents :: "'cb channel_t \<Rightarrow> int" where
  "Channel_getEvents ch = sint (ch_events ch)"

definition Channel_getStatusInEpoll :: "'cb channel_t \<Rightarrow> int" where
  "Channel_getStatusInEpoll ch = ch_statusInEpoll ch"

definition Channel_ownerLoop :: "'cb channel_t \<Rightarrow> nat" where
  "Channel_ownerLoop ch = ch_loop ch"

definition Timer_getExpiredTime :: "'cb timer_t \<Rightarrow> int" where
  "Timer_getExpiredTime t = tm_expiredTime t"

definition Timer_repeat :: "'cb timer_t \<Rightarrow> bool" where
  "Timer_repeat t = tm_repeat t"

definition Timer_getSequence :: "'cb timer_t \<Rightarrow> int" where
  "Timer_getSequence t = tm_sequence t"

definition Socket_fd :: "socket_t \<Rightarrow> int" where
  "Socket_fd s = sockfd s"

definition Acceptor_isListening :: "'cb acceptor_t \<Rightarrow> bool" where
  "Acceptor_isListening ac = ac_isListening ac"

definition TcpConnection_name :: "conn_world \<Rightarrow> string" where
  "TcpConnection_name w = tc_name w"

definition TcpConnection_getContext :: "conn_world \<Rightarrow> http_context" where
  "TcpConnection_getContext w = tc_context w"

text \<open>The caller of \<open>getMutableContext\<close> changes the context in place.\<close>

definition TcpConnection_getMutableContext :: "(http_context \<Rightarrow> http_context) \<Rightarrow> conn_world \<Rightarrow> conn_world" where
  "TcpConnection_getMutableContext change w = w\<lparr>tc_context := change (tc_context w)\<rparr>"

definition TcpConnection_localAddress :: "conn_world \<Rightarrow> sockaddr_in" where
  "TcpConnection_localAddress w = tc_localAddress w"

definition TcpConnection_peerAddress :: "conn_world \<Rightarrow> sockaddr_in" where
  "TcpConnection_peerAddress w = tc_peerAddress w"

definition TcpServer_getLoop :: "srv_world \<Rightarrow> nat" where
  "TcpServer_getLoop s = ts_loop s"

definition HttpServer_getLoop :: "srv_world \<Rightarrow> nat" where
  "HttpServer_getLoop s = TcpServer_getLoop s"

definition Thread_hasStarted :: "thread_t \<Rightarrow> bool" where
  "Thread_hasStarted th = th_started th"

definition Thread_tid :: "thread_t \<Rightarrow> int" where
  "Thread_tid th = th_tid th"

definition Thread_getName :: "thread_t \<Rightarrow> string" where
  "Thread_getName th = th_name th"

lemmas getters = HttpRequest_method_def HttpRequest_path_def HttpRequest_query_def HttpRequest_receiveTime_def
  HttpRequest_headers_def HttpContext_request_def HttpResponse_closeConnection_def Channel_fd_def
  Channel_getEvents_def Channel_getStatusInEpoll_def Channel_ownerLoop_def Timer_getExpiredTime_def
  Timer_repeat_def Timer_getSequence_def Socket_fd_def Acceptor_isListening_def TcpConnection_name_def
  TcpConnection_getContext_def TcpConnection_localAddress_def TcpConnection_peerAddress_def
  TcpServer_getLoop_def HttpServer_getLoop_def Thread_hasStarted_def Thread_tid_def Thread_getName_def

text \<open>What is read after a request has been parsed, a timer restarted, a socket moved, a thread started.\<close>

lemma read_parsed:
  assumes "Buffer_inv b" and "Buffer_content b = render_request m path query hs @ rest"
    and "m \<noteq> kInvalid" and "wf_target path query" and "list_all wf_header hs"
  shows "\<exists>ctx b'. HttpContext_parseRequest HttpContext_new b t = Some (Inr (ctx, b', True))
    \<and> HttpRequest_method (HttpContext_request ctx) = m \<and> HttpRequest_path (HttpContext_request ctx) = path
    \<and> HttpRequest_query (HttpContext_request ctx) = query \<and> HttpRequest_receiveTime (HttpContext_request ctx) = t
    \<and> smap_get (HttpRequest_headers (HttpContext_request ctx)) = map_of (rev hs)"
proof -
  from parse_request_rendered [OF assms, of t] obtain b' where
    "HttpContext_parseRequest HttpContext_new b t =
      Some (Inr (\<lparr>ctx_state = kGotAll, ctx_request = parsed_request t m path query hs\<rparr>, b', True))" .
  then show ?thesis
    using parsed_headers [of t m path query hs] by (simp add: getters) (simp add: parsed_request_def)
qed

lemma read_restarted:
  "Timer_restart now tm = Inr tm' \<Longrightarrow>
   Timer_getExpiredTime tm' = (if Timer_repeat tm then now + tm_interval tm else Timer_invaild)
   \<and> Timer_repeat tm' = Timer_repeat tm \<and> Timer_getSequence tm' = Timer_getSequence tm"
  by (auto simp: getters Timer_restart_def Timer_updateExpiredTime_def Timer_invaild_def bind_res_eq_Inr
      int64_res_def split: if_splits)

lemma read_moved: "Socket_fd (fst (Socket_move s)) = Socket_fd s \<and> \<not> Socket_isValid (snd (Socket_move s))"
  by (simp add: getters Socket_move_def Socket_of_def Socket_setNoneFd_def Socket_isValid_def)

lemma read_started:
  "Thread_start answer th = Inr th' \<Longrightarrow> \<not> Thread_hasStarted th \<and> Thread_hasStarted th' \<and> Thread_getName th' = Thread_getName th"
  by (auto simp: getters Thread_start_def Let_def split: if_splits option.splits)

section \<open>Descriptors of a loop\<close>

text \<open>
  \<open>answer\<close> is what \<open>eventfd(2)\<close> or \<open>timerfd_create(2)\<close> returns; \<open>abort\<close> ends the process as a
  failed assertion does.
\<close>

definition createEventfd :: "int \<Rightarrow> int res" where
  "createEventfd answer = (if answer < 0 then Inl AssertFailed else Inr answer)"

definition createTimerfd :: "int \<Rightarrow> int res" where
  "createTimerfd answer = Inr answer"

text \<open>
  A loop never runs with an invalid eventfd, but it does with an invalid timerfd: the failure is
  printed and the descriptor \<open>-1\<close> is used.
\<close>

lemma invalid_descriptors: "createEventfd fd = Inr fd' \<Longrightarrow> 0 \<le> fd'" "createTimerfd (- 1) = Inr (- 1)"
  by (auto simp: createEventfd_def createTimerfd_def split: if_splits)

section \<open>The loop of the current thread\<close>

text \<open>
  What the constructor and the destructor of \<open>EventLoop\<close> do to \<open>t_loopInThisThread\<close>; its other
  steps do not touch it.
\<close>

definition EventLoop_register :: "nat \<Rightarrow> nat option \<Rightarrow> nat option" where
  "EventLoop_register this t = (case t of Some l \<Rightarrow> Some l | None \<Rightarrow> Some this)"

definition EventLoop_unregister :: "nat option \<Rightarrow> nat option" where
  "EventLoop_unregister t = None"

definition EventLoop_getEventLoopOfCurrentThread :: "nat option \<Rightarrow> nat option" where
  "EventLoop_getEventLoopOfCurrentThread t = t"

text \<open>
  A second loop made in a thread is refused the place but takes it away when it goes: afterwards the
  thread has no loop although the first one lives on.
\<close>

lemma second_loop_unregisters:
  "EventLoop_getEventLoopOfCurrentThread (EventLoop_register b (EventLoop_register a None)) = Some a
   \<and> EventLoop_getEventLoopOfCurrentThread (EventLoop_unregister (EventLoop_register b (EventLoop_register a None))) = None"
  by (simp add: EventLoop_getEventLoopOfCurrentThread_def EventLoop_register_def EventLoop_unregister_def)

section \<open>Messages\<close>

text \<open>
  \<open>assertInLoopThread\<close> and what it prints; the address of the loop is printed first, in the way
  the library prints pointers, which is a parameter.
\<close>

definition EventLoop_abortNotInLoopThread :: "string \<Rightarrow> int \<Rightarrow> 'f event_loop \<Rightarrow> string" where
  "EventLoop_abortNotInLoopThread address tid el =
     ''Error: EventLoop::abortNotInLoopThread - EventLoop '' @ address
     @ '' was created in threadId_ = '' @ show_int (el_threadId el)
     @ '', current thread id = '' @ show_int tid @ ''\<newline>''"

definition EventLoop_assertInLoopThread :: "string \<Rightarrow> int \<Rightarrow> 'f event_loop \<Rightarrow> string res" where
  "EventLoop_assertInLoopThread address tid el =
     (if \<not> EventLoop_isInLoopThread tid el then Inr (EventLoop_abortNotInLoopThread address tid el) else Inr [])"

definition Epoll_assertInLoopThread :: "string \<Rightarrow> int \<Rightarrow> 'f event_loop \<Rightarrow> string res" where
  "Epoll_assertInLoopThread address tid ownerLoop = EventLoop_assertInLoopThread address tid ownerLoop"

text \<open>It stops nobody: from the wrong thread the call prints a line and goes on.\<close>

lemma assertInLoopThread_returns:
  "returns (EventLoop_assertInLoopThread address tid el) (\<lambda>out. out = [] \<longleftrightarrow> EventLoop_isInLoopThread tid el)"
  by (simp add: EventLoop_assertInLoopThread_def EventLoop_abortNotInLoopThread_def)

definition EventLoop_printActiveChannels :: "'cb channel_t list \<Rightarrow> string" where
  "EventLoop_printActiveChannels channels =
     concat (map (\<lambda>ch. ''{'' @ Channel_reventsToString ch @ ''} '' @ ''\<newline>'') channels)"

section \<open>Condition\<close>

text \<open>The constructor and the destructor assert that the library calls succeed.\<close>

definition Condition_new :: "int \<Rightarrow> unit res" where
  "Condition_new answer = cpp_assert (answer = 0) (Inr ())"

definition Condition_delete :: "int \<Rightarrow> unit res" where
  "Condition_delete answer = cpp_assert (answer = 0) (Inr ())"

end
