(* ===== verification/Echo_Reactor.thy ===== *)
theory Echo_Reactor
  imports Epoll
begin

text \<open>
  \<open>src/recipes/Reactor\<close>: a small reactor (\<open>Handler\<close>, \<open>EpollPoller\<close>, \<open>Reactor\<close>) and the echo
  server of \<open>test.cpp\<close> on top of it. A \<open>Handler\<close> is an object of a heap, so that the callback
  that drops the last reference to it frees it; a dereference of a null pointer or of a freed
  object is \<open>OutOfBounds\<close>, like an access past the end of an array. The answers of \<open>accept4\<close>,
  \<open>read\<close>, \<open>write\<close> and \<open>epoll_wait\<close> are parameters; what was received, sent and closed is
  recorded. \<open>Reactor::loop\<close> never ends, so it is the fold of its steps over a list.
\<close>

unbundle bit_operations_syntax

section \<open>Handler\<close>

definition MAX_BUFFLEN :: nat where
  "MAX_BUFFLEN = 1024"

record 'cb handler_t =
  hd_fd :: int
  hd_events :: "32 word"
  hd_revents :: "32 word"
  hd_isInEpoll :: bool
  hd_buff :: string
  hd_len :: nat
  hd_readCallback :: "'cb option"
  hd_writeCallback :: "'cb option"
  hd_closeCallback :: "'cb option"

text \<open>The array is not initialised; \<open>junk\<close> is what it happens to hold.\<close>

definition Handler_new :: "int \<Rightarrow> string \<Rightarrow> 'cb handler_t" where
  "Handler_new fd junk = \<lparr>hd_fd = fd, hd_events = 0, hd_revents = 0, hd_isInEpoll = False,
     hd_buff = take MAX_BUFFLEN junk, hd_len = 0, hd_readCallback = None, hd_writeCallback = None, hd_closeCallback = None\<rparr>"

definition Handler_setReadCallback :: "'cb option \<Rightarrow> 'cb handler_t \<Rightarrow> 'cb handler_t" where
  "Handler_setReadCallback cb h = h\<lparr>hd_readCallback := cb\<rparr>"

definition Handler_setWriteCallback :: "'cb option \<Rightarrow> 'cb handler_t \<Rightarrow> 'cb handler_t" where
  "Handler_setWriteCallback cb h = h\<lparr>hd_writeCallback := cb\<rparr>"

definition Handler_setCloseCallback :: "'cb option \<Rightarrow> 'cb handler_t \<Rightarrow> 'cb handler_t" where
  "Handler_setCloseCallback cb h = h\<lparr>hd_closeCallback := cb\<rparr>"

definition Handler_enableRead :: "'cb handler_t \<Rightarrow> 'cb handler_t" where
  "Handler_enableRead h = h\<lparr>hd_events := EPOLLIN\<rparr>"

definition Handler_enableWrite :: "'cb handler_t \<Rightarrow> 'cb handler_t" where
  "Handler_enableWrite h = h\<lparr>hd_events := EPOLLOUT\<rparr>"

definition Handler_enableAll :: "'cb handler_t \<Rightarrow> 'cb handler_t" where
  "Handler_enableAll h = h\<lparr>hd_events := (hd_events h OR EPOLLIN) OR EPOLLOUT\<rparr>"

definition Handler_disableAll :: "'cb handler_t \<Rightarrow> 'cb handler_t" where
  "Handler_disableAll h = h\<lparr>hd_events := 0\<rparr>"

definition Handler_setLen :: "nat \<Rightarrow> 'cb handler_t \<Rightarrow> 'cb handler_t" where
  "Handler_setLen len h = h\<lparr>hd_len := len\<rparr>"

section \<open>State\<close>

datatype echo_cb = AcceptConn | ReadData | SendData

datatype echo_call = Received int string | Sent int string | ClosedFd int

record echo_world =
  ew_heap :: "nat \<Rightarrow> echo_cb handler_t option"
  ew_handleList :: "(int \<times> nat) list"
  ew_listSize :: nat
  ew_ctl :: "ctl list"
  ew_calls :: "echo_call list"

definition EchoServer_new :: echo_world where
  "EchoServer_new = \<lparr>ew_heap = (\<lambda>a. None), ew_handleList = [], ew_listSize = 16, ew_ctl = [], ew_calls = []\<rparr>"

definition handler_at :: "nat \<Rightarrow> echo_world \<Rightarrow> echo_cb handler_t res" where
  "handler_at a w = (case ew_heap w a of None \<Rightarrow> Inl OutOfBounds | Some h \<Rightarrow> Inr h)"

definition put_handler :: "nat \<Rightarrow> echo_cb handler_t \<Rightarrow> echo_world \<Rightarrow> echo_world" where
  "put_handler a h w = w\<lparr>ew_heap := (ew_heap w)(a \<mapsto> h)\<rparr>"

definition log_call :: "echo_call \<Rightarrow> echo_world \<Rightarrow> echo_world" where
  "log_call c w = w\<lparr>ew_calls := ew_calls w @ [c]\<rparr>"

section \<open>EpollPoller\<close>

definition EpollPoller_update :: "nat \<Rightarrow> echo_world \<Rightarrow> echo_world res" where
  "EpollPoller_update a w =
     bind_res (handler_at a w) (\<lambda>h.
       let op = (if hd_isInEpoll h then EPOLL_CTL_MOD else EPOLL_CTL_ADD) in
       Inr ((put_handler a (h\<lparr>hd_isInEpoll := True\<rparr>) w)\<lparr>ew_ctl := ew_ctl w @ [(op, hd_fd h, hd_events h, a)]\<rparr>))"

definition EpollPoller_remove :: "nat \<Rightarrow> echo_world \<Rightarrow> echo_world res" where
  "EpollPoller_remove a w =
     bind_res (handler_at a w) (\<lambda>h.
       cpp_assert (hd_isInEpoll h)
         (Inr ((put_handler a (h\<lparr>hd_isInEpoll := False\<rparr>) w)\<lparr>ew_ctl := ew_ctl w @ [(EPOLL_CTL_DEL, hd_fd h, 0, 0)]\<rparr>)))"

text \<open>The event \<open>ev\<close> that \<open>epoll_wait\<close> reports for a handler; of two the second one stays.\<close>

definition fill_revents :: "32 word \<Rightarrow> 'cb handler_t \<Rightarrow> 'cb handler_t" where
  "fill_revents ev h =
     (let h1 = (if has_bits ev EPOLLIN then h\<lparr>hd_revents := EPOLLIN\<rparr> else h) in
      if has_bits ev EPOLLOUT then h1\<lparr>hd_revents := EPOLLOUT\<rparr> else h1)"

fun EpollPoller_fillActivateChannels :: "(32 word \<times> nat) list \<Rightarrow> echo_world \<Rightarrow> (nat list \<times> echo_world) res" where
  "EpollPoller_fillActivateChannels [] w = Inr ([], w)"
| "EpollPoller_fillActivateChannels ((ev, a) # evs) w =
     bind_res (handler_at a w) (\<lambda>h.
     bind_res (EpollPoller_fillActivateChannels evs (put_handler a (fill_revents ev h) w)) (\<lambda>(ptrs, w').
     Inr (a # ptrs, w')))"

text \<open>\<open>answer\<close> is what \<open>epoll_wait\<close> fills in, \<open>None\<close> when it fails.\<close>

definition EpollPoller_poll :: "(32 word \<times> nat) list option \<Rightarrow> echo_world \<Rightarrow> (nat list \<times> echo_world) res" where
  "EpollPoller_poll answer w =
     (case answer of
        None \<Rightarrow> Inr ([], w)
      | Some evs \<Rightarrow>
          if 0 < length evs
          then bind_res (EpollPoller_fillActivateChannels evs w) (\<lambda>(ptrs, w1).
                 Inr (ptrs, if length evs = ew_listSize w1 then w1\<lparr>ew_listSize := ew_listSize w1 * 2\<rparr> else w1))
          else Inr ([], w))"

text \<open>\<open>Reactor::registerHandler\<close> and \<open>removeHandler\<close>.\<close>

definition Reactor_registerHandler :: "nat \<Rightarrow> echo_world \<Rightarrow> echo_world res" where
  "Reactor_registerHandler a w = EpollPoller_update a w"

definition Reactor_removeHandler :: "nat \<Rightarrow> echo_world \<Rightarrow> echo_world res" where
  "Reactor_removeHandler a w = EpollPoller_remove a w"

section \<open>EchoServer\<close>

text \<open>An operation on the object of a handler.\<close>

definition modify_handler :: "(echo_cb handler_t \<Rightarrow> echo_cb handler_t) \<Rightarrow> nat \<Rightarrow> echo_world \<Rightarrow> echo_world res" where
  "modify_handler f a w = bind_res (handler_at a w) (\<lambda>h. Inr (put_handler a (f h) w))"

text \<open>\<open>handleList_[fd]\<close>, dereferenced: a missing entry is a null pointer.\<close>

definition listed :: "int \<Rightarrow> echo_world \<Rightarrow> nat res" where
  "listed fd w = (case smap_get (ew_handleList w) fd of None \<Rightarrow> Inl OutOfBounds | Some a \<Rightarrow> Inr a)"

text \<open>
  \<open>handleList_[fd] = handler\<close> for a handler made at \<open>a\<close>; the assignment frees the handler
  that was there before.
\<close>

definition list_handler :: "int \<Rightarrow> nat \<Rightarrow> echo_cb handler_t \<Rightarrow> echo_world \<Rightarrow> echo_world" where
  "list_handler fd a h w =
     (let heap = (case smap_get (ew_handleList w) fd of None \<Rightarrow> ew_heap w | Some old \<Rightarrow> (ew_heap w)(old := None)) in
      w\<lparr>ew_heap := heap(a \<mapsto> h), ew_handleList := smap_put fd a (ew_handleList w)\<rparr>)"

text \<open>\<open>my_error\<close>.\<close>

definition my_error :: "int \<Rightarrow> 'w \<Rightarrow> 'w res" where
  "my_error x w = (if x < 0 then Inl ExitCalled else Inr w)"

text \<open>\<open>startup\<close>; the arguments are what \<open>socket\<close>, \<open>bind\<close> and \<open>listen\<close> return and the new handler's address.\<close>

definition EchoServer_startup :: "int \<Rightarrow> int \<Rightarrow> int \<Rightarrow> nat \<Rightarrow> string \<Rightarrow> echo_world \<Rightarrow> echo_world res" where
  "EchoServer_startup lfd bound listening a junk w =
     bind_res (my_error lfd w) (\<lambda>w.
     bind_res (my_error bound (list_handler lfd a (Handler_new lfd junk) w)) (\<lambda>w.
     bind_res (my_error listening w) (\<lambda>w.
     bind_res (modify_handler (Handler_setReadCallback (Some AcceptConn)) a w) (\<lambda>w.
     bind_res (modify_handler Handler_enableRead a w) (\<lambda>w.
     Reactor_registerHandler a w)))))"

text \<open>The kernel's answers: a new connection with the address of its handler, and for each
  descriptor the bytes read (\<open>None\<close> for an error) and the result of a write.\<close>

record echo_kernel =
  ek_accept :: "int \<times> nat \<times> string"
  ek_read :: "int \<Rightarrow> string option"
  ek_write :: "int \<Rightarrow> nat \<Rightarrow> int"

definition EchoServer_acceptConn :: "echo_kernel \<Rightarrow> int \<Rightarrow> echo_world \<Rightarrow> echo_world res" where
  "EchoServer_acceptConn k fd w =
     (let (cfd, a, junk) = ek_accept k in
      bind_res (my_error cfd w) (\<lambda>w1.
      bind_res (Inr (list_handler cfd a (Handler_new cfd junk) w1)) (\<lambda>w2.
      bind_res (modify_handler (Handler_setReadCallback (Some ReadData)) a w2) (\<lambda>w3.
      bind_res (modify_handler Handler_enableRead a w3) (\<lambda>w4.
      Reactor_registerHandler a w4)))))"

text \<open>Closing a connection: \<open>erase\<close> and the end of \<open>pHandler\<close> drop the last references.\<close>

definition close_connection :: "int \<Rightarrow> nat \<Rightarrow> echo_world \<Rightarrow> echo_world res" where
  "close_connection fd a w =
     bind_res (Reactor_removeHandler a (log_call (ClosedFd fd) w)) (\<lambda>w1.
       Inr (w1\<lparr>ew_handleList := smap_erase fd (ew_handleList w1), ew_heap := (ew_heap w1)(a := None)\<rparr>))"

definition EchoServer_readdata :: "echo_kernel \<Rightarrow> int \<Rightarrow> echo_world \<Rightarrow> echo_world res" where
  "EchoServer_readdata k fd w =
     bind_res (listed fd w) (\<lambda>a.
     bind_res (handler_at a w) (\<lambda>h.
     case ek_read k fd of
       None \<Rightarrow> close_connection fd a w
     | Some bytes \<Rightarrow>
         if bytes = [] then close_connection fd a w
         else bind_res (mem_write (hd_buff h) 0 bytes) (\<lambda>buff1.
              bind_res (mem_write buff1 (length bytes) [CHR 0x00]) (\<lambda>buff2.
              let w1 = put_handler a (Handler_enableWrite (Handler_setWriteCallback (Some SendData)
                         (Handler_setLen (length bytes) (h\<lparr>hd_buff := buff2\<rparr>)))) (log_call (Received fd bytes) w) in
              Reactor_registerHandler a w1))))"

definition EchoServer_senddata :: "echo_kernel \<Rightarrow> int \<Rightarrow> echo_world \<Rightarrow> echo_world res" where
  "EchoServer_senddata k fd w =
     bind_res (listed fd w) (\<lambda>a.
     bind_res (handler_at a w) (\<lambda>h.
     bind_res (mem_read (hd_buff h) 0 (hd_len h)) (\<lambda>bytes.
     let nbytes = ek_write k fd (hd_len h) in
     if 0 < nbytes
     then Reactor_registerHandler a (put_handler a (Handler_enableRead (Handler_setReadCallback (Some ReadData) h))
            (log_call (Sent fd (take (nat nbytes) bytes)) w))
     else close_connection fd a w)))"

fun echo_callback :: "echo_kernel \<Rightarrow> echo_cb \<Rightarrow> int \<Rightarrow> echo_world \<Rightarrow> echo_world res" where
  "echo_callback k AcceptConn fd w = EchoServer_acceptConn k fd w"
| "echo_callback k ReadData fd w = EchoServer_readdata k fd w"
| "echo_callback k SendData fd w = EchoServer_senddata k fd w"

text \<open>\<open>HandleEvent\<close> reads the members of its object again after the first callback.\<close>

definition Handler_HandleEvent :: "echo_kernel \<Rightarrow> nat \<Rightarrow> echo_world \<Rightarrow> echo_world res" where
  "Handler_HandleEvent k a w =
     bind_res (handler_at a w) (\<lambda>h.
     bind_res
       (if has_bits (hd_revents h) EPOLLIN
        then (case hd_readCallback h of None \<Rightarrow> Inl BadFunctionCall | Some cb \<Rightarrow> echo_callback k cb (hd_fd h) w)
        else Inr w) (\<lambda>w1.
     bind_res (handler_at a w1) (\<lambda>h1.
     if has_bits (hd_revents h1) EPOLLOUT
     then (case hd_writeCallback h1 of None \<Rightarrow> Inl BadFunctionCall | Some cb \<Rightarrow> echo_callback k cb (hd_fd h1) w1)
     else Inr w1)))"

text \<open>
  One step of \<open>Reactor::loop\<close>, whose state is the world and the active handlers it has still
  to call: a poll when there are none, else the next call of \<open>HandleEvent\<close>.
\<close>

datatype loop_input = Polled "(32 word \<times> nat) list option" | Kernel echo_kernel

fun Reactor_step :: "loop_input \<Rightarrow> echo_world \<times> nat list \<Rightarrow> (echo_world \<times> nat list) res" where
  "Reactor_step (Polled answer) (w, []) =
     bind_res (EpollPoller_poll answer w) (\<lambda>(ptrs, w'). Inr (w', ptrs))"
| "Reactor_step (Kernel k) (w, a # ptrs) = bind_res (Handler_HandleEvent k a w) (\<lambda>w'. Inr (w', ptrs))"
| "Reactor_step _ s = Inr s"

definition Reactor_loop :: "loop_input list \<Rightarrow> echo_world \<Rightarrow> (echo_world \<times> nat list) res" where
  "Reactor_loop script w = fold_res Reactor_step script (w, [])"

text \<open>\<open>start\<close>.\<close>

definition EchoServer_start :: "int \<Rightarrow> int \<Rightarrow> int \<Rightarrow> nat \<Rightarrow> string \<Rightarrow> loop_input list \<Rightarrow> (echo_world \<times> nat list) res" where
  "EchoServer_start lfd bound listening a junk script =
     bind_res (EchoServer_startup lfd bound listening a junk EchoServer_new) (Reactor_loop script)"

section \<open>Echoing\<close>

definition received :: "int \<Rightarrow> echo_call list \<Rightarrow> string" where
  "received fd cs = concat (map (\<lambda>c. case c of Received f s \<Rightarrow> if f = fd then s else [] | _ \<Rightarrow> []) cs)"

definition sent :: "int \<Rightarrow> echo_call list \<Rightarrow> string" where
  "sent fd cs = concat (map (\<lambda>c. case c of Sent f s \<Rightarrow> if f = fd then s else [] | _ \<Rightarrow> []) cs)"

lemma stream_simps [simp]:
  "received fd [] = []" "sent fd [] = []"
  "received fd (cs @ [Received f s]) = received fd cs @ (if f = fd then s else [])"
  "received fd (cs @ [Sent f s]) = received fd cs" "sent fd (cs @ [Received f s]) = sent fd cs"
  "sent fd (cs @ [Sent f s]) = sent fd cs @ (if f = fd then s else [])"
  by (simp_all add: received_def sent_def)

text \<open>What a handler holds for its peer, and what the server holds for a descriptor.\<close>

definition waiting :: "'cb handler_t \<Rightarrow> string" where
  "waiting h = (if hd_events h = EPOLLOUT then take (hd_len h) (hd_buff h) else [])"

definition to_echo :: "int \<Rightarrow> echo_world \<Rightarrow> string" where
  "to_echo fd w = (case smap_get (ew_handleList w) fd of None \<Rightarrow> []
     | Some a \<Rightarrow> (case ew_heap w a of None \<Rightarrow> [] | Some h \<Rightarrow> waiting h))"

lemma to_echo_listSize [simp]: "to_echo fd (w\<lparr>ew_listSize := n\<rparr>) = to_echo fd w"
  by (simp add: to_echo_def split: option.split)

definition echo_mode :: "echo_cb handler_t \<Rightarrow> bool" where
  "echo_mode h \<longleftrightarrow> length (hd_buff h) = MAX_BUFFLEN
     \<and> (if hd_events h = EPOLLOUT
        then hd_writeCallback h = Some SendData \<and> 0 < hd_len h \<and> hd_len h \<le> MAX_BUFFLEN
        else hd_events h = EPOLLIN \<and> (hd_readCallback h = Some AcceptConn \<or> hd_readCallback h = Some ReadData))"

definition echo_inv :: "echo_world \<Rightarrow> bool" where
  "echo_inv w \<longleftrightarrow> smap_inv (ew_handleList w)
     \<and> (\<forall>fd a. smap_get (ew_handleList w) fd = Some a \<longrightarrow> (\<exists>h. ew_heap w a = Some h \<and> hd_fd h = fd))
     \<and> (\<forall>a h. ew_heap w a = Some h \<longrightarrow> echo_mode h \<and> smap_get (ew_handleList w) (hd_fd h) = Some a)
     \<and> (\<forall>fd. received fd (ew_calls w) = sent fd (ew_calls w) @ to_echo fd w)"

text \<open>One handler changes.\<close>

lemma echo_inv_update:
  assumes inv: "echo_inv w" and a: "ew_heap w a = Some h"
    and w': "ew_heap w' = (ew_heap w)(a \<mapsto> h')" "ew_handleList w' = ew_handleList w"
    and h': "hd_fd h' = hd_fd h" "echo_mode h'"
    and other: "\<And>fd. fd \<noteq> hd_fd h \<Longrightarrow> received fd (ew_calls w') = received fd (ew_calls w)
      \<and> sent fd (ew_calls w') = sent fd (ew_calls w)"
    and own: "received (hd_fd h) (ew_calls w') = sent (hd_fd h) (ew_calls w') @ waiting h'"
  shows "echo_inv w'"
proof -
  from inv have I: "smap_inv (ew_handleList w)"
    "\<And>fd b. smap_get (ew_handleList w) fd = Some b \<Longrightarrow> \<exists>g. ew_heap w b = Some g \<and> hd_fd g = fd"
    "\<And>b g. ew_heap w b = Some g \<Longrightarrow> echo_mode g \<and> smap_get (ew_handleList w) (hd_fd g) = Some b"
    "\<And>fd. received fd (ew_calls w) = sent fd (ew_calls w) @ to_echo fd w"
    by (auto simp: echo_inv_def)
  have listed: "smap_get (ew_handleList w) (hd_fd h) = Some a" using I(3) [OF a] by simp
  have "received fd (ew_calls w') = sent fd (ew_calls w') @ to_echo fd w'" for fd
  proof (cases "fd = hd_fd h")
    case True
    then show ?thesis using own listed by (simp add: to_echo_def w')
  next
    case False
    then have "to_echo fd w' = to_echo fd w"
      using I(2) [of fd a] a by (auto simp: to_echo_def w' split: option.splits)
    then show ?thesis using other [OF False] I(4) by simp
  qed
  moreover have "\<exists>g. ew_heap w' b = Some g \<and> hd_fd g = fd" if "smap_get (ew_handleList w') fd = Some b" for fd b
    using I(2) [of fd b] that a h'(1) by (auto simp: w')
  moreover have "echo_mode g \<and> smap_get (ew_handleList w') (hd_fd g) = Some b" if "ew_heap w' b = Some g" for b g
    using I(3) [of b g] that h' listed by (auto simp: w' split: if_splits)
  ultimately show ?thesis using I(1) by (simp add: echo_inv_def w'(2))
qed

text \<open>What the kernel answers as long as every read is of 1 to 1023 bytes and every write complete.\<close>

fun calm :: "loop_input \<Rightarrow> echo_world \<times> nat list \<Rightarrow> bool" where
  "calm (Polled None) s = True"
| "calm (Polled (Some evs)) s = (distinct (map snd evs)
     \<and> list_all (\<lambda>(ev, a). case ew_heap (fst s) a of None \<Rightarrow> False | Some h \<Rightarrow> ev = hd_events h) evs)"
| "calm (Kernel k) s = ((case ek_accept k of (cfd, a, junk) \<Rightarrow>
       0 \<le> cfd \<and> smap_get (ew_handleList (fst s)) cfd = None \<and> ew_heap (fst s) a = None
       \<and> MAX_BUFFLEN \<le> length junk)
     \<and> (\<forall>fd. case ek_read k fd of None \<Rightarrow> False | Some s \<Rightarrow> s \<noteq> [] \<and> length s < MAX_BUFFLEN)
     \<and> (\<forall>fd n. ek_write k fd n = int n))"

primrec calm_script :: "loop_input list \<Rightarrow> echo_world \<times> nat list \<Rightarrow> bool" where
  "calm_script [] s = True"
| "calm_script (x # xs) s = (calm x s \<and> res_all (Reactor_step x s) (calm_script xs))"

lemma in_out_bits [simp]:
  "has_bits EPOLLIN EPOLLIN" "\<not> has_bits EPOLLIN EPOLLOUT" "has_bits EPOLLOUT EPOLLOUT" "\<not> has_bits EPOLLOUT EPOLLIN"
  "EPOLLIN \<noteq> EPOLLOUT" "EPOLLOUT \<noteq> EPOLLIN"
  by (simp_all add: has_bits_def epoll_bits)

lemmas handler_ops = handler_at_def put_handler_def log_call_def modify_handler_def listed_def
  Reactor_registerHandler_def EpollPoller_update_def Handler_setReadCallback_def Handler_setWriteCallback_def
  Handler_enableRead_def Handler_enableWrite_def Handler_setLen_def

text \<open>The three callbacks.\<close>

lemma accept_calm:
  assumes inv: "echo_inv w" and calm: "calm (Kernel k) (w, ptrs)"
  shows "returns (EchoServer_acceptConn k fd w) (\<lambda>w'. echo_inv w' \<and> (\<forall>b h. ew_heap w b = Some h \<longrightarrow> ew_heap w' b = Some h))"
proof -
  obtain cfd a junk where k: "ek_accept k = (cfd, a, junk)" by (metis prod_cases3)
  with calm have c: "0 \<le> cfd" "smap_get (ew_handleList w) cfd = None" "ew_heap w a = None" "MAX_BUFFLEN \<le> length junk"
    by simp_all
  from inv have I: "smap_inv (ew_handleList w)"
    "\<And>fd b. smap_get (ew_handleList w) fd = Some b \<Longrightarrow> \<exists>g. ew_heap w b = Some g \<and> hd_fd g = fd"
    "\<And>b g. ew_heap w b = Some g \<Longrightarrow> echo_mode g \<and> smap_get (ew_handleList w) (hd_fd g) = Some b"
    "\<And>fd. received fd (ew_calls w) = sent fd (ew_calls w) @ to_echo fd w"
    by (auto simp: echo_inv_def)
  let ?h = "(Handler_new cfd junk)\<lparr>hd_readCallback := Some ReadData, hd_events := EPOLLIN, hd_isInEpoll := True\<rparr>"
  obtain w' where w': "EchoServer_acceptConn k fd w = Inr w'" "ew_heap w' = (ew_heap w)(a \<mapsto> ?h)"
    "ew_handleList w' = smap_put cfd a (ew_handleList w)" "ew_calls w' = ew_calls w"
    using c by (simp add: EchoServer_acceptConn_def k my_error_def list_handler_def handler_ops fun_upd_twist Let_def)
  have h: "echo_mode ?h" "hd_fd ?h = cfd" "waiting ?h = []"
    using c(4) by (simp_all add: echo_mode_def Handler_new_def waiting_def)
  have get: "smap_get (ew_handleList w') = (smap_get (ew_handleList w))(cfd \<mapsto> a)"
    by (simp add: w'(3) smap_get_put I(1))
  have new: "smap_get (ew_handleList w) fd \<noteq> Some a" for fd using I(2) [of fd a] c(3) by auto
  have "to_echo fd w' = to_echo fd w" for fd
    using c(2,3) h(3) I(2) [of fd a] by (auto simp: to_echo_def get w'(2) split: option.splits)
  then have "echo_inv w'"
    using I c h w' get new by (auto simp: echo_inv_def smap_inv_put)
  then show ?thesis using w'(1,2) c(3) by auto
qed

lemma read_calm:
  assumes inv: "echo_inv w" and calm: "calm (Kernel k) (w, ptrs)" and a: "ew_heap w a = Some h"
    and h: "hd_events h = EPOLLIN" "hd_readCallback h = Some ReadData"
  shows "returns (EchoServer_readdata k (hd_fd h) w) (\<lambda>w'. echo_inv w'
    \<and> (\<exists>h'. ew_heap w' = (ew_heap w)(a \<mapsto> h') \<and> hd_revents h' = hd_revents h))"
proof -
  from calm have "case ek_read k (hd_fd h) of None \<Rightarrow> False | Some s \<Rightarrow> s \<noteq> [] \<and> length s < MAX_BUFFLEN" by simp
  then obtain s where s: "ek_read k (hd_fd h) = Some s" "s \<noteq> []" "length s < MAX_BUFFLEN"
    by (cases "ek_read k (hd_fd h)") auto
  from inv a have l: "smap_get (ew_handleList w) (hd_fd h) = Some a" and m: "length (hd_buff h) = MAX_BUFFLEN"
    by (auto simp: echo_inv_def echo_mode_def)
  let ?b = "s @ CHR 0x00 # drop (Suc (length s)) (hd_buff h)"
  have b: "mem_write (hd_buff h) 0 s = Inr (s @ drop (length s) (hd_buff h))"
    "mem_write (s @ drop (length s) (hd_buff h)) (length s) [CHR 0x00] = Inr ?b" "length ?b = MAX_BUFFLEN"
    using s(3) m by simp_all
  let ?h = "h\<lparr>hd_buff := ?b, hd_len := length s, hd_writeCallback := Some SendData, hd_events := EPOLLOUT, hd_isInEpoll := True\<rparr>"
  obtain w' where w': "EchoServer_readdata k (hd_fd h) w = Inr w'" "ew_heap w' = (ew_heap w)(a \<mapsto> ?h)"
    "ew_handleList w' = ew_handleList w" "ew_calls w' = ew_calls w @ [Received (hd_fd h) s]"
    using l s(1,2) a by (simp add: EchoServer_readdata_def handler_ops b(1,2) Let_def)
  have "received (hd_fd h) (ew_calls w) = sent (hd_fd h) (ew_calls w)"
    using inv l a h(1) by (simp add: echo_inv_def to_echo_def waiting_def)
  then have "echo_inv w'"
    using s b(3) w'(4) by (intro echo_inv_update [OF inv a w'(2,3)]) (auto simp: echo_mode_def waiting_def)
  then show ?thesis using w'(1,2) by auto
qed

lemma send_calm:
  assumes inv: "echo_inv w" and calm: "calm (Kernel k) (w, ptrs)" and a: "ew_heap w a = Some h"
    and h: "hd_events h = EPOLLOUT"
  shows "returns (EchoServer_senddata k (hd_fd h) w) (\<lambda>w'. echo_inv w' \<and> (\<exists>h'. ew_heap w' = (ew_heap w)(a \<mapsto> h')))"
proof -
  from inv a h have l: "smap_get (ew_handleList w) (hd_fd h) = Some a"
    and m: "length (hd_buff h) = MAX_BUFFLEN" "0 < hd_len h" "hd_len h \<le> MAX_BUFFLEN"
    by (auto simp: echo_inv_def echo_mode_def)
  from calm have k: "ek_write k (hd_fd h) n = int n" for n by simp
  let ?s = "take (hd_len h) (hd_buff h)"
  let ?h = "h\<lparr>hd_readCallback := Some ReadData, hd_events := EPOLLIN, hd_isInEpoll := True\<rparr>"
  obtain w' where w': "EchoServer_senddata k (hd_fd h) w = Inr w'" "ew_heap w' = (ew_heap w)(a \<mapsto> ?h)"
    "ew_handleList w' = ew_handleList w" "ew_calls w' = ew_calls w @ [Sent (hd_fd h) ?s]"
    using l m a by (simp add: EchoServer_senddata_def handler_ops mem_read_def k Let_def)
  have "received (hd_fd h) (ew_calls w) = sent (hd_fd h) (ew_calls w) @ ?s"
    using inv l a h by (simp add: echo_inv_def to_echo_def waiting_def)
  then have "echo_inv w'"
    using m w'(4) by (intro echo_inv_update [OF inv a w'(2,3)]) (auto simp: echo_mode_def waiting_def)
  then show ?thesis using w'(1,2) by auto
qed

text \<open>A handler whose ready events are those it asked for, and the loop among such handlers.\<close>

definition ready_in :: "echo_world \<Rightarrow> nat \<Rightarrow> bool" where
  "ready_in w a \<longleftrightarrow> (\<exists>h. ew_heap w a = Some h \<and> hd_revents h = hd_events h)"

lemma handle_calm:
  assumes inv: "echo_inv w" and calm: "calm (Kernel k) (w, ptrs)" and "ready_in w a"
  shows "returns (Handler_HandleEvent k a w) (\<lambda>w'. echo_inv w'
    \<and> (\<forall>b h. b \<noteq> a \<longrightarrow> ew_heap w b = Some h \<longrightarrow> ew_heap w' b = Some h))"
proof -
  obtain h where a: "ew_heap w a = Some h" and h: "hd_revents h = hd_events h"
    using assms(3) by (auto simp: ready_in_def)
  with inv have "echo_mode h" by (simp add: echo_inv_def)
  then consider (accept) "hd_events h = EPOLLIN" "hd_readCallback h = Some AcceptConn"
    | (read) "hd_events h = EPOLLIN" "hd_readCallback h = Some ReadData"
    | (send) "hd_events h = EPOLLOUT" "hd_writeCallback h = Some SendData"
    by (auto simp: echo_mode_def split: if_splits)
  then show ?thesis
  proof cases
    case accept
    from accept_calm [OF inv calm, of "hd_fd h"] obtain w' where
      w': "EchoServer_acceptConn k (hd_fd h) w = Inr w'" "echo_inv w'"
      "\<And>b g. ew_heap w b = Some g \<Longrightarrow> ew_heap w' b = Some g" by (auto elim: returnsE)
    then have "Handler_HandleEvent k a w = Inr w'"
      using a h accept w'(3) [OF a] by (simp add: Handler_HandleEvent_def handler_at_def)
    then show ?thesis using w' by simp
  next
    case read
    from read_calm [OF inv calm a read] obtain w' h' where
      w': "EchoServer_readdata k (hd_fd h) w = Inr w'" "echo_inv w'" "ew_heap w' = (ew_heap w)(a \<mapsto> h')"
      "hd_revents h' = hd_revents h" by (auto elim!: returnsE)
    then have "Handler_HandleEvent k a w = Inr w'"
      using a h read by (simp add: Handler_HandleEvent_def handler_at_def)
    then show ?thesis using w' by simp
  next
    case send
    from send_calm [OF inv calm a send(1)] obtain w' h' where
      w': "EchoServer_senddata k (hd_fd h) w = Inr w'" "echo_inv w'" "ew_heap w' = (ew_heap w)(a \<mapsto> h')"
      by (auto elim!: returnsE)
    then have "Handler_HandleEvent k a w = Inr w'"
      using a h send by (simp add: Handler_HandleEvent_def handler_at_def)
    then show ?thesis using w' by simp
  qed
qed

lemma fill_calm:
  assumes "echo_inv w" and "calm (Polled (Some evs)) (w, ptrs)"
  shows "returns (EpollPoller_fillActivateChannels evs w) (\<lambda>(ps, w'). echo_inv w' \<and> ps = map snd evs
    \<and> list_all (ready_in w') ps \<and> (\<forall>b. b \<notin> snd ` set evs \<longrightarrow> ew_heap w' b = ew_heap w b))"
  using assms
proof (induction evs arbitrary: w)
  case Nil
  then show ?case by simp
next
  case (Cons e evs)
  obtain ev a where e: "e = (ev, a)" by (cases e)
  with Cons.prems(2) obtain h where a: "ew_heap w a = Some h" "ev = hd_events h" "a \<notin> snd ` set evs"
    by (auto split: option.splits)
  let ?h = "fill_revents ev h" and ?w = "put_handler a (fill_revents ev h) w"
  have mode: "echo_mode h" using Cons.prems(1) a(1) by (simp add: echo_inv_def)
  have h: "hd_revents ?h = hd_events ?h" "hd_fd ?h = hd_fd h" "echo_mode ?h" "waiting ?h = waiting h" "hd_events ?h = hd_events h"
    using mode a(2) by (auto simp: fill_revents_def echo_mode_def waiting_def Let_def split: if_splits)
  have "received (hd_fd h) (ew_calls w) = sent (hd_fd h) (ew_calls w) @ waiting h"
    using Cons.prems(1) a(1) by (auto simp: echo_inv_def to_echo_def)
  then have inv: "echo_inv ?w"
    using h by (intro echo_inv_update [OF Cons.prems(1) a(1), where h' = ?h]) (auto simp: put_handler_def)
  have "list_all (\<lambda>(ev, a). case ew_heap ?w a of None \<Rightarrow> False | Some h \<Rightarrow> ev = hd_events h) evs"
    using Cons.prems(2) a h(5) by (auto simp: e list_all_iff put_handler_def split: option.splits)
  with Cons.prems(2) have "calm (Polled (Some evs)) (?w, ptrs)" by (simp add: e)
  from Cons.IH [OF inv this] obtain w' where w': "EpollPoller_fillActivateChannels evs ?w = Inr (map snd evs, w')"
    "echo_inv w'" "list_all (ready_in w') (map snd evs)" "\<And>b. b \<notin> snd ` set evs \<Longrightarrow> ew_heap w' b = ew_heap ?w b"
    by (auto elim!: returnsE)
  moreover have "ready_in w' a" using w'(4) [OF a(3)] h(1) by (simp add: ready_in_def put_handler_def)
  ultimately show ?case using a(1) by (simp add: e handler_at_def put_handler_def)
qed

definition echo_loop_inv :: "echo_world \<times> nat list \<Rightarrow> bool" where
  "echo_loop_inv s \<longleftrightarrow> echo_inv (fst s) \<and> distinct (snd s) \<and> list_all (ready_in (fst s)) (snd s)"

lemma step_calm:
  assumes "echo_loop_inv s" and "calm x s"
  shows "returns (Reactor_step x s) echo_loop_inv"
proof -
  obtain w ptrs where s: "s = (w, ptrs)" by (cases s)
  with assms(1) have I: "echo_inv w" "distinct ptrs" "list_all (ready_in w) ptrs" by (simp_all add: echo_loop_inv_def)
  consider (poll) answer where "x = Polled answer" "ptrs = []"
    | (handle) k a ps where "x = Kernel k" "ptrs = a # ps" | (other) "Reactor_step x s = Inr s"
    unfolding s by (cases x; cases ptrs) auto
  then show ?thesis
  proof cases
    case (poll answer)
    show ?thesis
    proof (cases answer)
      case None
      then show ?thesis using I poll by (simp add: s EpollPoller_poll_def echo_loop_inv_def)
    next
      case (Some evs)
      note poll = poll(1) [unfolded Some] poll(2)
      from fill_calm [OF I(1), of evs ptrs] assms(2) poll obtain w' where
        w': "EpollPoller_fillActivateChannels evs w = Inr (map snd evs, w')" "echo_inv w'" "list_all (ready_in w') (map snd evs)"
        by (auto simp: s elim!: returnsE)
      have "distinct (map snd evs)" using assms(2) poll by simp
      moreover have "echo_inv (w'\<lparr>ew_listSize := n\<rparr>)" "ready_in (w'\<lparr>ew_listSize := n\<rparr>) = ready_in w'" for n
        using w'(2) by (simp_all add: echo_inv_def ready_in_def fun_eq_iff)
      ultimately show ?thesis
        using w' I poll by (auto simp: s EpollPoller_poll_def echo_loop_inv_def)
    qed
  next
    case (handle k a ps)
    then have "ready_in w a" "calm (Kernel k) (w, ptrs)" using I(3) assms(2) by (simp_all add: s)
    from handle_calm [OF I(1) this(2,1)] obtain w' where w': "Handler_HandleEvent k a w = Inr w'" "echo_inv w'"
      "\<And>b h. b \<noteq> a \<Longrightarrow> ew_heap w b = Some h \<Longrightarrow> ew_heap w' b = Some h" by (auto elim: returnsE)
    have "ready_in w' b" if "b \<in> set ps" for b
    proof -
      have "b \<noteq> a" "ready_in w b" using that I(2,3) handle by (auto simp: list_all_iff)
      then show ?thesis using w'(3) [of b] by (auto simp: ready_in_def)
    qed
    then show ?thesis using w' I(2) handle by (simp add: s echo_loop_inv_def list_all_iff)
  next
    case other
    then show ?thesis using assms(1) by simp
  qed
qed

lemma run_calm:
  assumes "echo_loop_inv s" and "calm_script script s"
  shows "returns (fold_res Reactor_step script s) echo_loop_inv"
  using assms
proof (induction script arbitrary: s)
  case Nil
  then show ?case by simp
next
  case (Cons x xs)
  from step_calm [OF Cons.prems(1), of x] Cons.prems(2) obtain s' where "Reactor_step x s = Inr s'" "echo_loop_inv s'"
    by (auto elim: returnsE)
  with Cons show ?case by simp
qed


definition echo_junk :: string where
  "echo_junk = replicate 1024 (CHR ''?'')"

definition echo_demo_kernel :: echo_kernel where
  "echo_demo_kernel = \<lparr>ek_accept = (5, 1, echo_junk), ek_read = (\<lambda>fd. Some ''hi''), ek_write = (\<lambda>fd n. int n)\<rparr>"

definition echo_demo_kernel2 :: echo_kernel where
  "echo_demo_kernel2 = \<lparr>ek_accept = (6, 2, echo_junk), ek_read = (\<lambda>fd. Some ''hi''), ek_write = (\<lambda>fd n. int n)\<rparr>"

definition echo_demo_script :: "loop_input list" where
  "echo_demo_script = [Polled (Some [(EPOLLIN, 0)]), Kernel echo_demo_kernel, Polled (Some [(EPOLLIN, 1)]),
     Kernel echo_demo_kernel2, Polled (Some [(EPOLLOUT, 1)]), Kernel echo_demo_kernel2]"

lemmas echo_code = EchoServer_startup_def EchoServer_new_def my_error_def list_handler_def handler_ops Handler_new_def
  smap_get_def EpollPoller_poll_def fill_revents_def Handler_HandleEvent_def EchoServer_acceptConn_def
  EchoServer_readdata_def EchoServer_senddata_def MAX_BUFFLEN_def mem_read_def mem_write_def

lemma echo_demo_calm:
  "\<exists>w. EchoServer_startup 3 0 0 0 echo_junk EchoServer_new = Inr w \<and> calm_script echo_demo_script (w, [])"
  by (simp add: echo_code Let_def echo_demo_script_def echo_demo_kernel_def echo_demo_kernel2_def echo_junk_def)


section \<open>What ends or spoils it\<close>

text \<open>
  C40. What a client can do to the echo server: 1024 bytes in one read make \<open>readdata\<close> write the
  terminator behind the array; closing the connection, or an error on it, makes \<open>readdata\<close> close
  the descriptor and free the handler, whose members \<open>HandleEvent\<close> then reads; and when the kernel
  takes only a part of a reply, the server counts it as sent and the rest is lost.
\<close>

theorem echo_faults:
  assumes "smap_get (ew_handleList w) (hd_fd h) = Some a" and "ew_heap w a = Some h" and "hd_isInEpoll h"
    and "length (hd_buff h) = MAX_BUFFLEN"
  shows "(hd_revents h = EPOLLIN \<and> hd_readCallback h = Some ReadData \<longrightarrow>
      (\<forall>s. ek_read k (hd_fd h) = Some s \<and> length s = MAX_BUFFLEN \<longrightarrow> Handler_HandleEvent k a w = Inl OutOfBounds)
    \<and> (ek_read k (hd_fd h) = Some [] \<or> ek_read k (hd_fd h) = None \<longrightarrow>
        returns (EchoServer_readdata k (hd_fd h) w) (\<lambda>w'. ew_heap w' a = None
          \<and> smap_get (ew_handleList w') (hd_fd h) = None \<and> ew_calls w' = ew_calls w @ [ClosedFd (hd_fd h)])
        \<and> Handler_HandleEvent k a w = Inl OutOfBounds))
    \<and> (hd_len h \<le> MAX_BUFFLEN \<and> 0 < ek_write k (hd_fd h) (hd_len h) \<and> ek_write k (hd_fd h) (hd_len h) < int (hd_len h) \<longrightarrow>
        returns (EchoServer_senddata k (hd_fd h) w) (\<lambda>w'. to_echo (hd_fd h) w' = []
          \<and> sent (hd_fd h) (ew_calls w') = sent (hd_fd h) (ew_calls w)
              @ take (nat (ek_write k (hd_fd h) (hd_len h))) (take (hd_len h) (hd_buff h))))"
proof (intro conjI impI)
  assume r: "hd_revents h = EPOLLIN \<and> hd_readCallback h = Some ReadData"
  have "EchoServer_readdata k (hd_fd h) w = Inl OutOfBounds"
    if "ek_read k (hd_fd h) = Some s" "length s = MAX_BUFFLEN" for s
    using assms that by (auto simp: EchoServer_readdata_def handler_ops MAX_BUFFLEN_def mem_write_def)
  then show "\<forall>s. ek_read k (hd_fd h) = Some s \<and> length s = MAX_BUFFLEN \<longrightarrow> Handler_HandleEvent k a w = Inl OutOfBounds"
    using assms(2) r by (auto simp: Handler_HandleEvent_def handler_at_def)
  assume "ek_read k (hd_fd h) = Some [] \<or> ek_read k (hd_fd h) = None"
  then have read: "EchoServer_readdata k (hd_fd h) w = close_connection (hd_fd h) a w"
    using assms(1,2) by (auto simp: EchoServer_readdata_def handler_ops)
  have closed: "returns (close_connection (hd_fd h) a w) (\<lambda>w'. ew_heap w' a = None
      \<and> smap_get (ew_handleList w') (hd_fd h) = None \<and> ew_calls w' = ew_calls w @ [ClosedFd (hd_fd h)])"
    using assms(2,3) by (simp add: close_connection_def Reactor_removeHandler_def EpollPoller_remove_def handler_ops
        smap_get_erase)
  then show "returns (EchoServer_readdata k (hd_fd h) w) (\<lambda>w'. ew_heap w' a = None
      \<and> smap_get (ew_handleList w') (hd_fd h) = None \<and> ew_calls w' = ew_calls w @ [ClosedFd (hd_fd h)])"
    by (simp only: read)
  from closed show "Handler_HandleEvent k a w = Inl OutOfBounds"
    using assms(2) r read by (auto simp: Handler_HandleEvent_def handler_at_def elim!: returnsE)
next
  assume n: "hd_len h \<le> MAX_BUFFLEN \<and> 0 < ek_write k (hd_fd h) (hd_len h) \<and> ek_write k (hd_fd h) (hd_len h) < int (hd_len h)"
  then show "returns (EchoServer_senddata k (hd_fd h) w) (\<lambda>w'. to_echo (hd_fd h) w' = []
      \<and> sent (hd_fd h) (ew_calls w') = sent (hd_fd h) (ew_calls w)
          @ take (nat (ek_write k (hd_fd h) (hd_len h))) (take (hd_len h) (hd_buff h)))"
    using assms by (simp add: EchoServer_senddata_def handler_ops mem_read_def to_echo_def waiting_def Let_def)
qed

text \<open>A handler that waits for its peer, and the peer's end of the connection.\<close>

definition echo_demo_handler :: "echo_cb handler_t" where
  "echo_demo_handler = (Handler_new 5 echo_junk)\<lparr>hd_events := EPOLLIN, hd_revents := EPOLLIN, hd_isInEpoll := True,
     hd_readCallback := Some ReadData\<rparr>"

definition echo_demo_world :: echo_world where
  "echo_demo_world = EchoServer_new\<lparr>ew_heap := [1 \<mapsto> echo_demo_handler], ew_handleList := [(5, 1)]\<rparr>"

theorem echo_faults_witness:
  "Handler_HandleEvent \<lparr>ek_accept = (6, 2, []), ek_read = (\<lambda>fd. Some []), ek_write = (\<lambda>fd n. 0)\<rparr> 1 echo_demo_world = Inl OutOfBounds
   \<and> Handler_HandleEvent \<lparr>ek_accept = (6, 2, []), ek_read = (\<lambda>fd. Some echo_junk), ek_write = (\<lambda>fd n. 0)\<rparr> 1 echo_demo_world = Inl OutOfBounds"
proof -
  have h: "smap_get (ew_handleList echo_demo_world) (hd_fd echo_demo_handler) = Some 1"
    "ew_heap echo_demo_world 1 = Some echo_demo_handler" "hd_isInEpoll echo_demo_handler"
    "length (hd_buff echo_demo_handler) = MAX_BUFFLEN"
    "hd_revents echo_demo_handler = EPOLLIN \<and> hd_readCallback echo_demo_handler = Some ReadData"
    by (simp_all add: echo_demo_world_def echo_demo_handler_def EchoServer_new_def Handler_new_def smap_get_def
        echo_junk_def MAX_BUFFLEN_def)
  have "length echo_junk = MAX_BUFFLEN" by (simp add: echo_junk_def MAX_BUFFLEN_def)
  then show ?thesis
    using echo_faults [OF h(1-4), of "\<lparr>ek_accept = (6, 2, []), ek_read = (\<lambda>fd. Some []), ek_write = (\<lambda>fd n. 0)\<rparr>"]
      echo_faults [OF h(1-4), of "\<lparr>ek_accept = (6, 2, []), ek_read = (\<lambda>fd. Some echo_junk), ek_write = (\<lambda>fd n. 0)\<rparr>"] h(5)
    by simp
qed

end
