(* ===== verification/Spec2Isabelle.thy ===== *)
theory Spec2Isabelle
  imports Http_Clients BlockingQueue BoundedBlockingQueue ThreadPool Thread_Samples Language_Samples Accessors Echo_Reactor
begin

text \<open>
  A verification library for \<open>src/recipes/mini-webserver\<close>, a small HTTP server in C++ in the
  style of muduo: one event loop per thread, non-blocking sockets, callbacks. File names below
  are relative to that directory. \<open>src/recipes/Reactor\<close>, an echo server that shares no code with
  it, is covered too.

  \<^bold>\<open>The program.\<close> \<open>main.cpp\<close> makes an \<open>EventLoop\<close> and an \<open>HttpServer\<close> that owns a
  \<open>TcpServer\<close>. The loop polls an \<open>Epoll\<close>, which fills in the ready \<open>Channel\<close>s, runs their
  callbacks, and then the functors that other threads have queued (each with a write to an
  eventfd). Timers share one timerfd, whose channel calls \<open>TimerQueue::handleRead\<close>. The
  \<open>Acceptor\<close> hands each accepted \<open>Socket\<close> to \<open>TcpServer::newConnection\<close>, which makes a
  \<open>TcpConnection\<close> on a loop of the \<open>EventLoopThreadPool\<close> and enters it in its map. A
  connection reads into its input \<open>Buffer\<close> and calls \<open>HttpServer::onMessage\<close>, which feeds the
  \<open>HttpContext\<close>; a complete \<open>HttpRequest\<close> is answered with an \<open>HttpResponse\<close> sent through the
  output \<open>Buffer\<close>. \<open>base\<close> holds what threads share: mutex, condition, atomics, queues, pool.

  \<^bold>\<open>Where it is modelled.\<close> A constant carries the name of its class and method,
  \<open>Buffer_readFd\<close> for \<open>Buffer::readFd\<close>, and a record has the fields of its class in their order.
  \<^item> \<open>Prelude\<close>: the ways a call can fail to return (failed assertion, access out of bounds, a
    missing return, an empty \<open>std::function\<close>, ...), the result type that carries them, \<open>size_t\<close>
    arithmetic that wraps, memory reads and writes, \<open>snprintf\<close>. \<open>returns r P\<close> says that \<open>r\<close>
    is a normal return whose value satisfies \<open>P\<close>.
  \<^item> \<open>Std_Containers\<close>: \<open>std::map\<close> and \<open>std::set\<close> as ordered lists, and the contracts
    \<open>keyed_store\<close> and \<open>ordered_set\<close> that the clients use.
  \<^item> \<open>Byte_Queue\<close>, \<open>Buffer\<close>: the contract of a byte buffer, and \<open>net/Buffer\<close> with its
    reader and writer index, its growth and compaction, and \<open>readv\<close> into the stack buffer.
  \<^item> \<open>Http_Request\<close>, \<open>Http_Context\<close>, \<open>Http_Response\<close>: \<open>http/HttpRequest\<close>, the incremental
    parser of \<open>http/HttpContext\<close> and the serialisation of \<open>http/HttpResponse\<close>.
    \<open>Http_Typing\<close>: what the fields of a parsed request can hold, and what the header lines of a
    response then hold.
  \<^item> \<open>Channel\<close>, \<open>Epoll\<close>: \<open>net/Channel\<close> and \<open>net/Epoll\<close>, with the contract
    \<open>channel_registry\<close> between them; the poller records what it asks of the kernel.
  \<^item> \<open>Atomic\<close>, \<open>Timer\<close>, \<open>TimerQueue\<close>, \<open>EventLoop\<close>: \<open>base/Atomic.h\<close>, \<open>net/Timer\<close>,
    \<open>net/TimerId.h\<close>, \<open>net/TimerQueue\<close>, \<open>net/EventLoop\<close>; a loop with other threads that queue
    work and ask it to stop is the step relation \<open>lstep\<close>.
  \<^item> \<open>Socket\<close>, \<open>Acceptor\<close>, \<open>TcpConnection\<close>, \<open>EventLoopThread\<close>, \<open>TcpServer\<close>: the classes
    of these names, \<open>net/InternetAddress\<close> and \<open>net/EventLoopThreadPool\<close>. A \<open>conn_world\<close> is a
    connection with its channel, poller, kernel and functor queue; a \<open>srv_world\<close> is a server
    with all its connections, the pollers of all loops and the functors queued in them.
    \<open>Connection_Life\<close> is the life of one connection under any events, \<open>Server_Registry\<close> a
    server with any number of connections, as the step relation of what its loops may do.
  \<^item> \<open>HttpServer\<close>: \<open>http/HttpServer\<close> and \<open>main.cpp\<close>. \<open>Http_Program\<close>: the server that
    \<open>main\<close> starts, with its own callbacks, under the steps of \<open>Server_Registry\<close>.
  \<^item> \<open>Http_Session\<close>: no code of its own; a session on one connection, from the read events to
    the bytes on the wire, through all the layers above, on a socket that takes as many bytes of
    each write as it likes. \<open>Http_Clients\<close>: any number of such sessions at the same time on
    the server that \<open>main\<close> starts.
  \<^item> \<open>Sync\<close>, \<open>BlockingQueue\<close>, \<open>BoundedBlockingQueue\<close>, \<open>ThreadPool\<close>: the rest of \<open>base\<close>. An
    operation under a mutex is one function on the data, \<open>None\<close> when it has to wait; its callers
    are a step relation over the program points of any number of threads. \<open>Sync\<close> has the
    contract \<open>wakeups\<close> of a user of a condition variable.
  \<^item> \<open>Thread_Samples\<close>: the programs of \<open>src/recipes/C++11\<close> and \<open>src/recipes/thread\<close> that
    share data between threads (the gate, the alternating printers, a bounded buffer, the class
    with two mutexes, a pool), as instances of the contract \<open>monitor\<close> or as step relations.
    \<open>Language_Samples\<close>: the samples on smart pointers, with use counts and destructors, and
    those on the guards of a mutex.
  \<^item> \<open>Accessors\<close>: the methods of the classes above that only read or set one field, the two
    descriptors a loop creates, and the one loop that a thread may have.
  \<^item> \<open>Echo_Reactor\<close>: \<open>src/recipes/Reactor\<close>, its \<open>Handler\<close>, \<open>EpollPoller\<close> and \<open>Reactor\<close>, and
    the \<open>EchoServer\<close> of its \<open>test.cpp\<close>; the loop is \<open>Reactor_loop\<close>.
\<close>

text \<open>
  \<^bold>\<open>What the lemmas show.\<close> Each class has its representation invariant and the lemma that every
  operation keeps it; what each operation does on each branch; and, where the class promises
  something abstract, a refinement: a buffer is a byte queue, a timer queue the set of timers
  added and not cancelled, the parser a function of the bytes received however they are cut, the
  output of a connection the concatenation of the messages it accepted, the pollers a registry of
  the channels. \<open>Http_Session\<close> puts them together: requests that arrive cut anywhere are answered
  in order, also through a slow socket. \<open>Server_Registry\<close> shows of every run of a server that
  its map, its connections, their owners and the pollers agree and that a step on one connection
  leaves the others alone; \<open>Http_Program\<close> that this holds of the program \<open>main\<close> starts, and
  that the first client to disconnect makes it fail an assertion, and \<open>Http_Clients\<close> that as
  long as they stay every client is answered, however their requests are interleaved.
  \<open>Http_Typing\<close> shows that what a client sends can not add a line to a response. The interleaving
  models show first-in first-out delivery and the absence of lost wakeups. Where the code as written
  fails an assertion, drops data, diverges or deadlocks, the theorem says so and gives the conditions.

  \<^bold>\<open>Interfaces.\<close> \<open>byte_queue\<close>, \<open>keyed_store\<close>, \<open>ordered_set\<close>, \<open>channel_registry\<close>,
  \<open>conn_relation\<close> (a relation that every operation of a connection keeps), \<open>wakeups\<close> and
  \<open>monitor\<close> (waits under a mutex for a condition on the data) are locales; each is
  interpreted on the code's own operations in the theory of the component that provides them.

  \<^bold>\<open>Recursion and fuel.\<close> The parse loop may run for ever, so \<open>parse_loop\<close> is a partial function
  into \<open>option\<close>; \<open>Http_Context\<close> proves that it returns from the states in which the server calls
  it and does not from the others. \<open>EventLoop_loop\<close> and \<open>Reactor_loop\<close> run over a list with what
  each round meets: the list is the fuel, and what is proved holds for every such list. The workers
  of a stopped pool have the measure \<open>tp_work\<close>, at most three steps for each worker. The specification
  parser \<open>parse_text\<close> shortens its input and \<open>shared_drop\<close> lowers the sum of the use counts; all else
  recurs structurally or on a smaller number.

  \<^bold>\<open>Parameters.\<close> The answers of the kernel (\<open>readv\<close>, \<open>write\<close>, \<open>accept4\<close>, \<open>epoll_wait\<close>, the
  clock, \<open>getsockname\<close>, files) and the callbacks of the user are arguments. The calls of \<open>epoll_ctl\<close>
  are recorded, and \<open>interest\<close> and \<open>legal_ctl\<close> read them as its manual page describes. Assertions
  are active. Memory allocation does not fail. An identity (a pointer to a channel, a timer, a
  connection, a loop) is a number that the allocator chooses.

  \<^bold>\<open>Not modelled.\<close> Messages on \<open>std::cout\<close>, except where a sample is about them; signals, in
  particular \<open>SIGPIPE\<close>; data races on the plain \<open>bool\<close> members that several threads read and
  write, which are treated as indivisible. \<open>base/noncopyable.h\<close> is empty. Of the samples,
  \<open>auto_test\<close>, \<open>bind_and_function_test\<close> and \<open>nullptr_test\<close> only print the effect of a language
  feature, \<open>unique_lock_test\<close> is \<open>mutex_test\<close> with another guard, and \<open>thread_create.cpp\<close> does
  not compile; nor does \<open>thread_cross_printAB.cpp\<close>, which names \<open>std::this_hread\<close> and
  \<open>std::choron\<close> and is modelled as it is meant.
\<close>

end
